(* ===== verification/Prelude.thy ===== *)
theory Prelude
  imports Main "HOL-Library.Word"
begin

text \<open>
  The vocabulary shared by every component of the replay server: bytes and machine words, the
  build configuration (compile-time macros and the host), errors as values, the memory image of
  an unsigned integer, and lemmas on lists that the components' proofs use over and over.

  \<^item> \<open>build\<close> collects what the sources take from the compiler: \<open>NDEBUG\<close>,
    \<open>std::endian::native\<close>, \<open>DEBUG_NO_NETWORK\<close> and \<open>DEBUG_NO_SLEEP\<close>.
  \<^item> \<open>error\<close> has one constructor per way an operation of the code can fail: the two exceptions it
    throws, a failed \<open>assert\<close> (builds without \<open>NDEBUG\<close>), and the undefined behaviours the model
    makes visible instead of hiding (an access outside a buffer, a division by zero, a conversion
    or a signed sum that does not fit), \<open>std::terminate\<close>, and a join that never returns.
  \<^item> a fallible operation has type \<open>error + 'a\<close>; \<open>andThen\<close> sequences two of them.
  \<^item> \<open>reachable\<close> and the locale \<open>invariant_system\<close> are the frame of the components that are state machines
    (descriptor ownership, the ring buffer under concurrency, the threads of a feed, the running server and its life).
\<close>

subsection \<open>Types\<close>

type_synonym byte = "8 word"
type_synonym bytes = "byte list"
type_synonym u16 = "16 word"
type_synonym u32 = "32 word"
type_synonym u64 = "64 word"

datatype endian = Little | Big

record build =
  ndebug :: bool
  native :: endian
  debug_no_network :: bool
  debug_no_sleep :: bool

datatype error =
    Invalid_argument
  | System_error int
  | Assertion_failed
  | Out_of_bounds
  | Division_by_zero
  | Not_representable
  | Terminate
  | Deadlock

type_synonym 'a res = "error + 'a"

named_theorems keeps \<open>what a piece of the program leaves as it was\<close>

subsection \<open>Sequencing fallible operations\<close>

definition andThen :: "'a res \<Rightarrow> ('a \<Rightarrow> 'b res) \<Rightarrow> 'b res" where
  "andThen m f = (case m of Inl e \<Rightarrow> Inl e | Inr x \<Rightarrow> f x)"

definition check_assert :: "build \<Rightarrow> bool \<Rightarrow> unit res" where
  "check_assert b c = (if \<not> ndebug b \<and> \<not> c then Inl Assertion_failed else Inr ())"

definition check_bounds :: "build \<Rightarrow> bool \<Rightarrow> unit res" where
  "check_bounds b c =
     andThen (check_assert b c) (\<lambda>_. if c then Inr () else Inl Out_of_bounds)"

lemma andThen_simps [simp]:
  "andThen (Inl e) f = Inl e"
  "andThen (Inr x) f = f x"
  by (simp_all add: andThen_def)

lemma andThen_eq_Inr_iff: "andThen m f = Inr y \<longleftrightarrow> (\<exists>x. m = Inr x \<and> f x = Inr y)"
  by (cases m) auto

lemma andThen_eq_Inl_iff: "andThen m f = Inl e \<longleftrightarrow> m = Inl e \<or> (\<exists>x. m = Inr x \<and> f x = Inl e)"
  by (cases m) auto

lemma andThen_assoc: "andThen (andThen m f) g = andThen m (\<lambda>x. andThen (f x) g)"
  by (cases m) auto

lemma andThen_cong [fundef_cong]:
  "m = m' \<Longrightarrow> (\<And>x. m' = Inr x \<Longrightarrow> f x = g x) \<Longrightarrow> andThen m f = andThen m' g"
  by (cases m') auto

lemma check_assert_simps [simp]:
  "check_assert b True = Inr ()"
  "ndebug b \<Longrightarrow> check_assert b c = Inr ()"
  by (simp_all add: check_assert_def)

lemma check_assert_eq_Inr_iff: "check_assert b c = Inr u \<longleftrightarrow> ndebug b \<or> c"
  by (auto simp: check_assert_def)

lemma check_bounds_true [simp]: "check_bounds b True = Inr ()"
  by (simp add: check_bounds_def)

lemma check_bounds_false:
  "check_bounds b False = Inl (if ndebug b then Out_of_bounds else Assertion_failed)"
  by (simp add: check_bounds_def check_assert_def)

lemma check_bounds_eq_Inr_iff [simp]: "check_bounds b c = Inr u \<longleftrightarrow> c"
  by (cases c) (auto simp: check_bounds_false)

subsection \<open>Parts of a list, and overwriting a part\<close>

definition segment :: "'a list \<Rightarrow> nat \<Rightarrow> nat \<Rightarrow> 'a list" where
  "segment xs off n = take n (drop off xs)"

definition overwrite :: "'a list \<Rightarrow> nat \<Rightarrow> 'a list \<Rightarrow> 'a list" where
  "overwrite xs off ys = take off xs @ ys @ drop (off + length ys) xs"

lemma length_segment [simp]: "length (segment xs off n) = min n (length xs - off)"
  by (simp add: segment_def)

lemma length_overwrite [simp]:
  "off + length ys \<le> length xs \<Longrightarrow> length (overwrite xs off ys) = length xs"
  by (simp add: overwrite_def)

lemma segment_overwrite_same:
  "off + length ys \<le> length xs \<Longrightarrow> n = length ys \<Longrightarrow> segment (overwrite xs off ys) off n = ys"
  by (simp add: segment_def overwrite_def)

lemma segment_overwrite_before:
  "o1 + n \<le> off \<Longrightarrow> off + length ys \<le> length xs \<Longrightarrow>
   segment (overwrite xs off ys) o1 n = segment xs o1 n"
  by (rule nth_equalityI) (auto simp: segment_def overwrite_def nth_append)

lemma segment_overwrite_after:
  "off + length ys \<le> o1 \<Longrightarrow> off + length ys \<le> length xs \<Longrightarrow>
   segment (overwrite xs off ys) o1 n = segment xs o1 n"
  by (rule nth_equalityI) (auto simp: segment_def overwrite_def nth_append)

lemma segment_append_left:
  "off + n \<le> length xs \<Longrightarrow> segment (xs @ ys) off n = segment xs off n"
  by (simp add: segment_def)

lemma segment_append_right:
  "length xs \<le> off \<Longrightarrow> segment (xs @ ys) off n = segment ys (off - length xs) n"
  by (simp add: segment_def)

lemma segment_all: "n = length xs \<Longrightarrow> segment xs 0 n = xs"
  by (simp add: segment_def)

lemma segment_prefix: "n = length xs \<Longrightarrow> segment (xs @ ys) 0 n = xs"
  by (simp add: segment_def)

lemma segment_segment:
  "o2 + n \<le> m \<Longrightarrow> segment (segment xs o1 m) o2 n = segment xs (o1 + o2) n"
  by (simp add: segment_def drop_take take_take add.commute min_def)

lemma drop_eq_segment_append:
  "off + n \<le> length xs \<Longrightarrow> drop off xs = segment xs off n @ drop (off + n) xs"
  by (simp add: segment_def add.commute flip: drop_drop)

subsection \<open>Memory image of an unsigned integer\<close>

text \<open>\<open>le_bytes n v\<close> is the low \<open>n\<close> bytes of \<open>v\<close>, least significant first; \<open>le_val\<close> reads them
  back. The big-endian image is the reverse.\<close>

primrec le_bytes :: "nat \<Rightarrow> nat \<Rightarrow> bytes" where
  "le_bytes 0 v = []"
| "le_bytes (Suc n) v = word_of_nat v # le_bytes n (v div 256)"

primrec le_val :: "bytes \<Rightarrow> nat" where
  "le_val [] = 0"
| "le_val (x # xs) = unat x + 256 * le_val xs"

definition be_bytes :: "nat \<Rightarrow> nat \<Rightarrow> bytes" where
  "be_bytes n v = rev (le_bytes n v)"

definition be_val :: "bytes \<Rightarrow> nat" where
  "be_val bs = le_val (rev bs)"

lemma length_le_bytes [simp]: "length (le_bytes n v) = n"
  by (induction n arbitrary: v) auto

lemma le_bytes_numeral: "le_bytes (numeral k) v = word_of_nat v # le_bytes (pred_numeral k) (v div 256)"
  unfolding numeral_eq_Suc [of k] by (rule le_bytes.simps(2))

lemma length_be_bytes [simp]: "length (be_bytes n v) = n"
  by (simp add: be_bytes_def)

lemma unat_byte_less [simp]: "unat (x :: byte) < 256"
  using unsigned_less [of x, where 'a = nat] by simp

lemma le_val_less: "le_val bs < 256 ^ length bs"
proof (induction bs)
  case Nil
  show ?case by simp
next
  case (Cons x xs)
  have "unat x < 256" by simp
  with Cons show ?case by (simp del: unat_byte_less)
qed

lemma be_val_less: "be_val bs < 256 ^ length bs"
  using le_val_less [of "rev bs"] by (simp add: be_val_def)

lemma le_val_le_bytes: "le_val (le_bytes n v) = v mod 256 ^ n"
proof (induction n arbitrary: v)
  case 0
  show ?case by simp
next
  case (Suc n)
  have "v mod 256 ^ Suc n = v mod 256 + 256 * (v div 256 mod 256 ^ n)"
    by (simp add: mod_mult2_eq)
  with Suc show ?case by (simp add: unat_of_nat)
qed

lemma le_bytes_le_val: "le_bytes (length bs) (le_val bs) = bs"
proof (induction bs)
  case Nil
  show ?case by simp
next
  case (Cons x xs)
  have "(unat x + 256 * le_val xs) div 256 = le_val xs" by simp
  moreover have "word_of_nat (unat x + 256 * le_val xs) = (word_of_nat (unat x) :: byte)"
    by (simp only: word_of_nat_eq_iff take_bit_eq_mod) simp
  ultimately show ?case using Cons by simp
qed

lemma be_val_be_bytes: "be_val (be_bytes n v) = v mod 256 ^ n"
  by (simp add: be_val_def be_bytes_def le_val_le_bytes)

lemma be_bytes_be_val: "n = length bs \<Longrightarrow> be_bytes n (be_val bs) = bs"
  using le_bytes_le_val [of "rev bs"] by (simp add: be_val_def be_bytes_def)

lemma filter_update_less:
  "i < length xs \<Longrightarrow> P (xs ! i) \<Longrightarrow> \<not> P y \<Longrightarrow> length (filter P (xs[i := y])) < length (filter P xs)"
proof (induction xs arbitrary: i)
  case Nil
  then show ?case by simp
next
  case (Cons x xs)
  then show ?case by (cases i) auto
qed

subsection \<open>Transition systems\<close>

inductive reachable :: "('s \<Rightarrow> bool) \<Rightarrow> ('s \<Rightarrow> 's \<Rightarrow> bool) \<Rightarrow> 's \<Rightarrow> bool" for init step where
  start: "init s \<Longrightarrow> reachable init step s"
| advance: "reachable init step s \<Longrightarrow> step s s' \<Longrightarrow> reachable init step s'"

lemma reachable_mono: "reachable init step s \<Longrightarrow> (\<And>s. init s \<Longrightarrow> init' s) \<Longrightarrow> reachable init' step s"
  by (induction rule: reachable.induct) (auto intro: reachable.start reachable.advance)

lemma reachable_steps: "reachable init step s \<Longrightarrow> step\<^sup>*\<^sup>* s s' \<Longrightarrow> reachable init step s'"
  by (rotate_tac, induction rule: rtranclp_induct) (auto intro: reachable.advance)

locale invariant_system =
  fixes init :: "'s \<Rightarrow> bool" and step :: "'s \<Rightarrow> 's \<Rightarrow> bool" and inv :: "'s \<Rightarrow> bool"
  assumes init_inv: "init s \<Longrightarrow> inv s"
    and step_inv: "inv s \<Longrightarrow> step s s' \<Longrightarrow> inv s'"
begin

lemma reachable_inv: "reachable init step s \<Longrightarrow> inv s"
  by (induction rule: reachable.induct) (auto intro: init_inv step_inv)

end

end
