(* ===== verification/Binary_IO.thy ===== *)
theory Binary_IO
  imports Prelude
begin

text \<open>
  \<open>src/src/util/binary_io.h\<close>: unchecked reads and writes of trivially copyable values in a byte
  buffer. \<open>std::memcpy\<close> moves the object representation of a value, which depends on the host
  (\<open>object_bytes\<close>, \<open>object_of\<close>); the \<open>_be\<close> operations swap bytes on a little-endian host so that
  the buffer is big endian everywhere. An access outside the buffer fails the debug assertion, or
  is undefined behaviour when assertions are compiled out; both are errors of the model.

  The theorems show that the \<open>_be\<close> operations do not depend on the host, that a value written is
  read back, and that bytes outside the field are kept. The locale \<open>field_codec\<close> states what the
  packet components rely on; it is interpreted on the 16-bit and the 64-bit accessors.
\<close>

subsection \<open>Object representation and byte order\<close>

definition sizeof :: "'a::len itself \<Rightarrow> nat" where
  "sizeof t = LENGTH('a) div 8"

definition object_bytes :: "build \<Rightarrow> 'a::len word \<Rightarrow> bytes" where
  "object_bytes b w =
     (case native b of
        Little \<Rightarrow> le_bytes (sizeof TYPE('a)) (unat w)
      | Big \<Rightarrow> be_bytes (sizeof TYPE('a)) (unat w))"

definition object_of :: "build \<Rightarrow> bytes \<Rightarrow> 'a::len word" where
  "object_of b bs = word_of_nat (case native b of Little \<Rightarrow> le_val bs | Big \<Rightarrow> be_val bs)"

definition byteswap :: "'a::len word \<Rightarrow> 'a word" where
  "byteswap w = word_of_nat (be_val (le_bytes (sizeof TYPE('a)) (unat w)))"

definition to_be :: "build \<Rightarrow> 'a::len word \<Rightarrow> 'a word" where
  "to_be b value = (if native b = Big then value else byteswap value)"

subsection \<open>The accessors\<close>

definition read_val :: "build \<Rightarrow> bytes \<Rightarrow> nat \<Rightarrow> ('a::len word \<times> nat) res" where
  "read_val b buf pos =
     andThen (check_bounds b (pos + sizeof TYPE('a) \<le> length buf)) (\<lambda>_.
     Inr (object_of b (segment buf pos (sizeof TYPE('a))), pos + sizeof TYPE('a)))"

definition write_val :: "build \<Rightarrow> bytes \<Rightarrow> nat \<Rightarrow> 'a::len word \<Rightarrow> (bytes \<times> nat) res" where
  "write_val b buf pos value =
     andThen (check_bounds b (pos + sizeof TYPE('a) \<le> length buf)) (\<lambda>_.
     Inr (overwrite buf pos (object_bytes b value), pos + sizeof TYPE('a)))"

definition write_range :: "build \<Rightarrow> bytes \<Rightarrow> nat \<Rightarrow> bytes \<Rightarrow> (bytes \<times> nat) res" where
  "write_range b buf pos data =
     andThen (check_bounds b (pos + length data \<le> length buf)) (\<lambda>_.
     Inr (overwrite buf pos data, pos + length data))"

definition read_at :: "build \<Rightarrow> bytes \<Rightarrow> nat \<Rightarrow> 'a::len word res" where
  "read_at b buf offset = andThen (read_val b buf offset) (\<lambda>(value, pos). Inr value)"

definition write_at :: "build \<Rightarrow> bytes \<Rightarrow> nat \<Rightarrow> 'a::len word \<Rightarrow> bytes res" where
  "write_at b buf offset value = andThen (write_val b buf offset value) (\<lambda>(buf', pos). Inr buf')"

definition write_at_range :: "build \<Rightarrow> bytes \<Rightarrow> nat \<Rightarrow> bytes \<Rightarrow> bytes res" where
  "write_at_range b buf offset data = andThen (write_range b buf offset data) (\<lambda>(buf', pos). Inr buf')"

definition read_be :: "build \<Rightarrow> bytes \<Rightarrow> nat \<Rightarrow> ('a::len word \<times> nat) res" where
  "read_be b buf pos = andThen (read_val b buf pos) (\<lambda>(value, pos'). Inr (to_be b value, pos'))"

definition write_be :: "build \<Rightarrow> bytes \<Rightarrow> nat \<Rightarrow> 'a::len word \<Rightarrow> (bytes \<times> nat) res" where
  "write_be b buf pos value = write_val b buf pos (to_be b value)"

definition read_at_be :: "build \<Rightarrow> bytes \<Rightarrow> nat \<Rightarrow> 'a::len word res" where
  "read_at_be b buf offset = andThen (read_at b buf offset) (\<lambda>value. Inr (to_be b value))"

definition write_at_be :: "build \<Rightarrow> bytes \<Rightarrow> nat \<Rightarrow> 'a::len word \<Rightarrow> bytes res" where
  "write_at_be b buf offset value = write_at b buf offset (to_be b value)"

subsection \<open>Byte order: the image of a swapped value\<close>

lemma sizeof_numeral [simp]:
  "sizeof TYPE(8) = 1" "sizeof TYPE(16) = 2" "sizeof TYPE(32) = 4" "sizeof TYPE(64) = 8"
  by (simp_all add: sizeof_def)

lemma two_power_sizeof: "8 dvd LENGTH('a::len) \<Longrightarrow> (2::nat) ^ LENGTH('a) = 256 ^ sizeof TYPE('a)"
  by (auto simp: sizeof_def elim!: dvdE simp: power_mult)

lemma unat_less_sizeof:
  fixes w :: "'a::len word"
  shows "8 dvd LENGTH('a) \<Longrightarrow> unat w < 256 ^ sizeof TYPE('a)"
  using unsigned_less [of w, where 'a = nat] by (simp add: two_power_sizeof)

lemma unat_of_bytes:
  "8 dvd LENGTH('a::len) \<Longrightarrow> v < 256 ^ sizeof TYPE('a) \<Longrightarrow> unat (word_of_nat v :: 'a word) = v"
  by (simp add: unat_of_nat two_power_sizeof)

lemma unat_byteswap:
  fixes w :: "'a::len word"
  assumes "8 dvd LENGTH('a)"
  shows "unat (byteswap w) = be_val (le_bytes (sizeof TYPE('a)) (unat w))"
  unfolding byteswap_def
  using be_val_less [of "le_bytes (sizeof TYPE('a)) (unat w)"] by (simp add: unat_of_bytes assms)

lemma object_bytes_to_be:
  fixes w :: "'a::len word"
  assumes "8 dvd LENGTH('a)"
  shows "object_bytes b (to_be b w) = be_bytes (sizeof TYPE('a)) (unat w)"
proof (cases "native b")
  case Big
  then show ?thesis by (simp add: object_bytes_def to_be_def)
next
  case Little
  let ?n = "sizeof TYPE('a)"
  have "le_bytes ?n (be_val (le_bytes ?n (unat w))) = rev (be_bytes ?n (be_val (le_bytes ?n (unat w))))"
    by (simp add: be_bytes_def)
  also have "\<dots> = be_bytes ?n (unat w)"
    using be_bytes_be_val [of ?n "le_bytes ?n (unat w)"] by (simp add: be_bytes_def)
  finally show ?thesis
    using Little by (simp add: object_bytes_def to_be_def unat_byteswap assms)
qed

lemma to_be_object_of:
  fixes bs :: bytes
  assumes "8 dvd LENGTH('a::len)" and "length bs = sizeof TYPE('a)"
  shows "to_be b (object_of b bs :: 'a word) = word_of_nat (be_val bs)"
proof (cases "native b")
  case Big
  then show ?thesis by (simp add: object_of_def to_be_def)
next
  case Little
  have "unat (word_of_nat (le_val bs) :: 'a word) = le_val bs"
    using le_val_less [of bs] by (simp add: unat_of_bytes assms)
  with Little show ?thesis
    using le_bytes_le_val [of bs] by (simp add: object_of_def to_be_def byteswap_def assms)
qed

lemma nth_le_bytes: "i < n \<Longrightarrow> unat (le_bytes n v ! i) = v div 256 ^ i mod 256"
  by (induction n arbitrary: v i) (auto simp: nth_Cons' unat_of_nat div_mult2_eq gr0_conv_Suc)

lemma nth_be_bytes: "i < n \<Longrightarrow> unat (be_bytes n v ! i) = v div 256 ^ (n - Suc i) mod 256"
  by (simp add: be_bytes_def rev_nth nth_le_bytes)

lemma length_object_bytes [simp]: "length (object_bytes b (w :: 'a::len word)) = sizeof TYPE('a)"
  by (simp add: object_bytes_def split: endian.split)

lemma word_of_be_bytes:
  fixes w :: "'a::len word"
  assumes "8 dvd LENGTH('a)"
  shows "word_of_nat (be_val (be_bytes (sizeof TYPE('a)) (unat w))) = w"
  using unat_less_sizeof [of w] by (simp add: be_val_be_bytes assms)

subsection \<open>What the big-endian accessors do, on any host\<close>

lemma read_be_eq:
  assumes "8 dvd LENGTH('a::len)"
  shows "(read_be b buf pos :: ('a word \<times> nat) res) =
    (if pos + sizeof TYPE('a) \<le> length buf
     then Inr (word_of_nat (be_val (segment buf pos (sizeof TYPE('a)))), pos + sizeof TYPE('a))
     else Inl (if ndebug b then Out_of_bounds else Assertion_failed))"
  by (simp add: read_be_def read_val_def to_be_object_of assms check_bounds_false)

lemma read_at_be_eq:
  assumes "8 dvd LENGTH('a::len)"
  shows "(read_at_be b buf pos :: 'a word res) =
    (if pos + sizeof TYPE('a) \<le> length buf
     then Inr (word_of_nat (be_val (segment buf pos (sizeof TYPE('a)))))
     else Inl (if ndebug b then Out_of_bounds else Assertion_failed))"
  by (simp add: read_at_be_def read_at_def read_val_def to_be_object_of assms check_bounds_false)

lemma write_at_be_eq:
  fixes v :: "'a::len word"
  assumes "8 dvd LENGTH('a)"
  shows "write_at_be b buf pos v =
    (if pos + sizeof TYPE('a) \<le> length buf
     then Inr (overwrite buf pos (be_bytes (sizeof TYPE('a)) (unat v)))
     else Inl (if ndebug b then Out_of_bounds else Assertion_failed))"
  by (simp add: write_at_be_def write_at_def write_val_def object_bytes_to_be assms check_bounds_false)

lemma write_be_eq:
  fixes v :: "'a::len word"
  assumes "8 dvd LENGTH('a)"
  shows "write_be b buf pos v =
    (if pos + sizeof TYPE('a) \<le> length buf
     then Inr (overwrite buf pos (be_bytes (sizeof TYPE('a)) (unat v)), pos + sizeof TYPE('a))
     else Inl (if ndebug b then Out_of_bounds else Assertion_failed))"
  by (simp add: write_be_def write_val_def object_bytes_to_be assms check_bounds_false)

lemma write_at_range_eq:
  "write_at_range b buf pos data =
    (if pos + length data \<le> length buf then Inr (overwrite buf pos data)
     else Inl (if ndebug b then Out_of_bounds else Assertion_failed))"
  by (simp add: write_at_range_def write_range_def check_bounds_false)

lemma read_at_be_fault:
  "8 dvd LENGTH('a::len) \<Longrightarrow> \<not> pos + sizeof TYPE('a) \<le> length buf \<Longrightarrow>
   (read_at_be b buf pos :: 'a word res) = Inl (if ndebug b then Out_of_bounds else Assertion_failed)"
  by (simp add: read_at_be_eq)

subsection \<open>Interface: a fixed-width field of a buffer\<close>

locale field_codec =
  fixes put :: "bytes \<Rightarrow> nat \<Rightarrow> 'a \<Rightarrow> bytes res"
    and get :: "bytes \<Rightarrow> nat \<Rightarrow> 'a res"
    and image :: "'a \<Rightarrow> bytes"
    and width :: nat
  assumes put_in_range: "off + width \<le> length buf \<Longrightarrow> put buf off v = Inr (overwrite buf off (image v))"
    and get_image: "off + width \<le> length buf \<Longrightarrow> segment buf off width = image v \<Longrightarrow> get buf off = Inr v"
    and image_exists: "length bs = width \<Longrightarrow> \<exists>v. image v = bs"
    and length_image: "length (image v) = width"
begin

lemma put_length: "off + width \<le> length buf \<Longrightarrow> put buf off v = Inr buf' \<Longrightarrow> length buf' = length buf"
  by (auto simp: put_in_range length_image)

lemma get_put_same:
  "off + width \<le> length buf \<Longrightarrow> put buf off v = Inr buf' \<Longrightarrow> get buf' off = Inr v"
  by (auto simp: put_in_range length_image segment_overwrite_same intro!: get_image)

lemma put_keeps_segment:
  assumes "off + width \<le> length buf" and "put buf off v = Inr buf'"
    and "o1 + n \<le> off \<or> off + width \<le> o1"
  shows "segment buf' o1 n = segment buf o1 n"
  using assms by (auto simp: put_in_range length_image segment_overwrite_before segment_overwrite_after)

lemma get_total: "off + width \<le> length buf \<Longrightarrow> \<exists>v. get buf off = Inr v \<and> image v = segment buf off width"
proof -
  assume *: "off + width \<le> length buf"
  then have "length (segment buf off width) = width" by simp
  then obtain v where "image v = segment buf off width" using image_exists by blast
  with * show ?thesis using get_image [of off buf v] by auto
qed

lemma get_cong:
  assumes "off + width \<le> length buf" and "off' + width \<le> length buf'"
    and "segment buf off width = segment buf' off' width"
  shows "get buf off = get buf' off'"
proof -
  obtain v where v: "get buf off = Inr v" "image v = segment buf off width"
    using get_total [OF assms(1)] by blast
  then have "get buf' off' = Inr v"
    using get_image [OF assms(2), of v] assms(3) by simp
  with v show ?thesis by simp
qed

end

interpretation u16_field: field_codec "write_at_be b :: bytes \<Rightarrow> nat \<Rightarrow> u16 \<Rightarrow> bytes res"
    "read_at_be b" "\<lambda>v. be_bytes 2 (unat v)" 2 for b
proof (standard, goal_cases)
  case (1 off buf v)
  then show ?case by (simp add: write_at_be_eq)
next
  case (2 off buf v)
  then show ?case using word_of_be_bytes [of v] by (simp add: read_at_be_eq)
next
  case (3 bs)
  then have "be_bytes 2 (unat (word_of_nat (be_val bs) :: u16)) = bs"
    using be_val_less [of bs] be_bytes_be_val [of 2 bs] by (simp add: unat_of_nat)
  then show ?case by blast
next
  case (4 v)
  show ?case by simp
qed

interpretation u64_field: field_codec "write_at_be b :: bytes \<Rightarrow> nat \<Rightarrow> u64 \<Rightarrow> bytes res"
    "read_at_be b" "\<lambda>v. be_bytes 8 (unat v)" 8 for b
proof (standard, goal_cases)
  case (1 off buf v)
  then show ?case by (simp add: write_at_be_eq)
next
  case (2 off buf v)
  then show ?case using word_of_be_bytes [of v] by (simp add: read_at_be_eq)
next
  case (3 bs)
  then have "be_bytes 8 (unat (word_of_nat (be_val bs) :: u64)) = bs"
    using be_val_less [of bs] be_bytes_be_val [of 8 bs] by (simp add: unat_of_nat)
  then show ?case by blast
next
  case (4 v)
  show ?case by simp
qed

section \<open>Properties\<close>

text \<open>
  C32. A big-endian field of any width of whole bytes is big endian and independent of the host: what \<open>write_at_be\<close> stores
  on any host are the bytes of the value, the most significant first; \<open>read_at_be\<close> reads the value back on any other host;
  and no byte outside the field changes.
\<close>

theorem be_field_roundtrip:
  fixes v :: "'a::len word"
  assumes "8 dvd LENGTH('a)" and "off + sizeof TYPE('a) \<le> length buf"
  shows "\<exists>buf'. write_at_be b1 buf off v = Inr buf' \<and> length buf' = length buf \<and>
    (\<forall>i < sizeof TYPE('a). unat (buf' ! (off + i)) = unat v div 256 ^ (sizeof TYPE('a) - Suc i) mod 256) \<and>
    read_at_be b2 buf' off = Inr v \<and>
    (\<forall>i < length buf. i < off \<or> off + sizeof TYPE('a) \<le> i \<longrightarrow> buf' ! i = buf ! i)"
proof -
  let ?n = "sizeof TYPE('a)"
  define buf' where "buf' = overwrite buf off (be_bytes ?n (unat v))"
  have put: "write_at_be b1 buf off v = Inr buf'" and len: "length buf' = length buf"
    using assms by (simp_all add: write_at_be_eq buf'_def)
  have seg: "segment buf' off ?n = be_bytes ?n (unat v)" using assms(2) by (simp add: buf'_def segment_overwrite_same)
  then have "read_at_be b2 buf' off = Inr v" using assms len word_of_be_bytes [of v] by (simp add: read_at_be_eq)
  moreover have "unat (buf' ! (off + i)) = unat v div 256 ^ (?n - Suc i) mod 256" if "i < ?n" for i
  proof -
    have "buf' ! (off + i) = segment buf' off ?n ! i" using that assms(2) len by (simp add: segment_def)
    then show ?thesis using that by (simp add: seg nth_be_bytes)
  qed
  moreover have "buf' ! i = buf ! i" if "i < length buf" "i < off \<or> off + ?n \<le> i" for i
    using that assms(2) by (auto simp: buf'_def overwrite_def nth_append)
  ultimately show ?thesis using put len by blast
qed

theorem be_field_roundtrip_witness:
  "\<exists>buf'. write_at_be \<lparr>ndebug = False, native = Little, debug_no_network = False, debug_no_sleep = False\<rparr>
      (replicate 20 7) 18 (258 :: u16) = Inr buf' \<and> length buf' = 20 \<and>
    unat (buf' ! 18) = 1 \<and> unat (buf' ! 19) = 2 \<and> buf' ! 17 = 7 \<and>
    read_at_be \<lparr>ndebug = True, native = Big, debug_no_network = False, debug_no_sleep = False\<rparr> buf' 18 = Inr (258 :: u16)"
proof -
  let ?b = "\<lparr>ndebug = False, native = Little, debug_no_network = False, debug_no_sleep = False\<rparr>"
  let ?c = "\<lparr>ndebug = True, native = Big, debug_no_network = False, debug_no_sleep = False\<rparr>"
  let ?buf = "replicate 20 7 :: bytes"
  have "8 dvd LENGTH(16)" "18 + sizeof TYPE(16) \<le> length ?buf" by simp_all
  from be_field_roundtrip [OF this, of ?b 258 ?c] obtain buf' where buf': "write_at_be ?b ?buf 18 (258 :: u16) = Inr buf'"
    "length buf' = 20" "\<And>i. i < 2 \<Longrightarrow> unat (buf' ! (18 + i)) = 258 div 256 ^ (2 - Suc i) mod 256"
    "read_at_be ?c buf' 18 = Inr (258 :: u16)" "\<And>i. i < 20 \<Longrightarrow> i < 18 \<or> 20 \<le> i \<Longrightarrow> buf' ! i = ?buf ! i" by auto
  have "unat (buf' ! 18) = 1" "unat (buf' ! 19) = 2" "buf' ! 17 = 7" using buf'(3) [of 0] buf'(3) [of 1] buf'(5) [of 17] by simp_all
  then show ?thesis using buf' by blast
qed

end
