(* ===== verification/Mold_Types.thy ===== *)
theory Mold_Types
  imports Binary_IO
begin

text \<open>
  \<open>src/include/imr/mold/types.h\<close>: widths and offsets of the MoldUDP64 header, and the two reserved
  message counts. A header is 10 session bytes, a 64-bit sequence number and a 16-bit message count.
  \<open>header_of\<close> states, independently of the code, what those 20 bytes are.
\<close>

definition session_size :: nat where "session_size = 10"

definition header_length :: nat where
  "header_length = session_size + sizeof TYPE(64) + sizeof TYPE(16)"

definition session_offset :: nat where "session_offset = 0"

definition sequence_number_offset :: nat where "sequence_number_offset = session_size"

definition message_count_offset :: nat where
  "message_count_offset = sequence_number_offset + sizeof TYPE(64)"

definition message_block_offset :: nat where
  "message_block_offset = message_count_offset + sizeof TYPE(16)"

definition heartbeat_msg_count :: u16 where "heartbeat_msg_count = 0"

definition end_of_session_msg_count :: u16 where "end_of_session_msg_count = 0xFFFF"

definition length_prefix_size :: nat where "length_prefix_size = sizeof TYPE(16)"

lemma header_layout [simp]:
  "session_size = 10" "header_length = 20" "session_offset = 0" "sequence_number_offset = 10"
  "message_count_offset = 18" "message_block_offset = 20" "length_prefix_size = 2"
  by (simp_all add: session_size_def header_length_def session_offset_def
      sequence_number_offset_def message_count_offset_def message_block_offset_def
      length_prefix_size_def)

subsection \<open>The header on the wire\<close>

definition header_of :: "bytes \<Rightarrow> u64 \<Rightarrow> u16 \<Rightarrow> bytes" where
  "header_of session seq count = session @ be_bytes 8 (unat seq) @ be_bytes 2 (unat count)"

lemma length_header_of [simp]: "length session = 10 \<Longrightarrow> length (header_of session seq count) = 20"
  by (simp add: header_of_def)

lemma header_split:
  assumes "length h = 20"
  shows "h = segment h 0 10 @ segment h 10 8 @ segment h 18 2"
proof -
  have "h = segment h 0 10 @ drop 10 h" by (simp add: segment_def)
  also have "drop 10 h = segment h 10 8 @ drop 18 h"
    using drop_eq_segment_append [of 10 8 h] assms by simp
  also have "drop 18 h = segment h 18 2"
    using assms by (simp add: segment_def)
  finally show ?thesis .
qed

text \<open>A 20-byte buffer whose three fields have been written is that header.\<close>

lemma header_ofI:
  assumes "length h = 20" and "segment h 0 10 = session"
    and "segment h 10 8 = be_bytes 8 (unat seq)" and "segment h 18 2 = be_bytes 2 (unat count)"
  shows "h = header_of session seq count"
  using header_split [OF assms(1)] assms by (simp add: header_of_def)

lemma header_of_fields:
  assumes "length session = 10"
  shows "segment (header_of session seq count @ rest) 0 10 = session"
    and "segment (header_of session seq count @ rest) 10 8 = be_bytes 8 (unat seq)"
    and "segment (header_of session seq count @ rest) 18 2 = be_bytes 2 (unat count)"
  using assms by (simp_all add: header_of_def segment_def)

lemma header_of_inject:
  assumes "length s1 = 10" and "length s2 = 10"
    and "header_of s1 q1 c1 = header_of s2 q2 c2"
  shows "s1 = s2 \<and> q1 = q2 \<and> c1 = c2"
proof -
  have "be_bytes 8 (unat q1) = be_bytes 8 (unat q2)" "be_bytes 2 (unat c1) = be_bytes 2 (unat c2)"
    "s1 = s2"
    using assms by (auto simp: header_of_def)
  then show ?thesis
    using word_of_be_bytes [of q1] word_of_be_bytes [of q2]
      word_of_be_bytes [of c1] word_of_be_bytes [of c2] by simp
qed

end
