(* ===== verification/Itch_Timestamp.thy ===== *)
theory Itch_Timestamp
  imports Mold_Types
begin

text \<open>
  \<open>src/src/itch/timestamp.cpp\<close>: the 48-bit big-endian nanosecond timestamp at offset 5 of every
  ITCH message. The code copies six bytes to the low addresses of a zeroed 64-bit integer, swaps
  its bytes and shifts right by 16. Unlike \<open>binary_io.h\<close> it swaps unconditionally, so the result is
  the big-endian value on a little-endian host only.
\<close>

definition timestamp_offset :: nat where "timestamp_offset = 5"

definition timestamp_size :: nat where "timestamp_size = 6"

definition extract_timestamp :: "build \<Rightarrow> bytes \<Rightarrow> int res" where
  "extract_timestamp b bs =
     andThen (check_bounds b (timestamp_offset + timestamp_size \<le> length bs)) (\<lambda>_.
     let timestamp0 = object_of b (overwrite (replicate 8 0) 0 (segment bs timestamp_offset timestamp_size)) :: u64;
         timestamp = drop_bit 16 (byteswap timestamp0)
     in Inr (uint timestamp))"

lemma timestamp_layout [simp]: "timestamp_offset = 5" "timestamp_size = 6"
  by (simp_all add: timestamp_offset_def timestamp_size_def)

lemma le_val_append: "le_val (xs @ ys) = le_val xs + 256 ^ length xs * le_val ys"
  by (induction xs) (auto simp: algebra_simps)

lemma be_val_append: "be_val (xs @ ys) = 256 ^ length ys * be_val xs + be_val ys"
  by (simp add: be_val_def le_val_append algebra_simps)

lemma byteswap_object_of_little:
  assumes "native b = Little" and "length bs = 8"
  shows "byteswap (object_of b bs :: u64) = word_of_nat (be_val bs)"
  using to_be_object_of [where 'a = 64, of bs b] assms by (simp add: to_be_def)

lemma unat_word_of_nat_u64: "n < 2 ^ 64 \<Longrightarrow> unat (word_of_nat n :: u64) = n"
  by (simp add: unat_of_nat)

lemma drop_bit_16_be_val:
  assumes "length bs = 6"
  shows "drop_bit 16 (word_of_nat (be_val (bs @ [0, 0])) :: u64) = word_of_nat (be_val bs)"
proof -
  have *: "be_val (bs @ [0, 0]) div 2 ^ 16 = be_val bs"
    by (simp add: be_val_append) (simp add: be_val_def)
  have "be_val (bs @ [0, 0]) < 2 ^ 64" and "be_val bs < 2 ^ 64"
    using be_val_less [of "bs @ [0, 0]"] be_val_less [of bs] assms by simp_all
  then have "unat (drop_bit 16 (word_of_nat (be_val (bs @ [0, 0])) :: u64)) = unat (word_of_nat (be_val bs) :: u64)"
    by (simp only: unat_drop_bit_eq unat_word_of_nat_u64) (simp only: drop_bit_eq_div *)
  then show ?thesis by (simp only: word_unat_eq_iff)
qed

lemma extract_timestamp_little:
  assumes "native b = Little" and "11 \<le> length bs"
  shows "extract_timestamp b bs = Inr (int (be_val (segment bs 5 6)))"
proof -
  define six where "six = segment bs 5 6"
  have six: "length six = 6" using assms by (simp add: six_def)
  have "overwrite (replicate 8 0) 0 six = six @ [0, 0]"
    using six by (simp add: overwrite_def numeral_eq_Suc)
  then have "extract_timestamp b bs = Inr (uint (word_of_nat (be_val six) :: u64))"
    using assms six drop_bit_16_be_val [OF six] byteswap_object_of_little [OF assms(1), of "six @ [0, 0]"]
    by (simp add: extract_timestamp_def flip: six_def)
  moreover have "be_val six < 2 ^ 64" using be_val_less [of six] six by simp
  then have "uint (word_of_nat (be_val six) :: u64) = int (be_val six)"
    by (metis of_nat_unat unat_word_of_nat_u64)
  ultimately show ?thesis by (simp add: six_def)
qed

lemma extract_timestamp_short:
  "length bs < 11 \<Longrightarrow>
   extract_timestamp b bs = Inl (if ndebug b then Out_of_bounds else Assertion_failed)"
  by (simp add: extract_timestamp_def check_bounds_false)

section \<open>Properties\<close>

text \<open>
  On a little-endian host the timestamp of a message is the 48-bit big-endian number at its offset 5,
  so it fits in a signed 64-bit count of nanoseconds and is never negative.
\<close>

theorem timestamp_value:
  assumes "native b = Little" and "11 \<le> length bs"
  shows "\<exists>ts. extract_timestamp b bs = Inr ts \<and> ts = int (be_val (segment bs 5 6)) \<and> 0 \<le> ts \<and> ts < 2 ^ 48"
  using extract_timestamp_little [OF assms] be_val_less [of "segment bs 5 6"] assms(2) by simp

theorem timestamp_value_witness:
  "\<exists>ts. extract_timestamp \<lparr>ndebug = False, native = Little, debug_no_network = False, debug_no_sleep = False\<rparr>
      [0, 0, 0, 0, 0, 0, 0, 0, 0, 1, 2] = Inr ts \<and> ts = 258 \<and> 0 \<le> ts \<and> ts < 2 ^ 48"
  using timestamp_value [of "\<lparr>ndebug = False, native = Little, debug_no_network = False, debug_no_sleep = False\<rparr>"
      "[0, 0, 0, 0, 0, 0, 0, 0, 0, 1, 2]"]
  by (simp add: segment_def be_val_def)

text \<open>
  The byte swap is unconditional: the message whose timestamp is 1 ns reads as 1 ns on a little-endian
  host and as 16777216 ns on a big-endian one.
\<close>

theorem timestamp_big_endian_host:
  "extract_timestamp \<lparr>ndebug = True, native = Little, debug_no_network = False, debug_no_sleep = False\<rparr>
     [0, 0, 0, 0, 0, 0, 0, 0, 0, 0, 1] = Inr 1 \<and>
   extract_timestamp \<lparr>ndebug = True, native = Big, debug_no_network = False, debug_no_sleep = False\<rparr>
     [0, 0, 0, 0, 0, 0, 0, 0, 0, 0, 1] = Inr 16777216"
proof -
  have "overwrite (replicate 8 0) 0 (segment [0, 0, 0, 0, 0, 0, 0, 0, 0, 0, 1] 5 6) = ([0, 0, 0, 0, 0, 1, 0, 0] :: bytes)"
    by (simp add: overwrite_def segment_def numeral_eq_Suc)
  moreover have "object_of \<lparr>ndebug = True, native = Big, debug_no_network = False, debug_no_sleep = False\<rparr>
      [0, 0, 0, 0, 0, 1, 0, 0] = (65536 :: u64)"
    by (simp add: object_of_def be_val_def)
  moreover have "byteswap (65536 :: u64) = 1099511627776"
    by (simp add: byteswap_def be_val_def le_bytes_numeral)
  moreover have "uint (drop_bit 16 (1099511627776 :: u64)) = 16777216" by simp
  ultimately have "extract_timestamp \<lparr>ndebug = True, native = Big, debug_no_network = False, debug_no_sleep = False\<rparr>
     [0, 0, 0, 0, 0, 0, 0, 0, 0, 0, 1] = Inr 16777216"
    by (simp add: extract_timestamp_def)
  then show ?thesis using extract_timestamp_little by (simp add: segment_def be_val_def)
qed

end
