(* ===== verification/Mold_IO.thy ===== *)
theory Mold_IO
  imports Itch_Timestamp
begin

text \<open>
  \<open>src/src/mold/io.cpp\<close>: reading one length-prefixed message of the mapped file. The position is
  passed by reference in the code; here each operation returns the new one.

  \<open>message_at\<close> and \<open>messages_from\<close> are the reference reading of a file (which framed message stands
  at a position, and the sequence of messages from a position on); \<open>frame\<close> is the file format of
  the README. \<open>read_message_eq\<close> shows that the code computes the reference on every input and never
  leaves the buffer; the locale \<open>message_reader\<close> is the part both feeds rely on.

  Positions are natural numbers here. The code's are \<open>std::size_t\<close>;
  \<open>get_and_check_length_prefix_u64\<close> is the same routine on 64-bit words, and
  \<open>get_and_check_length_prefix_u64_eq\<close> shows that the two agree wherever a span can exist (a span
  holds less than \<open>2^63\<close> bytes) and the position is inside it, which the feeds keep.
\<close>

definition subspan :: "bytes \<Rightarrow> nat \<Rightarrow> nat \<Rightarrow> bytes res" where
  "subspan bs off n =
     (if off \<le> length bs \<and> n \<le> length bs - off then Inr (segment bs off n) else Inl Out_of_bounds)"

definition get_and_check_length_prefix :: "build \<Rightarrow> bytes \<Rightarrow> nat \<Rightarrow> (u16 option \<times> nat) res" where
  "get_and_check_length_prefix b bs pos =
     (if pos + length_prefix_size > length bs then Inr (None, pos)
      else andThen (read_be b bs pos) (\<lambda>(length_prefix :: u16, pos1).
        if pos1 + unat length_prefix > length bs then Inr (None, pos1)
        else Inr (Some length_prefix, pos1 + unat length_prefix)))"

definition read_message :: "build \<Rightarrow> bytes \<Rightarrow> nat \<Rightarrow> (bytes \<times> nat) res" where
  "read_message b bs pos =
     andThen (get_and_check_length_prefix b bs pos) (\<lambda>(length_prefix, pos').
       case length_prefix of
         Some n \<Rightarrow> andThen (subspan bs pos (length_prefix_size + unat n)) (\<lambda>msg. Inr (msg, pos'))
       | None \<Rightarrow> Inr ([], pos'))"

definition skip_message :: "build \<Rightarrow> bytes \<Rightarrow> nat \<Rightarrow> (bool \<times> nat) res" where
  "skip_message b bs pos =
     andThen (get_and_check_length_prefix b bs pos) (\<lambda>(length_prefix, pos').
       Inr (length_prefix \<noteq> None, pos'))"

definition get_and_check_length_prefix_u64 :: "build \<Rightarrow> bytes \<Rightarrow> u64 \<Rightarrow> (u16 option \<times> u64) res" where
  "get_and_check_length_prefix_u64 b bs pos =
     (if pos + 2 > word_of_nat (length bs) then Inr (None, pos)
      else andThen (read_be b bs (unat pos)) (\<lambda>(length_prefix :: u16, p).
        let pos1 = pos + 2 in
        if pos1 + ucast length_prefix > word_of_nat (length bs) then Inr (None, pos1)
        else Inr (Some length_prefix, pos1 + ucast length_prefix)))"

subsection \<open>Reference reading of a file\<close>

definition frame :: "bytes \<Rightarrow> bytes" where
  "frame body = be_bytes 2 (length body) @ body"

definition message_at :: "bytes \<Rightarrow> nat \<Rightarrow> bytes option" where
  "message_at bs pos =
     (let n = be_val (segment bs pos 2) in
      if pos + 2 \<le> length bs \<and> pos + 2 + n \<le> length bs then Some (segment bs pos (2 + n)) else None)"

definition fail_position :: "bytes \<Rightarrow> nat \<Rightarrow> nat" where
  "fail_position bs pos = (if pos + 2 \<le> length bs then pos + 2 else pos)"

lemma message_at_SomeD:
  assumes "message_at bs pos = Some m"
  shows "2 \<le> length m" "pos + length m \<le> length bs" "m = segment bs pos (length m)"
    "m \<noteq> []" "length m = 2 + be_val (segment bs pos 2)"
proof -
  have *: "pos + 2 + be_val (segment bs pos 2) \<le> length bs" "m = segment bs pos (2 + be_val (segment bs pos 2))"
    using assms by (auto simp: message_at_def Let_def split: if_splits)
  then show len: "length m = 2 + be_val (segment bs pos 2)" by (simp add: min_def)
  with * show "2 \<le> length m" "pos + length m \<le> length bs" "m = segment bs pos (length m)"
    by simp_all
  then show "m \<noteq> []" by auto
qed

function messages_from :: "bytes \<Rightarrow> nat \<Rightarrow> bytes list" where
  "messages_from bs pos =
     (case message_at bs pos of None \<Rightarrow> [] | Some m \<Rightarrow> m # messages_from bs (pos + length m))"
  by pat_completeness auto
termination
  by (relation "measure (\<lambda>(bs, pos). length bs - pos)") (use message_at_SomeD(1,2) in fastforce)+

declare messages_from.simps [simp del]

lemma messages_from_None [simp]: "message_at bs pos = None \<Longrightarrow> messages_from bs pos = []"
  by (simp add: messages_from.simps)

lemma messages_from_Some:
  "message_at bs pos = Some m \<Longrightarrow> messages_from bs pos = m # messages_from bs (pos + length m)"
  by (simp add: messages_from.simps [of bs pos])

subsection \<open>The code computes the reference\<close>

lemma unat_of_be_prefix:
  "length (s :: bytes) = 2 \<Longrightarrow> unat (word_of_nat (be_val s) :: u16) = be_val s"
  using be_val_less [of s] by (simp add: unat_of_nat)

lemma get_and_check_length_prefix_eq:
  "get_and_check_length_prefix b bs pos =
     Inr (case message_at bs pos of
            Some m \<Rightarrow> (Some (word_of_nat (length m - 2)), pos + length m)
          | None \<Rightarrow> (None, fail_position bs pos))"
  by (auto simp: get_and_check_length_prefix_def read_be_eq message_at_def fail_position_def Let_def
      unat_of_be_prefix min_def)

lemma read_message_eq:
  "read_message b bs pos =
     Inr (case message_at bs pos of
            Some m \<Rightarrow> (m, pos + length m)
          | None \<Rightarrow> ([], fail_position bs pos))"
proof (cases "message_at bs pos")
  case None
  then show ?thesis by (simp add: read_message_def get_and_check_length_prefix_eq)
next
  case (Some m)
  note m = message_at_SomeD [OF Some]
  have "length m - 2 < 65536"
    using be_val_less [of "segment bs pos 2"] m by simp
  then have "unat (word_of_nat (length m - 2) :: u16) = length m - 2" by (simp add: unat_of_nat)
  with Some m show ?thesis
    by (simp add: read_message_def get_and_check_length_prefix_eq subspan_def)
qed

lemma skip_message_eq:
  "skip_message b bs pos =
     Inr (case message_at bs pos of
            Some m \<Rightarrow> (True, pos + length m)
          | None \<Rightarrow> (False, fail_position bs pos))"
  by (simp add: skip_message_def get_and_check_length_prefix_eq split: option.split)

lemma fail_position_bounds:
  "pos \<le> length bs \<Longrightarrow> pos \<le> fail_position bs pos \<and> fail_position bs pos \<le> length bs"
  by (simp add: fail_position_def)

subsection \<open>Interface: a source of messages\<close>

locale message_reader =
  fixes read_msg :: "bytes \<Rightarrow> nat \<Rightarrow> (bytes \<times> nat) res"
    and at :: "bytes \<Rightarrow> nat \<Rightarrow> bytes option"
  assumes read_some: "at bs pos = Some m \<Longrightarrow> read_msg bs pos = Inr (m, pos + length m)"
    and read_none: "at bs pos = None \<Longrightarrow> pos \<le> length bs \<Longrightarrow>
      \<exists>pos'. read_msg bs pos = Inr ([], pos') \<and> pos \<le> pos' \<and> pos' \<le> length bs"
    and at_inside: "at bs pos = Some m \<Longrightarrow> m \<noteq> [] \<and> pos + length m \<le> length bs"
    and at_content: "at bs pos = Some m \<Longrightarrow> m = segment bs pos (length m)"
begin

lemma read_total:
  assumes "pos \<le> length bs"
  shows "\<exists>m pos'. read_msg bs pos = Inr (m, pos') \<and> pos \<le> pos' \<and> pos' \<le> length bs"
  using assms read_none read_some at_inside by (cases "at bs pos") (fastforce+)

lemma read_nonempty_iff:
  assumes "pos \<le> length bs" and "read_msg bs pos = Inr (m, pos')"
  shows "m \<noteq> [] \<longleftrightarrow> at bs pos = Some m"
  using assms read_none [of bs pos] read_some [of bs pos] at_inside [of bs pos]
  by (cases "at bs pos") auto

lemma read_progress:
  assumes "pos \<le> length bs" and "read_msg bs pos = Inr (m, pos')" and "m \<noteq> []"
  shows "pos < pos' \<and> pos' = pos + length m \<and> m = segment bs pos (length m)"
  using assms read_nonempty_iff [OF assms(1,2)] read_some [of bs pos m] at_content by auto

end

interpretation mold_io: message_reader "read_message b" message_at for b
proof (standard, goal_cases)
  case (1 bs pos m)
  then show ?case by (simp add: read_message_eq)
next
  case (2 bs pos)
  then show ?case using fail_position_bounds [of pos bs] by (simp add: read_message_eq)
next
  case (3 bs pos m)
  then show ?case using message_at_SomeD [of bs pos m] by simp
next
  case (4 bs pos m)
  then show ?case by (rule message_at_SomeD(3))
qed

subsection \<open>The file format\<close>

lemma length_frame [simp]: "length (frame body) = 2 + length body"
  by (simp add: frame_def)

lemma message_at_frame:
  assumes "length body < 65536"
  shows "message_at (pre @ frame body @ rest) (length pre) = Some (frame body)"
proof -
  have "segment (pre @ frame body @ rest) (length pre) 2 = be_bytes 2 (length body)"
    by (simp add: segment_def frame_def)
  moreover have "be_val (be_bytes 2 (length body)) = length body"
    using assms by (simp add: be_val_be_bytes)
  ultimately show ?thesis
    by (simp add: message_at_def) (simp add: segment_def frame_def)
qed

lemma message_at_is_frame:
  assumes "message_at bs pos = Some m"
  shows "m = frame (drop 2 m)" and "length (drop 2 m) < 65536"
proof -
  note m = message_at_SomeD [OF assms]
  have "segment bs pos 2 = take 2 m"
    by (subst m(3)) (use m(1,2) in \<open>simp add: segment_def min_def\<close>)
  moreover have "length (segment bs pos 2) = 2" using m by simp
  ultimately show "m = frame (drop 2 m)"
    using m(5) be_bytes_be_val [of 2 "segment bs pos 2"] by (simp add: frame_def)
  show "length (drop 2 m) < 65536"
    using m(5) be_val_less [of "segment bs pos 2"] \<open>length (segment bs pos 2) = 2\<close> by simp
qed

lemma messages_from_frames:
  assumes "\<forall>body \<in> set bodies. length body < 65536"
  shows "messages_from (pre @ concat (map frame bodies)) (length pre) = map frame bodies"
  using assms
proof (induction bodies arbitrary: pre)
  case Nil
  then show ?case by (simp add: message_at_def)
next
  case (Cons body bodies)
  have "message_at (pre @ frame body @ concat (map frame bodies)) (length pre) = Some (frame body)"
    using Cons.prems by (intro message_at_frame) simp
  moreover have "messages_from ((pre @ frame body) @ concat (map frame bodies)) (length (pre @ frame body))
      = map frame bodies"
    using Cons.prems by (intro Cons.IH) simp
  ultimately show ?case by (simp add: messages_from_Some)
qed

lemma messages_from_content:
  "concat (messages_from bs pos) = segment bs pos (length (concat (messages_from bs pos)))"
proof (induction bs pos rule: messages_from.induct)
  case (1 bs pos)
  show ?case
  proof (cases "message_at bs pos")
    case None
    then show ?thesis by (simp add: segment_def)
  next
    case (Some m)
    note m = message_at_SomeD [OF Some]
    let ?rest = "concat (messages_from bs (pos + length m))"
    have "segment bs pos (length m + length ?rest) = segment bs pos (length m) @ segment bs (pos + length m) (length ?rest)"
      by (simp add: segment_def take_add add.commute)
    with 1 [OF Some] m(3) Some show ?thesis by (simp add: messages_from_Some)
  qed
qed

subsection \<open>64-bit positions do not wrap\<close>

lemma word_add_less_iff:
  fixes p n k :: u64
  assumes "unat p + unat n < 2 ^ 64"
  shows "k < p + n \<longleftrightarrow> unat k < unat p + unat n" and "unat (p + n) = unat p + unat n"
  using assms by (simp_all add: word_less_nat_alt unat_word_ariths)

lemma get_and_check_length_prefix_u64_refines:
  assumes "length bs < 2 ^ 63" and "unat pos \<le> length bs"
  shows "get_and_check_length_prefix_u64 b bs pos =
    andThen (get_and_check_length_prefix b bs (unat pos)) (\<lambda>(n, p). Inr (n, word_of_nat p))"
proof -
  have len: "unat (word_of_nat (length bs) :: u64) = length bs"
    using assms(1) by (simp add: unat_of_nat)
  have two: "unat pos + unat (2 :: u64) < 2 ^ 64" using assms by simp
  note s1 = word_add_less_iff [OF two]
  have n: "unat (ucast (n :: u16) :: u64) = unat n" for n
    by (simp add: unsigned_ucast_eq take_bit_eq_mod) (use unsigned_less [of n, where 'a = nat] in simp)
  have "unat (pos + 2) + unat (ucast (n :: u16) :: u64) < 2 ^ 64" for n
    using assms unsigned_less [of n, where 'a = nat] by (simp add: s1 n)
  note s2 = word_add_less_iff [OF this]
  show ?thesis
    unfolding get_and_check_length_prefix_u64_def get_and_check_length_prefix_def
    by (simp add: s1 s2 n len Let_def read_be_eq)
qed

section \<open>Properties\<close>

text \<open>
  C26. Reading a message never faults, whatever the bytes: the result stays inside the file, a message
  returned is the framed message that stands at the position (prefix included) and the position advances
  past it, no message is returned exactly when none is complete there, and \<open>skip_message\<close> moves to the same
  place as \<open>read_message\<close>.
\<close>

theorem read_message_correct:
  assumes "pos \<le> length bs"
  shows "\<exists>m pos'. read_message b bs pos = Inr (m, pos') \<and> skip_message b bs pos = Inr (m \<noteq> [], pos') \<and>
    pos \<le> pos' \<and> pos' \<le> length bs \<and> (m = [] \<longleftrightarrow> message_at bs pos = None) \<and>
    (m \<noteq> [] \<longrightarrow> pos' = pos + length m \<and> m = segment bs pos (length m) \<and> length m = 2 + be_val (segment bs pos 2))"
proof (cases "message_at bs pos")
  case None
  then show ?thesis using fail_position_bounds [OF assms] by (simp add: read_message_eq skip_message_eq)
next
  case (Some m)
  note m = message_at_SomeD [OF Some]
  have "read_message b bs pos = Inr (m, pos + length m)" "skip_message b bs pos = Inr (True, pos + length m)"
    using Some by (simp_all add: read_message_eq skip_message_eq)
  moreover have "message_at bs pos \<noteq> None" "pos \<le> pos + length m" using Some by simp_all
  ultimately show ?thesis using m(2,3,4,5) by (intro exI [of _ m] exI [of _ "pos + length m"] conjI impI) (blast | simp)+
qed

theorem read_message_correct_witness:
  "\<exists>m pos'. read_message \<lparr>ndebug = False, native = Little, debug_no_network = False, debug_no_sleep = False\<rparr> [0, 1, 7, 0, 9] 0 = Inr (m, pos') \<and>
    pos' \<le> 5 \<and> (m = [] \<longleftrightarrow> message_at [0, 1, 7, 0, 9] 0 = None)"
  using read_message_correct [of 0 "[0, 1, 7, 0, 9]"] by fastforce

text \<open>
  Round trip with the file format: in a file of framed messages, reading at the start of message \<open>i\<close>
  gives message \<open>i\<close> and leaves the position at message \<open>i + 1\<close>.
\<close>

theorem read_framed_file:
  assumes "\<forall>body \<in> set bodies. length body < 65536" and "i < length bodies"
  shows "read_message b (concat (map frame bodies)) (length (concat (map frame (take i bodies)))) =
    Inr (frame (bodies ! i), length (concat (map frame (take (Suc i) bodies))))"
proof -
  have split: "concat (map frame bodies) =
      concat (map frame (take i bodies)) @ frame (bodies ! i) @ concat (map frame (drop (Suc i) bodies))"
    by (metis append.assoc assms(2) concat.simps(2) concat_append id_take_nth_drop list.simps(9) map_append)
  have "message_at (concat (map frame bodies)) (length (concat (map frame (take i bodies)))) = Some (frame (bodies ! i))"
    unfolding split using assms by (intro message_at_frame) simp
  then show ?thesis using assms(2) by (simp add: read_message_eq take_Suc_conv_app_nth)
qed

theorem read_framed_file_witness:
  "read_message \<lparr>ndebug = False, native = Big, debug_no_network = False, debug_no_sleep = False\<rparr> (concat (map frame [[1, 2], [3]])) 4 =
    Inr (frame [3], 7)"
proof -
  have "length (concat (map frame (take 1 [[1, 2], [3]]))) = 4" "length (concat (map frame (take (Suc 1) [[1, 2], [3]]))) = 7"
    by (simp_all add: frame_def)
  then show ?thesis using read_framed_file [of "[[1, 2], [3]]" 1] by simp
qed

text \<open>
  C33. The routine on 64-bit positions computes what the routine on unbounded positions computes, for every
  file that fits in memory and every position inside it: no sum wraps around.
\<close>

theorem length_prefix_no_wrap:
  assumes "length bs < 2 ^ 63" and "unat pos \<le> length bs"
  shows "get_and_check_length_prefix_u64 b bs pos =
    andThen (get_and_check_length_prefix b bs (unat pos)) (\<lambda>(n, p). Inr (n, word_of_nat p))"
  using assms by (rule get_and_check_length_prefix_u64_refines)

theorem length_prefix_no_wrap_witness:
  "get_and_check_length_prefix_u64 \<lparr>ndebug = False, native = Little, debug_no_network = False, debug_no_sleep = False\<rparr> [0, 1, 7] 0 =
    andThen (get_and_check_length_prefix \<lparr>ndebug = False, native = Little, debug_no_network = False, debug_no_sleep = False\<rparr> [0, 1, 7] 0)
      (\<lambda>(n, p). Inr (n, word_of_nat p))"
  using length_prefix_no_wrap [of "[0, 1, 7]" 0] by simp

end
