(* ===== verification/Packet_Builder.thy ===== *)
theory Packet_Builder
  imports Mold_IO
begin

text \<open>
  \<open>src/include/imr/mold/packet_builder.h\<close>, \<open>src/src/mold/packet_builder.cpp\<close>: a packet is a 20-byte
  header buffer owned by the builder and a vector of \<open>iovec\<close>s, the first of which points at that
  buffer and the others at message bytes of the mapped file. \<open>iov_base\<close> keeps the aliasing: an
  \<open>iovec\<close> on the header is read through the builder's current buffer, so \<open>packet_bytes\<close> (what a
  gathering \<open>sendmsg\<close> transmits) sees what \<open>finalize\<close> wrote after the vector was built.

  \<open>pb_iovecs_reserved\<close> records the argument of \<open>iovecs_.reserve\<close>; allocation failure is not modelled.
  The locale \<open>packet_assembler\<close> is the contract both feeds build packets with.
\<close>

subsection \<open>State\<close>

datatype iov_base = Header_buffer | Message_data bytes

record iovec =
  iov_base :: iov_base
  iov_len :: nat

record packet_builder_config =
  cfg_session :: bytes
  cfg_MTU :: nat
  cfg_min_message_size :: nat

record packet_builder =
  pb_MTU :: nat
  pb_bytes_remaining :: nat
  pb_header_buffer :: bytes
  pb_iovecs :: "iovec list"
  pb_iovecs_reserved :: nat
  pb_min_message_size :: nat

definition default_min_message_size :: nat where "default_min_message_size = 14"

definition default_packet_builder_config :: "bytes \<Rightarrow> packet_builder_config" where
  "default_packet_builder_config session =
     \<lparr>cfg_session = session, cfg_MTU = 1472, cfg_min_message_size = default_min_message_size\<rparr>"

subsection \<open>Operations\<close>

definition header_iovec :: iovec where
  "header_iovec = \<lparr>iov_base = Header_buffer, iov_len = header_length\<rparr>"

definition message_iovec :: "bytes \<Rightarrow> iovec" where
  "message_iovec m = \<lparr>iov_base = Message_data m, iov_len = length m\<rparr>"

definition packet_builder_new :: "build \<Rightarrow> packet_builder_config \<Rightarrow> packet_builder res" where
  "packet_builder_new b cfg =
     (if cfg_MTU cfg < header_length then Inl Invalid_argument
      else if length (cfg_session cfg) \<noteq> session_size then Inl Invalid_argument
      else if cfg_min_message_size cfg = 0 then Inl Division_by_zero
      else andThen (write_at_range b (replicate header_length 0) 0 (cfg_session cfg)) (\<lambda>header.
        Inr \<lparr>pb_MTU = cfg_MTU cfg,
             pb_bytes_remaining = cfg_MTU cfg - header_length,
             pb_header_buffer = header,
             pb_iovecs = [header_iovec],
             pb_iovecs_reserved = 1 + cfg_MTU cfg div cfg_min_message_size cfg,
             pb_min_message_size = cfg_min_message_size cfg\<rparr>))"

definition try_add :: "build \<Rightarrow> packet_builder \<Rightarrow> bytes \<Rightarrow> (bool \<times> packet_builder) res" where
  "try_add b pb message =
     (if length message > pb_bytes_remaining pb \<or> message = [] then Inr (False, pb)
      else andThen (check_assert b (length message \<ge> pb_min_message_size pb)) (\<lambda>_.
        Inr (True, pb\<lparr>pb_iovecs := pb_iovecs pb @ [message_iovec message],
                      pb_bytes_remaining := pb_bytes_remaining pb - length message\<rparr>)))"

definition message_count :: "packet_builder \<Rightarrow> u16" where
  "message_count pb = word_of_nat (length (pb_iovecs pb) - 1)"

definition finalize :: "build \<Rightarrow> packet_builder \<Rightarrow> (iovec list \<times> packet_builder) res" where
  "finalize b pb =
     andThen (write_at_be b (pb_header_buffer pb) message_count_offset (message_count pb)) (\<lambda>header.
       let pb' = pb\<lparr>pb_header_buffer := header\<rparr> in Inr (pb_iovecs pb', pb'))"

definition reset :: "build \<Rightarrow> packet_builder \<Rightarrow> u64 \<Rightarrow> packet_builder res" where
  "reset b pb seq =
     andThen (write_at_be b (pb_header_buffer pb) sequence_number_offset seq) (\<lambda>header.
       Inr (pb\<lparr>pb_header_buffer := header,
               pb_iovecs := take 1 (pb_iovecs pb),
               pb_bytes_remaining := pb_MTU pb - header_length\<rparr>))"

definition session :: "packet_builder \<Rightarrow> bytes" where
  "session pb = segment (pb_header_buffer pb) 0 session_size"

definition iov_bytes :: "packet_builder \<Rightarrow> iovec \<Rightarrow> bytes" where
  "iov_bytes pb v =
     take (iov_len v) (case iov_base v of Header_buffer \<Rightarrow> pb_header_buffer pb | Message_data m \<Rightarrow> m)"

definition packet_bytes :: "packet_builder \<Rightarrow> iovec list \<Rightarrow> bytes" where
  "packet_bytes pb vs = concat (map (iov_bytes pb) vs)"

subsection \<open>Invariant\<close>

definition pb_messages :: "packet_builder \<Rightarrow> bytes list" where
  "pb_messages pb = map (iov_bytes pb) (tl (pb_iovecs pb))"

definition pb_sequence :: "packet_builder \<Rightarrow> u64" where
  "pb_sequence pb = word_of_nat (be_val (segment (pb_header_buffer pb) 10 8))"

definition pb_inv :: "packet_builder \<Rightarrow> bool" where
  "pb_inv pb \<longleftrightarrow>
     length (pb_header_buffer pb) = header_length \<and> header_length \<le> pb_MTU pb \<and>
     0 < pb_min_message_size pb \<and> pb_iovecs_reserved pb = 1 + pb_MTU pb div pb_min_message_size pb \<and>
     pb_iovecs pb = header_iovec # map message_iovec (pb_messages pb) \<and>
     [] \<notin> set (pb_messages pb) \<and>
     header_length + length (concat (pb_messages pb)) + pb_bytes_remaining pb = pb_MTU pb"

text \<open>What the packet on the wire is, as a function of what was put in the builder.\<close>

definition mold_packet :: "bytes \<Rightarrow> u64 \<Rightarrow> bytes list \<Rightarrow> bytes" where
  "mold_packet sess seq msgs = header_of sess seq (word_of_nat (length msgs)) @ concat msgs"

lemma iov_bytes_message [simp]: "iov_bytes pb (message_iovec m) = m"
  by (simp add: iov_bytes_def message_iovec_def)

lemma iov_bytes_header: "length (pb_header_buffer pb) = 20 \<Longrightarrow> iov_bytes pb header_iovec = pb_header_buffer pb"
  by (simp add: iov_bytes_def header_iovec_def)

lemma pb_messages_eq:
  "pb_iovecs pb = header_iovec # map message_iovec ms \<Longrightarrow> pb_messages pb = ms"
  by (simp add: pb_messages_def comp_def)

text \<open>The invariant of a builder whose vector is known.\<close>

lemma pb_invI:
  assumes "pb_iovecs pb = header_iovec # map message_iovec ms" and "[] \<notin> set ms"
    and "length (pb_header_buffer pb) = 20" and "0 < pb_min_message_size pb"
    and "pb_iovecs_reserved pb = 1 + pb_MTU pb div pb_min_message_size pb"
    and "20 + length (concat ms) + pb_bytes_remaining pb = pb_MTU pb"
  shows "pb_inv pb" and "pb_messages pb = ms"
proof -
  show ms: "pb_messages pb = ms" using assms(1) by (rule pb_messages_eq)
  show "pb_inv pb" unfolding pb_inv_def ms using assms by simp
qed

lemma pb_invD:
  assumes "pb_inv pb"
  shows "length (pb_header_buffer pb) = 20" "20 \<le> pb_MTU pb" "0 < pb_min_message_size pb"
    "pb_iovecs_reserved pb = 1 + pb_MTU pb div pb_min_message_size pb"
    "pb_iovecs pb = header_iovec # map message_iovec (pb_messages pb)"
    "[] \<notin> set (pb_messages pb)"
    "20 + length (concat (pb_messages pb)) + pb_bytes_remaining pb = pb_MTU pb"
  using assms by (simp_all add: pb_inv_def)

lemma packet_builder_new_ok:
  assumes "20 \<le> cfg_MTU cfg" and "length (cfg_session cfg) = 10" and "0 < cfg_min_message_size cfg"
  obtains pb where "packet_builder_new b cfg = Inr pb" and "pb_inv pb" and "pb_messages pb = []"
    and "session pb = cfg_session cfg" and "pb_MTU pb = cfg_MTU cfg"
    and "pb_min_message_size pb = cfg_min_message_size cfg"
  using assms
  by (auto simp: packet_builder_new_def write_at_range_eq pb_inv_def pb_messages_def session_def
      segment_overwrite_same)

lemma packet_builder_new_cases:
  "packet_builder_new b cfg =
     (if cfg_MTU cfg < 20 \<or> length (cfg_session cfg) \<noteq> 10 then Inl Invalid_argument
      else if cfg_min_message_size cfg = 0 then Inl Division_by_zero
      else packet_builder_new b cfg)"
  by (simp add: packet_builder_new_def)

lemma try_add_full: "length m > pb_bytes_remaining pb \<or> m = [] \<Longrightarrow> try_add b pb m = Inr (False, pb)"
  by (auto simp: try_add_def)

lemma try_add_ok:
  assumes "pb_inv pb" and "m \<noteq> []" and "length m \<le> pb_bytes_remaining pb"
    and "ndebug b \<or> pb_min_message_size pb \<le> length m"
  obtains pb' where "try_add b pb m = Inr (True, pb')" and "pb_inv pb'"
    and "pb_messages pb' = pb_messages pb @ [m]"
    and "pb_bytes_remaining pb' = pb_bytes_remaining pb - length m"
    and "pb_header_buffer pb' = pb_header_buffer pb" and "pb_MTU pb' = pb_MTU pb"
    and "pb_min_message_size pb' = pb_min_message_size pb"
proof -
  define pb' where "pb' = pb\<lparr>pb_iovecs := pb_iovecs pb @ [message_iovec m],
    pb_bytes_remaining := pb_bytes_remaining pb - length m\<rparr>"
  note inv = pb_invD [OF assms(1)]
  have "pb_inv pb'" "pb_messages pb' = pb_messages pb @ [m]"
    by (rule pb_invI [where ms = "pb_messages pb @ [m]"]; use inv assms(2,3) in \<open>simp add: pb'_def\<close>)+
  moreover have "try_add b pb m = Inr (True, pb')"
    using assms by (auto simp: try_add_def check_assert_def pb'_def)
  ultimately show ?thesis using that by (simp add: pb'_def)
qed

lemma reset_ok:
  assumes "pb_inv pb"
  obtains pb' where "reset b pb seq = Inr pb'" and "pb_inv pb'" and "pb_messages pb' = []"
    and "pb_sequence pb' = seq" and "session pb' = session pb" and "pb_MTU pb' = pb_MTU pb"
    and "pb_min_message_size pb' = pb_min_message_size pb" and "pb_bytes_remaining pb' = pb_MTU pb - 20"
proof -
  define h where "h = overwrite (pb_header_buffer pb) 10 (be_bytes 8 (unat seq))"
  define pb' where "pb' = pb\<lparr>pb_header_buffer := h, pb_iovecs := take 1 (pb_iovecs pb),
    pb_bytes_remaining := pb_MTU pb - 20\<rparr>"
  note inv = pb_invD [OF assms]
  have "pb_inv pb'" "pb_messages pb' = []"
    using inv by (auto intro!: pb_invI [where ms = "[]"] simp: pb'_def h_def)
  moreover have "reset b pb seq = Inr pb'"
    using inv(1) by (simp add: reset_def write_at_be_eq pb'_def h_def)
  moreover have "pb_sequence pb' = seq"
    using inv(1) word_of_be_bytes [of seq] by (simp add: pb_sequence_def segment_overwrite_same pb'_def h_def)
  moreover have "session pb' = session pb"
    using inv(1) by (simp add: session_def segment_overwrite_before pb'_def h_def)
  ultimately show ?thesis using that by (simp add: pb'_def)
qed

lemma finalize_ok:
  assumes "pb_inv pb"
  obtains pb' where "finalize b pb = Inr (pb_iovecs pb, pb')" and "pb_inv pb'"
    and "pb_messages pb' = pb_messages pb" and "pb_sequence pb' = pb_sequence pb"
    and "session pb' = session pb" and "pb_MTU pb' = pb_MTU pb"
    and "pb_min_message_size pb' = pb_min_message_size pb" and "pb_bytes_remaining pb' = pb_bytes_remaining pb"
    and "packet_bytes pb' (pb_iovecs pb) = mold_packet (session pb) (pb_sequence pb) (pb_messages pb)"
proof -
  define h where "h = overwrite (pb_header_buffer pb) 18 (be_bytes 2 (unat (message_count pb)))"
  define pb' where "pb' = pb\<lparr>pb_header_buffer := h\<rparr>"
  note inv = pb_invD [OF assms]
  have len: "length h = 20" using inv(1) by (simp add: h_def)
  have pb': "pb_inv pb'" "pb_messages pb' = pb_messages pb"
    using inv len by (auto intro!: pb_invI simp: pb'_def)
  have count: "message_count pb = word_of_nat (length (pb_messages pb))"
    using inv(5) by (simp add: message_count_def)
  have keep: "session pb' = session pb" "pb_sequence pb' = pb_sequence pb"
    using inv(1) by (simp_all add: session_def pb_sequence_def segment_overwrite_before pb'_def h_def)
  have "be_bytes 8 (unat (pb_sequence pb)) = segment (pb_header_buffer pb) 10 8"
    using be_val_less [of "segment (pb_header_buffer pb) 10 8"]
      be_bytes_be_val [of 8 "segment (pb_header_buffer pb) 10 8"] inv(1)
    by (simp add: pb_sequence_def unat_of_nat)
  then have "h = header_of (session pb) (pb_sequence pb) (message_count pb)"
    using inv(1) len by (intro header_ofI)
      (simp_all add: h_def session_def segment_overwrite_before segment_overwrite_same)
  then have "packet_bytes pb' (pb_iovecs pb) = mold_packet (session pb) (pb_sequence pb) (pb_messages pb)"
    using inv(5) len
    by (simp add: packet_bytes_def mold_packet_def iov_bytes_header count comp_def pb'_def)
  moreover have "finalize b pb = Inr (pb_iovecs pb, pb')"
    using inv(1) by (simp add: finalize_def write_at_be_eq Let_def pb'_def h_def)
  ultimately show ?thesis using that pb' keep by (simp add: pb'_def)
qed

subsection \<open>How many messages a packet takes\<close>

text \<open>\<open>fit room ms\<close> is the longest prefix of \<open>ms\<close> whose messages fit one after the other.\<close>

fun fit :: "nat \<Rightarrow> bytes list \<Rightarrow> bytes list" where
  "fit room [] = []"
| "fit room (m # ms) = (if length m \<le> room then m # fit (room - length m) ms else [])"

lemma fit_size: "length (concat (fit room ms)) \<le> room"
  by (induction room ms rule: fit.induct) auto

lemma fit_prefix: "fit room ms = take (length (fit room ms)) ms"
  by (induction room ms rule: fit.induct) auto

lemma fit_length_le: "length (fit room ms) \<le> length ms"
  by (induction room ms rule: fit.induct) auto

lemma fit_all: "length (concat ms) \<le> room \<Longrightarrow> fit room ms = ms"
  by (induction room ms rule: fit.induct) auto

lemma fit_maximal:
  "length (fit room ms) < length ms \<Longrightarrow>
   room < length (concat (fit room ms)) + length (ms ! length (fit room ms))"
  by (induction room ms rule: fit.induct) auto

lemma fit_nonempty: "ms \<noteq> [] \<Longrightarrow> length (hd ms) \<le> room \<Longrightarrow> fit room ms \<noteq> []"
  by (cases ms) auto

lemma set_fit: "set (fit room ms) \<subseteq> set ms"
  by (induction room ms rule: fit.induct) auto

lemma length_concat_ge: "\<forall>m \<in> set ms. k \<le> length m \<Longrightarrow> k * length ms \<le> length (concat ms)"
  by (induction ms) auto

text \<open>\<open>fill\<close> offers messages to a builder until one is refused: the loop of both feeds.\<close>

fun fill :: "('p \<Rightarrow> bytes \<Rightarrow> (bool \<times> 'p) res) \<Rightarrow> 'p \<Rightarrow> bytes list \<Rightarrow> 'p res" where
  "fill add p [] = Inr p"
| "fill add p (m # ms) = andThen (add p m) (\<lambda>(ok, p'). if ok then fill add p' ms else Inr p')"

subsection \<open>Interface: assembling a packet\<close>

locale packet_assembler =
  fixes start :: "'p \<Rightarrow> u64 \<Rightarrow> 'p res"
    and add :: "'p \<Rightarrow> bytes \<Rightarrow> (bool \<times> 'p) res"
    and wire :: "'p \<Rightarrow> (bytes \<times> 'p) res"
    and inv :: "'p \<Rightarrow> bool"
    and msgs :: "'p \<Rightarrow> bytes list"
    and seqno :: "'p \<Rightarrow> u64"
    and config :: "'p \<Rightarrow> 'c"
    and sess :: "'c \<Rightarrow> bytes"
    and capacity :: "'c \<Rightarrow> nat"
    and admissible :: "'c \<Rightarrow> bytes \<Rightarrow> bool"
  assumes start_ok: "inv p \<Longrightarrow> \<exists>p'. start p s = Inr p' \<and> inv p' \<and> msgs p' = [] \<and> seqno p' = s \<and> config p' = config p"
    and add_fits: "inv p \<Longrightarrow> m \<noteq> [] \<Longrightarrow> admissible (config p) m \<Longrightarrow>
      length (concat (msgs p)) + length m \<le> capacity (config p) \<Longrightarrow>
      \<exists>p'. add p m = Inr (True, p') \<and> inv p' \<and> msgs p' = msgs p @ [m] \<and> seqno p' = seqno p \<and> config p' = config p"
    and add_full: "inv p \<Longrightarrow> capacity (config p) < length (concat (msgs p)) + length m \<Longrightarrow> add p m = Inr (False, p)"
    and wire_ok: "inv p \<Longrightarrow> \<exists>p'. wire p = Inr (mold_packet (sess (config p)) (seqno p) (msgs p), p') \<and> inv p' \<and>
      msgs p' = msgs p \<and> seqno p' = seqno p \<and> config p' = config p"
    and within: "inv p \<Longrightarrow> length (concat (msgs p)) \<le> capacity (config p)"
begin

lemma fill_ok:
  assumes "inv p" and "\<forall>m \<in> set ms. m \<noteq> [] \<and> admissible (config p) m"
  shows "\<exists>p'. fill add p ms = Inr p' \<and> inv p' \<and> seqno p' = seqno p \<and> config p' = config p \<and>
    msgs p' = msgs p @ fit (capacity (config p) - length (concat (msgs p))) ms"
  using assms
proof (induction ms arbitrary: p)
  case Nil
  then show ?case by simp
next
  case (Cons m ms)
  show ?case
  proof (cases "length (concat (msgs p)) + length m \<le> capacity (config p)")
    case True
    with Cons.prems obtain p' where p': "add p m = Inr (True, p')" "inv p'" "msgs p' = msgs p @ [m]"
      "seqno p' = seqno p" "config p' = config p"
      using add_fits [of p m] by auto
    with Cons.IH [of p'] Cons.prems(2) True show ?thesis by auto
  next
    case False
    with Cons.prems(1) have "add p m = Inr (False, p)" by (simp add: add_full)
    moreover have "\<not> length m \<le> capacity (config p) - length (concat (msgs p))"
      using False within [OF Cons.prems(1)] by simp
    ultimately show ?thesis using Cons.prems(1) by simp
  qed
qed

lemma assemble_ok:
  assumes "inv p" and "\<forall>m \<in> set ms. m \<noteq> [] \<and> admissible (config p) m"
  shows "\<exists>p'. andThen (start p s) (\<lambda>p. andThen (fill add p ms) wire) =
      Inr (mold_packet (sess (config p)) s (fit (capacity (config p)) ms), p') \<and> inv p' \<and> config p' = config p"
proof -
  obtain p1 where p1: "start p s = Inr p1" "inv p1" "msgs p1 = []" "seqno p1 = s" "config p1 = config p"
    using start_ok [OF assms(1)] by blast
  obtain p2 where p2: "fill add p1 ms = Inr p2" "inv p2" "seqno p2 = s" "config p2 = config p"
    "msgs p2 = fit (capacity (config p)) ms"
    using fill_ok [OF p1(2), of ms] assms(2) p1 by auto
  show ?thesis using wire_ok [OF p2(2)] p1 p2 by auto
qed

end

definition packet_wire :: "build \<Rightarrow> packet_builder \<Rightarrow> (bytes \<times> packet_builder) res" where
  "packet_wire b pb = andThen (finalize b pb) (\<lambda>(vs, pb'). Inr (packet_bytes pb' vs, pb'))"

definition pb_config :: "packet_builder \<Rightarrow> bytes \<times> nat \<times> nat" where
  "pb_config pb = (session pb, pb_MTU pb - 20, pb_min_message_size pb)"

definition admits :: "build \<Rightarrow> bytes \<times> nat \<times> nat \<Rightarrow> bytes \<Rightarrow> bool" where
  "admits b c m \<longleftrightarrow> ndebug b \<or> snd (snd c) \<le> length m"

interpretation pb: packet_assembler "reset b" "try_add b" "packet_wire b" pb_inv pb_messages
    pb_sequence pb_config fst "\<lambda>c. fst (snd c)" "admits b" for b
proof (standard, goal_cases)
  case (1 p s)
  then show ?case
    by (rule reset_ok [where b = b and seq = s]) (simp add: pb_config_def)
next
  case (2 p m)
  have room: "length m \<le> pb_bytes_remaining p" "ndebug b \<or> pb_min_message_size p \<le> length m"
    using 2 pb_invD(7) [OF 2(1)] by (auto simp: pb_config_def admits_def)
  show ?case
    by (rule try_add_ok [OF 2(1,2) room]) (simp add: pb_config_def session_def pb_sequence_def)
next
  case (3 p m)
  then show ?case using pb_invD(7) [OF 3(1)] by (auto simp: pb_config_def intro!: try_add_full)
next
  case (4 p)
  then show ?case
    by (rule finalize_ok [where b = b]) (simp add: packet_wire_def pb_config_def)
next
  case (5 p)
  then show ?case using pb_invD(7) [OF 5] by (simp add: pb_config_def)
qed

subsection \<open>Sizes and counts\<close>

lemma pb_message_bytes_le: "pb_inv pb \<Longrightarrow> length (concat (pb_messages pb)) + 20 \<le> pb_MTU pb"
  using pb_invD(7) by fastforce

lemma pb_count_le:
  assumes "pb_inv pb" and "\<forall>m \<in> set (pb_messages pb). k \<le> length m"
  shows "k * length (pb_messages pb) \<le> pb_MTU pb - 20"
  using length_concat_ge [OF assms(2)] pb_message_bytes_le [OF assms(1)] by linarith

lemma session_length: "pb_inv pb \<Longrightarrow> length (session pb) = 10"
  by (simp add: session_def pb_invD(1))

lemma length_mold_packet: "length s = 10 \<Longrightarrow> length (mold_packet s q ms) = 20 + length (concat ms)"
  by (simp add: mold_packet_def)

subsection \<open>Builders in use\<close>

text \<open>The states that a builder can be in: constructed, then any calls of its member functions that return.\<close>

inductive builder_state :: "build \<Rightarrow> packet_builder_config \<Rightarrow> packet_builder \<Rightarrow> bool" for b cfg where
  constructed: "packet_builder_new b cfg = Inr pb \<Longrightarrow> builder_state b cfg pb"
| added: "builder_state b cfg pb \<Longrightarrow> try_add b pb m = Inr (ok, pb') \<Longrightarrow> builder_state b cfg pb'"
| finalized: "builder_state b cfg pb \<Longrightarrow> finalize b pb = Inr (vs, pb') \<Longrightarrow> builder_state b cfg pb'"
| restarted: "builder_state b cfg pb \<Longrightarrow> reset b pb seq = Inr pb' \<Longrightarrow> builder_state b cfg pb'"

inductive_cases builder_stateE: "builder_state b cfg pb"

lemma try_add_keeps:
  assumes "pb_inv pb" and "try_add b pb m = Inr (ok, pb')"
  shows "pb_inv pb'" and "session pb' = session pb" and "pb_MTU pb' = pb_MTU pb"
proof -
  show "pb_inv pb'"
  proof (cases "length m > pb_bytes_remaining pb \<or> m = []")
    case True
    then show ?thesis using assms by (simp add: try_add_full)
  next
    case False
    then have "ndebug b \<or> pb_min_message_size pb \<le> length m"
      using assms(2) by (auto simp: try_add_def check_assert_def split: if_splits)
    then show ?thesis using False assms try_add_ok [of pb m b] by (metis Inr_inject not_le prod.inject)
  qed
  show "session pb' = session pb" "pb_MTU pb' = pb_MTU pb"
    using assms(2) by (auto simp: try_add_def session_def andThen_eq_Inr_iff split: if_splits)
qed

lemma builder_state_inv:
  "builder_state b cfg pb \<Longrightarrow> pb_inv pb \<and> session pb = cfg_session cfg \<and> pb_MTU pb = cfg_MTU cfg"
proof (induction rule: builder_state.induct)
  case (constructed pb)
  then have "20 \<le> cfg_MTU cfg" "length (cfg_session cfg) = 10" "0 < cfg_min_message_size cfg"
    by (auto simp: packet_builder_new_def split: if_splits)
  then show ?case using packet_builder_new_ok [of cfg b] constructed by (metis Inr_inject)
next
  case (added pb m ok pb')
  then show ?case using try_add_keeps by metis
next
  case (finalized pb vs pb')
  then show ?case using finalize_ok [of pb b] by (metis Inr_inject prod.inject)
next
  case (restarted pb seq pb')
  then show ?case using reset_ok [of pb b seq] by (metis Inr_inject)
qed

lemma builder_state_min:
  "builder_state b cfg pb \<Longrightarrow> pb_min_message_size pb = cfg_min_message_size cfg \<and>
    (\<not> ndebug b \<longrightarrow> (\<forall>m \<in> set (pb_messages pb). cfg_min_message_size cfg \<le> length m))"
proof (induction rule: builder_state.induct)
  case (constructed pb)
  then have "20 \<le> cfg_MTU cfg" "length (cfg_session cfg) = 10" "0 < cfg_min_message_size cfg"
    by (auto simp: packet_builder_new_def split: if_splits)
  then show ?case using packet_builder_new_ok [of cfg b] constructed by (metis Inr_inject empty_iff empty_set)
next
  case (added pb m ok pb')
  have inv: "pb_inv pb" using builder_state_inv [OF added.hyps(1)] by blast
  show ?case
  proof (cases "length m > pb_bytes_remaining pb \<or> m = []")
    case True
    then show ?thesis using added by (simp add: try_add_full)
  next
    case False
    then have adm: "ndebug b \<or> pb_min_message_size pb \<le> length m"
      using added.hyps(2) by (auto simp: try_add_def check_assert_def split: if_splits)
    obtain p where "try_add b pb m = Inr (True, p)" "pb_messages p = pb_messages pb @ [m]" "pb_min_message_size p = pb_min_message_size pb"
      using False adm by (rule_tac try_add_ok [OF inv, of m b]) auto
    then show ?thesis using added adm by auto
  qed
next
  case (finalized pb vs pb')
  have inv: "pb_inv pb" using builder_state_inv [OF finalized.hyps(1)] by blast
  show ?case using finalize_ok [OF inv, of b] finalized by (metis Inr_inject prod.inject)
next
  case (restarted pb seq pb')
  have inv: "pb_inv pb" using builder_state_inv [OF restarted.hyps(1)] by blast
  show ?case using reset_ok [OF inv, of b seq] restarted by (metis Inr_inject empty_iff empty_set)
qed

section \<open>Properties\<close>

text \<open>
  C19. \<open>reset\<close>, \<open>try_add\<close> until one is refused, \<open>finalize\<close>: the bytes that go out are the header of the session
  with the given sequence number and the number of messages taken, followed by the longest prefix of the
  messages that fits; the packet is within the MTU, and the first message left out would not have fitted.
\<close>

theorem builder_packet:
  assumes "pb_inv p" and "\<forall>m \<in> set ms. m \<noteq> [] \<and> (ndebug b \<or> pb_min_message_size p \<le> length m)"
  shows "\<exists>p' taken. andThen (reset b p seq) (\<lambda>p. andThen (fill (try_add b) p ms) (packet_wire b)) =
      Inr (header_of (session p) seq (word_of_nat (length taken)) @ concat taken, p') \<and> pb_inv p' \<and>
    taken = take (length taken) ms \<and> 20 + length (concat taken) \<le> pb_MTU p \<and>
    (length taken < length ms \<longrightarrow> pb_MTU p < 20 + length (concat taken) + length (ms ! length taken))"
proof -
  let ?taken = "fit (pb_MTU p - 20) ms"
  have "20 \<le> pb_MTU p" using pb_invD(2) [OF assms(1)] .
  then have sizes: "20 + length (concat ?taken) \<le> pb_MTU p"
    "length ?taken < length ms \<longrightarrow> pb_MTU p < 20 + length (concat ?taken) + length (ms ! length ?taken)"
    using fit_size [of "pb_MTU p - 20" ms] fit_maximal [of "pb_MTU p - 20" ms] by linarith+
  have "\<forall>m \<in> set ms. m \<noteq> [] \<and> admits b (pb_config p) m"
    using assms(2) by (simp add: admits_def pb_config_def)
  then obtain p' where "andThen (reset b p seq) (\<lambda>p. andThen (fill (try_add b) p ms) (packet_wire b)) =
      Inr (header_of (session p) seq (word_of_nat (length ?taken)) @ concat ?taken, p')" "pb_inv p'"
    using pb.assemble_ok [OF assms(1), of ms b seq] by (auto simp: pb_config_def mold_packet_def)
  then show ?thesis using sizes fit_prefix [of "pb_MTU p - 20" ms] by blast
qed

theorem builder_packet_witness:
  "\<exists>p p' taken. packet_builder_new \<lparr>ndebug = False, native = Little, debug_no_network = False, debug_no_sleep = False\<rparr>
      \<lparr>cfg_session = replicate 10 65, cfg_MTU = 25, cfg_min_message_size = 1\<rparr> = Inr p \<and>
    andThen (reset \<lparr>ndebug = False, native = Little, debug_no_network = False, debug_no_sleep = False\<rparr> p 7)
      (\<lambda>p. andThen (fill (try_add \<lparr>ndebug = False, native = Little, debug_no_network = False, debug_no_sleep = False\<rparr>) p [[1, 2, 3], [4, 5, 6]])
        (packet_wire \<lparr>ndebug = False, native = Little, debug_no_network = False, debug_no_sleep = False\<rparr>)) =
      Inr (header_of (session p) 7 (word_of_nat (length taken)) @ concat taken, p') \<and>
    taken = take (length taken) [[1, 2, 3], [4, 5, 6]] \<and> 20 + length (concat taken) \<le> 25"
proof -
  let ?b = "\<lparr>ndebug = False, native = Little, debug_no_network = False, debug_no_sleep = False\<rparr>"
  let ?cfg = "\<lparr>cfg_session = replicate 10 65, cfg_MTU = 25, cfg_min_message_size = 1\<rparr>"
  obtain p where p: "packet_builder_new ?b ?cfg = Inr p" "pb_inv p" "pb_MTU p = 25" "pb_min_message_size p = 1"
    using packet_builder_new_ok [of ?cfg ?b] by auto
  then show ?thesis using builder_packet [of p "[[1, 2, 3], [4, 5, 6]]" ?b 7] by auto
qed

text \<open>
  C35. The constructor accepts a configuration exactly when the MTU holds a header, the session has ten
  bytes and the minimum message size is positive. The first two are the documented
  \<open>std::invalid_argument\<close>; the third is not checked, and a zero divides by zero.
\<close>

theorem builder_constructor:
  "(packet_builder_new b cfg = Inl Invalid_argument \<longleftrightarrow> cfg_MTU cfg < 20 \<or> length (cfg_session cfg) \<noteq> 10) \<and>
   (packet_builder_new b cfg = Inl Division_by_zero \<longleftrightarrow>
      20 \<le> cfg_MTU cfg \<and> length (cfg_session cfg) = 10 \<and> cfg_min_message_size cfg = 0) \<and>
   ((\<exists>pb. packet_builder_new b cfg = Inr pb \<and> pb_inv pb \<and> pb_messages pb = [] \<and> session pb = cfg_session cfg \<and> pb_MTU pb = cfg_MTU cfg) \<longleftrightarrow>
      20 \<le> cfg_MTU cfg \<and> length (cfg_session cfg) = 10 \<and> 0 < cfg_min_message_size cfg)"
proof (cases "20 \<le> cfg_MTU cfg \<and> length (cfg_session cfg) = 10 \<and> 0 < cfg_min_message_size cfg")
  case True
  then obtain pb where "packet_builder_new b cfg = Inr pb" "pb_inv pb" "pb_messages pb = []"
    "session pb = cfg_session cfg" "pb_MTU pb = cfg_MTU cfg"
    using packet_builder_new_ok by blast
  then show ?thesis using True by auto
next
  case False
  then show ?thesis by (auto simp: packet_builder_new_def)
qed

theorem builder_constructor_witness:
  "packet_builder_new \<lparr>ndebug = True, native = Little, debug_no_network = False, debug_no_sleep = False\<rparr>
     \<lparr>cfg_session = replicate 9 0, cfg_MTU = 1200, cfg_min_message_size = 12\<rparr> = Inl Invalid_argument \<and>
   packet_builder_new \<lparr>ndebug = True, native = Little, debug_no_network = False, debug_no_sleep = False\<rparr>
     \<lparr>cfg_session = replicate 10 0, cfg_MTU = 1200, cfg_min_message_size = 0\<rparr> = Inl Division_by_zero"
  by (simp add: builder_constructor)

text \<open>
  C34. In every state of a builder that the constructor and the member functions lead to, the vector reserved by the constructor
  has room for all its \<open>iovec\<close>s, so it is never reallocated, and the 16-bit message count is the number of messages. The
  conditions: every message has the configured minimum size (debug builds assert it, a release build does not check), and for
  the count the MTU is below 65536.
\<close>

theorem builder_reserve:
  assumes "builder_state b cfg pb" and "ndebug b \<longrightarrow> (\<forall>m \<in> set (pb_messages pb). cfg_min_message_size cfg \<le> length m)"
  shows "length (pb_iovecs pb) \<le> pb_iovecs_reserved pb \<and> (cfg_MTU cfg < 65536 \<longrightarrow> unat (message_count pb) = length (pb_messages pb))"
proof -
  note st = builder_state_inv [OF assms(1)] and min = builder_state_min [OF assms(1)]
  have ge: "\<forall>m \<in> set (pb_messages pb). pb_min_message_size pb \<le> length m" using assms(2) min by auto
  note inv = pb_invD [OF conjunct1 [OF st]]
  have "pb_min_message_size pb * length (pb_messages pb) \<le> pb_MTU pb"
    using pb_count_le [OF conjunct1 [OF st] ge] by simp
  then have "length (pb_messages pb) \<le> pb_MTU pb div pb_min_message_size pb"
    using inv(3) by (simp add: less_eq_div_iff_mult_less_eq mult.commute)
  moreover have "length (pb_messages pb) < 65536" if "cfg_MTU cfg < 65536"
    using calculation that st by (metis div_le_dividend le_less_trans)
  moreover have "length (pb_iovecs pb) = 1 + length (pb_messages pb)" by (subst inv(5)) simp
  ultimately show ?thesis using inv(4) by (simp add: message_count_def unat_of_nat)
qed

text \<open>The witness fills a packet whose reserve is exactly used: two messages of 60 bytes with an MTU of 140.\<close>

theorem builder_reserve_witness:
  "\<exists>pb. builder_state \<lparr>ndebug = False, native = Little, debug_no_network = False, debug_no_sleep = False\<rparr>
      \<lparr>cfg_session = replicate 10 65, cfg_MTU = 140, cfg_min_message_size = 60\<rparr> pb \<and> length (pb_iovecs pb) = 3 \<and>
    pb_iovecs_reserved pb = 3 \<and> length (pb_iovecs pb) \<le> pb_iovecs_reserved pb \<and> unat (message_count pb) = 2"
proof -
  let ?b = "\<lparr>ndebug = False, native = Little, debug_no_network = False, debug_no_sleep = False\<rparr>"
  let ?cfg = "\<lparr>cfg_session = replicate 10 65, cfg_MTU = 140, cfg_min_message_size = 60\<rparr>"
  let ?m = "replicate 60 1 :: bytes"
  obtain p where p: "packet_builder_new ?b ?cfg = Inr p" "pb_inv p" "pb_messages p = []" "pb_MTU p = 140" "pb_min_message_size p = 60"
    by (rule packet_builder_new_ok [of ?cfg ?b]) simp_all
  obtain p1 where p1: "try_add ?b p ?m = Inr (True, p1)" "pb_inv p1" "pb_messages p1 = [?m]" "pb_bytes_remaining p1 = 60"
    "pb_min_message_size p1 = 60" "pb_MTU p1 = 140"
    using pb_invD(7) [OF p(2)] p by (rule_tac try_add_ok [OF p(2), of ?m ?b]) simp_all
  obtain p2 where p2: "try_add ?b p1 ?m = Inr (True, p2)" "pb_inv p2" "pb_messages p2 = [?m, ?m]" "pb_MTU p2 = 140"
    "pb_min_message_size p2 = 60"
    using p1 by (rule_tac try_add_ok [OF p1(2), of ?m ?b]) simp_all
  have st: "builder_state ?b ?cfg p2"
    using builder_state.constructed [OF p(1)] p1(1) p2(1) by (blast intro: builder_state.added)
  moreover have "length (pb_iovecs p2) = 3" "pb_iovecs_reserved p2 = 3"
    using pb_invD(4,5) [OF p2(2)] p2 by (metis length_Cons length_map list.size(3) One_nat_def numeral_3_eq_3, simp)
  ultimately show ?thesis using builder_reserve [OF st] p2(3) by auto
qed

text \<open>
  C20. A builder is always well formed: in every state that its constructor and its member functions lead to, whatever messages
  were offered to it, the header buffer has 20 bytes and holds the session, the first \<open>iovec\<close> points at it and the
  others at non-empty messages, the remaining room is what the MTU leaves, and the bytes that would be sent now are at
  most the MTU; and no call on it fails, except for the assertion on too short a message.
\<close>

theorem builder_well_formed:
  assumes "builder_state b cfg pb"
  shows "pb_inv pb \<and> session pb = cfg_session cfg \<and> pb_MTU pb = cfg_MTU cfg \<and>
    length (packet_bytes pb (pb_iovecs pb)) + pb_bytes_remaining pb = cfg_MTU cfg \<and>
    (\<exists>vs pb'. finalize b pb = Inr (vs, pb')) \<and> (\<exists>pb'. reset b pb seq = Inr pb') \<and>
    (try_add b pb m = Inl err \<longrightarrow> err = Assertion_failed \<and> \<not> ndebug b \<and> length m < pb_min_message_size pb)"
proof -
  have inv: "pb_inv pb" and rest: "session pb = cfg_session cfg" "pb_MTU pb = cfg_MTU cfg"
    using builder_state_inv [OF assms] by auto
  note i = pb_invD [OF inv]
  have "iov_bytes pb header_iovec = pb_header_buffer pb" by (rule iov_bytes_header [OF i(1)])
  then have "packet_bytes pb (pb_iovecs pb) = pb_header_buffer pb @ concat (pb_messages pb)"
    unfolding packet_bytes_def by (subst i(5)) (simp add: comp_def)
  then have "length (packet_bytes pb (pb_iovecs pb)) + pb_bytes_remaining pb = cfg_MTU cfg" using i(1,7) rest(2) by simp
  moreover have "\<exists>vs pb'. finalize b pb = Inr (vs, pb')" using finalize_ok [OF inv, of b] by blast
  moreover have "\<exists>pb'. reset b pb seq = Inr pb'" using reset_ok [OF inv, of b seq] by blast
  moreover have "try_add b pb m = Inl err \<longrightarrow> err = Assertion_failed \<and> \<not> ndebug b \<and> length m < pb_min_message_size pb"
    by (auto simp: try_add_def check_assert_def split: if_splits)
  ultimately show ?thesis using inv rest by blast
qed

theorem builder_well_formed_witness:
  "\<exists>pb. builder_state \<lparr>ndebug = False, native = Little, debug_no_network = False, debug_no_sleep = False\<rparr>
      (default_packet_builder_config (replicate 10 65)) pb \<and> pb_messages pb = [replicate 20 1] \<and> pb_inv pb \<and>
    length (packet_bytes pb (pb_iovecs pb)) + pb_bytes_remaining pb = 1472"
proof -
  let ?cfg = "default_packet_builder_config (replicate 10 65)"
  let ?b = "\<lparr>ndebug = False, native = Little, debug_no_network = False, debug_no_sleep = False\<rparr>"
  obtain pb where pb: "packet_builder_new ?b ?cfg = Inr pb" "pb_inv pb" "pb_messages pb = []" "pb_MTU pb = 1472" "pb_min_message_size pb = 14"
    by (rule packet_builder_new_ok [of ?cfg ?b]) (simp_all add: default_packet_builder_config_def default_min_message_size_def)
  obtain pb' where "try_add ?b pb (replicate 20 1) = Inr (True, pb')" "pb_messages pb' = [replicate 20 1]"
    using pb_invD(7) [OF pb(2)] pb(3-5) by (rule_tac try_add_ok [OF pb(2), of "replicate 20 1" ?b]) simp_all
  then have "builder_state ?b ?cfg pb'" "pb_messages pb' = [replicate 20 1]"
    using builder_state.added [OF builder_state.constructed [OF pb(1)]] by blast+
  then show ?thesis using builder_well_formed [of ?b ?cfg pb'] by (auto simp: default_packet_builder_config_def)
qed

end
