(* ===== verification/Environment.thy ===== *)
theory Environment
  imports Prelude
begin

text \<open>
  What the program asks of its environment while it runs: whether a stop was requested
  (\<open>std::stop_token\<close>), what a clock reads, and what a send returns. The answers are functions of a
  tick, a counter that every question advances, so that one \<open>env\<close> fixes one execution and the model
  stays executable. Nothing is assumed about the answers here; a theorem that needs a property of
  them (a clock that does not run backwards, a stop that is requested at some time) names it.

  \<open>out_event\<close> is what the program does to the outside: a datagram handed to \<open>sendmsg\<close> or \<open>sendto\<close>
  with the value the call returned, an error reported through \<open>util::log\<close> (the levels above
  \<open>error\<close> are compiled out by default and not modelled), and a pause of
  \<open>std::this_thread::sleep_for\<close>.
\<close>

record env =
  stop_requested_at :: "nat \<Rightarrow> bool"
  now_at :: "nat \<Rightarrow> int"
  send_result_at :: "nat \<Rightarrow> int"

record sockaddr_in =
  sin_family :: int
  sin_port :: u16
  sin_addr :: u32

datatype out_event =
    Send sockaddr_in bytes int
  | Logged_error
  | Slept int

definition datagrams :: "out_event list \<Rightarrow> bytes list" where
  "datagrams evs = concat (map (\<lambda>ev. case ev of Send a d r \<Rightarrow> [d] | _ \<Rightarrow> []) evs)"

lemma datagrams_simps [simp]:
  "datagrams [] = []"
  "datagrams (Send a d r # evs) = d # datagrams evs"
  "datagrams (Logged_error # evs) = datagrams evs"
  "datagrams (Slept k # evs) = datagrams evs"
  "datagrams (evs @ evs') = datagrams evs @ datagrams evs'"
  by (simp_all add: datagrams_def)

text \<open>Signed 64-bit results: a value that does not fit is undefined behaviour in the code.\<close>

definition fits_i64 :: "int \<Rightarrow> bool" where
  "fits_i64 x \<longleftrightarrow> - (2 ^ 63) \<le> x \<and> x < 2 ^ 63"

definition checked_i64 :: "int \<Rightarrow> int res" where
  "checked_i64 x = (if fits_i64 x then Inr x else Inl Not_representable)"

lemma checked_i64_ok [simp]: "fits_i64 x \<Longrightarrow> checked_i64 x = Inr x"
  by (simp add: checked_i64_def)

end
