(* ===== verification/Heartbeat.thy ===== *)
theory Heartbeat
  imports Packet_Builder Environment
begin

text \<open>
  \<open>src/include/imr/mold/downstream/heartbeat.h\<close>, \<open>src/src/mold/downstream/heartbeat.cpp\<close>: a packet buffer
  with the session and a message count of 0, into which every send writes the next sequence number.
  \<open>hb_running\<close> is whether the thread exists and has not been asked to stop; the object reads the
  sequence number through a pointer to the feed's atomic, so it is an argument of \<open>heartbeat_send\<close>.
  \<open>heartbeat_iteration\<close> is one turn of the thread's loop.
\<close>

record heartbeat =
  hb_packet :: bytes
  hb_period :: int
  hb_mcast_group :: sockaddr_in
  hb_running :: bool

definition heartbeat_new :: "build \<Rightarrow> int \<Rightarrow> sockaddr_in \<Rightarrow> bytes \<Rightarrow> heartbeat res" where
  "heartbeat_new b period mcast_group sess =
     andThen (write_at_range b (replicate header_length 0) session_offset sess) (\<lambda>packet1.
     andThen (write_at_be b packet1 message_count_offset heartbeat_msg_count) (\<lambda>packet2.
     Inr \<lparr>hb_packet = packet2, hb_period = period, hb_mcast_group = mcast_group, hb_running = False\<rparr>))"

definition heartbeat_send :: "build \<Rightarrow> env \<Rightarrow> nat \<Rightarrow> heartbeat \<Rightarrow> u64 \<Rightarrow> (heartbeat \<times> out_event list \<times> nat) res" where
  "heartbeat_send b e t hb next_seq =
     andThen (write_at_be b (hb_packet hb) sequence_number_offset next_seq) (\<lambda>packet.
     let hb' = hb\<lparr>hb_packet := packet\<rparr>; r = send_result_at e t in
     Inr (hb', Send (hb_mcast_group hb) packet r # (if r < 0 then [Logged_error] else []), Suc t))"

definition heartbeat_start :: "heartbeat \<Rightarrow> heartbeat" where
  "heartbeat_start hb = hb\<lparr>hb_running := True\<rparr>"

definition heartbeat_stop :: "heartbeat \<Rightarrow> heartbeat" where
  "heartbeat_stop hb = hb\<lparr>hb_running := False\<rparr>"

definition heartbeat_period :: "heartbeat \<Rightarrow> int" where
  "heartbeat_period hb = hb_period hb"

definition heartbeat_iteration :: "build \<Rightarrow> env \<Rightarrow> nat \<Rightarrow> heartbeat \<Rightarrow> u64 \<Rightarrow> (bool \<times> heartbeat \<times> out_event list \<times> nat) res" where
  "heartbeat_iteration b e t hb next_seq =
     (if \<not> hb_running hb then Inr (False, hb, [], t)
      else andThen (heartbeat_send b e t hb next_seq) (\<lambda>(hb', evs, t').
        Inr (True, hb', evs @ [Slept (hb_period hb)], t')))"

definition heartbeat_packet :: "bytes \<Rightarrow> u64 \<Rightarrow> bytes" where
  "heartbeat_packet sess seq = header_of sess seq heartbeat_msg_count"

definition hb_inv :: "bytes \<Rightarrow> heartbeat \<Rightarrow> bool" where
  "hb_inv sess hb \<longleftrightarrow>
     length sess = 10 \<and> length (hb_packet hb) = 20 \<and> segment (hb_packet hb) 0 10 = sess \<and>
     segment (hb_packet hb) 18 2 = be_bytes 2 (unat heartbeat_msg_count)"

lemma heartbeat_new_ok:
  assumes "length sess = 10"
  obtains hb where "heartbeat_new b period addr sess = Inr hb" and "hb_inv sess hb"
    and "hb_period hb = period" and "hb_mcast_group hb = addr" and "\<not> hb_running hb"
  using assms
  by (auto simp: heartbeat_new_def write_at_range_eq write_at_be_eq hb_inv_def
      segment_overwrite_before segment_overwrite_same)

lemma heartbeat_write:
  assumes "hb_inv sess hb"
  shows "write_at_be b (hb_packet hb) sequence_number_offset seq = Inr (heartbeat_packet sess seq)"
    and "hb_inv sess (hb\<lparr>hb_packet := heartbeat_packet sess seq\<rparr>)"
proof -
  define packet where "packet = overwrite (hb_packet hb) 10 (be_bytes 8 (unat seq))"
  have inv: "length sess = 10" "length (hb_packet hb) = 20" "segment (hb_packet hb) 0 10 = sess"
    "segment (hb_packet hb) 18 2 = be_bytes 2 (unat heartbeat_msg_count)"
    using assms by (auto simp: hb_inv_def)
  have parts: "length packet = 20" "segment packet 0 10 = sess"
    "segment packet 10 8 = be_bytes 8 (unat seq)" "segment packet 18 2 = be_bytes 2 (unat heartbeat_msg_count)"
    using inv by (simp_all add: packet_def segment_overwrite_before segment_overwrite_after segment_overwrite_same)
  then have packet: "packet = heartbeat_packet sess seq"
    unfolding heartbeat_packet_def by (rule header_ofI)
  show "write_at_be b (hb_packet hb) sequence_number_offset seq = Inr (heartbeat_packet sess seq)"
    using inv by (simp add: write_at_be_eq flip: packet) (simp add: packet_def)
  show "hb_inv sess (hb\<lparr>hb_packet := heartbeat_packet sess seq\<rparr>)"
    using parts inv(1) by (simp add: hb_inv_def flip: packet)
qed

lemma heartbeat_send_ok:
  assumes "hb_inv sess hb"
  obtains hb' where "heartbeat_send b e t hb seq =
      Inr (hb', Send (hb_mcast_group hb) (heartbeat_packet sess seq) (send_result_at e t) #
                  (if send_result_at e t < 0 then [Logged_error] else []), Suc t)"
    and "hb_inv sess hb'" and "hb_period hb' = hb_period hb" and "hb_mcast_group hb' = hb_mcast_group hb"
    and "hb_running hb' = hb_running hb"
  using that heartbeat_write [OF assms, where seq = seq] by (simp add: heartbeat_send_def Let_def)

end
