(* ===== verification/Retransmission_Buffer.thy ===== *)
theory Retransmission_Buffer
  imports Prelude
begin

unbundle bit_operations_syntax

text \<open>
  \<open>src/include/imr/mold/retransmission_buffer.h\<close>, \<open>src/src/mold/retransmission_buffer.cpp\<close>: a ring of the
  file positions of the last \<open>buffer_size\<close> messages, indexed by sequence number, with a bit mask
  instead of a division when the size is a power of two. Sequence numbers are 64-bit words, so the
  wrap-around of \<open>seq_num + buffer_.size()\<close> is part of the model.

  \<open>rb_rep rb ps\<close> says that \<open>rb\<close> holds a history: \<open>ps\<close> lists the positions pushed under the sequence
  numbers 1, 2, \<dots>. The lemmas show that \<open>push\<close> extends the history and that \<open>file_position_for\<close>
  answers from it on every input, the number 0 (which the code does not treat as absent) and the
  numbers near \<open>2^64\<close> included. The operations are sequential here; the theory
  \<open>Buffer_Concurrency\<close> splits them into the accesses of two threads.
\<close>

record message_record =
  rec_sequence_number :: u64
  rec_file_position :: nat

record retransmission_buffer =
  rb_buffer :: "message_record list"
  rb_mask :: u64
  rb_use_mask :: bool
  rb_write_seq :: u64

definition empty_record :: message_record where
  "empty_record = \<lparr>rec_sequence_number = 0, rec_file_position = 0\<rparr>"

definition retransmission_buffer_new :: "u64 \<Rightarrow> retransmission_buffer res" where
  "retransmission_buffer_new buffer_size =
     (let mask = buffer_size - 1;
          use_mask = (buffer_size \<noteq> 0 \<and> buffer_size AND mask = 0)
      in if buffer_size = 0 then Inl Invalid_argument
         else Inr \<lparr>rb_buffer = replicate (unat buffer_size) empty_record,
                   rb_mask = mask, rb_use_mask = use_mask, rb_write_seq = 0\<rparr>)"

definition index_for :: "retransmission_buffer \<Rightarrow> u64 \<Rightarrow> nat" where
  "index_for rb seq_num =
     (if rb_use_mask rb then unat (seq_num AND rb_mask rb)
      else unat (seq_num mod word_of_nat (length (rb_buffer rb))))"

definition push :: "retransmission_buffer \<Rightarrow> message_record \<Rightarrow> retransmission_buffer res" where
  "push rb r =
     (let i = index_for rb (rec_sequence_number r) in
      if i < length (rb_buffer rb)
      then Inr (rb\<lparr>rb_buffer := (rb_buffer rb)[i := r], rb_write_seq := rec_sequence_number r\<rparr>)
      else Inl Out_of_bounds)"

definition file_position_for :: "retransmission_buffer \<Rightarrow> u64 \<Rightarrow> nat option res" where
  "file_position_for rb seq_num =
     (let current_seq_num = rb_write_seq rb;
          overwritten = (seq_num + word_of_nat (length (rb_buffer rb)) \<le> current_seq_num);
          not_yet_sent = (seq_num > current_seq_num);
          buffer_empty = (current_seq_num = 0)
      in if overwritten \<or> not_yet_sent \<or> buffer_empty then Inr None
         else let i = index_for rb seq_num in
           if i < length (rb_buffer rb) then
             (let entry = rb_buffer rb ! i in
              if rec_sequence_number entry \<noteq> seq_num then Inr None
              else Inr (Some (rec_file_position entry)))
           else Inl Out_of_bounds)"

definition rb_size :: "retransmission_buffer \<Rightarrow> nat" where
  "rb_size rb = length (rb_buffer rb)"

definition rb_inv :: "retransmission_buffer \<Rightarrow> bool" where
  "rb_inv rb \<longleftrightarrow>
     0 < rb_size rb \<and> rb_size rb < 2 ^ 64 \<and>
     rb_mask rb = word_of_nat (rb_size rb) - 1 \<and>
     rb_use_mask rb = (word_of_nat (rb_size rb) AND rb_mask rb = 0)"

subsection \<open>The mask is a modulus\<close>

lemma and_pred_zero_power_of_two:
  fixes n :: nat
  assumes "0 < n" and "n AND (n - 1) = 0"
  shows "\<exists>k. n = 2 ^ k"
  using assms
proof (induction n rule: less_induct)
  case (less n)
  show ?case
  proof (cases "even n")
    case True
    then obtain m where m: "n = 2 * m" by (elim evenE)
    with less.prems have "0 < m" by simp
    then have "n - 1 = 2 * (m - 1) + 1" using m by simp
    then have "n AND (n - 1) = 2 * (m AND (m - 1))"
      using m by (simp add: and_rec [of n] and_rec [of "2 * m"])
    with less.prems have "m AND (m - 1) = 0" by simp
    with less.IH [of m] m \<open>0 < m\<close> obtain k where "m = 2 ^ k" by auto
    with m have "n = 2 ^ Suc k" by simp
    then show ?thesis by blast
  next
    case False
    then obtain m where m: "n = 2 * m + 1" by (elim oddE)
    then have "n AND (n - 1) = 2 * m"
      by (simp add: and_rec [of n] and_rec [of "Suc (2 * m)"])
    with less.prems have "m = 0" by simp
    with m have "n = 2 ^ 0" by simp
    then show ?thesis by blast
  qed
qed

lemma unat_word_of_nat_less: "n < 2 ^ 64 \<Longrightarrow> unat (word_of_nat n :: u64) = n"
  by (simp add: unat_of_nat)

lemma unat_pred: "0 < n \<Longrightarrow> n < 2 ^ 64 \<Longrightarrow> unat (word_of_nat n - 1 :: u64) = n - 1"
proof -
  assume n: "0 < n" "n < 2 ^ 64"
  then have "word_of_nat n - 1 = (word_of_nat (n - 1) :: u64)" by (simp add: of_nat_diff)
  then show ?thesis using n unat_word_of_nat_less [of "n - 1"] by simp
qed

lemma index_for_mod:
  assumes "rb_inv rb"
  shows "index_for rb seq = unat seq mod rb_size rb"
proof (cases "rb_use_mask rb")
  case False
  with assms show ?thesis
    by (simp add: index_for_def rb_inv_def rb_size_def unat_mod unat_word_of_nat_less)
next
  case True
  let ?n = "rb_size rb"
  have n: "0 < ?n" "?n < 2 ^ 64" and mask: "rb_mask rb = word_of_nat ?n - 1"
    using assms by (auto simp: rb_inv_def)
  have "unat (word_of_nat ?n AND (word_of_nat ?n - 1) :: u64) = ?n AND (?n - 1)"
    using n by (simp add: unsigned_and_eq unat_word_of_nat_less unat_pred)
  moreover have "word_of_nat ?n AND (word_of_nat ?n - 1 :: u64) = 0"
    using assms True mask by (simp add: rb_inv_def)
  ultimately have "?n AND (?n - 1) = 0" by simp
  then obtain k where k: "?n = 2 ^ k" using and_pred_zero_power_of_two n(1) by blast
  have "unat (seq AND rb_mask rb) = unat seq AND (?n - 1)"
    using n by (simp only: mask unsigned_and_eq unat_pred)
  also have "\<dots> = unat seq mod 2 ^ k"
    by (simp only: k mask_eq_exp_minus_1 [symmetric] take_bit_eq_mask [symmetric] take_bit_eq_mod)
  finally show ?thesis using True k by (simp add: index_for_def)
qed

lemma index_for_less: "rb_inv rb \<Longrightarrow> index_for rb seq < rb_size rb"
  by (simp add: index_for_mod rb_inv_def)

subsection \<open>The history a buffer holds\<close>

definition rb_rep :: "retransmission_buffer \<Rightarrow> nat list \<Rightarrow> bool" where
  "rb_rep rb ps \<longleftrightarrow>
     rb_inv rb \<and> length ps + rb_size rb < 2 ^ 64 \<and> rb_write_seq rb = word_of_nat (length ps) \<and>
     (\<forall>s. 1 \<le> s \<and> s \<le> length ps \<and> length ps < s + rb_size rb \<longrightarrow>
        rb_buffer rb ! (s mod rb_size rb) =
          \<lparr>rec_sequence_number = word_of_nat s, rec_file_position = ps ! (s - 1)\<rparr>) \<and>
     (\<forall>i < rb_size rb. length ps < rb_size rb \<and> (i = 0 \<or> length ps < i) \<longrightarrow>
        rb_buffer rb ! i = empty_record)"

lemma rb_repD:
  assumes "rb_rep rb ps"
  shows "rb_inv rb" and "length ps + rb_size rb < 2 ^ 64" and "rb_write_seq rb = word_of_nat (length ps)"
    and "1 \<le> s \<Longrightarrow> s \<le> length ps \<Longrightarrow> length ps < s + rb_size rb \<Longrightarrow>
      rb_buffer rb ! (s mod rb_size rb) =
        \<lparr>rec_sequence_number = word_of_nat s, rec_file_position = ps ! (s - 1)\<rparr>"
    and "i < rb_size rb \<Longrightarrow> length ps < rb_size rb \<Longrightarrow> i = 0 \<or> length ps < i \<Longrightarrow>
      rb_buffer rb ! i = empty_record"
  using assms unfolding rb_rep_def by blast+

text \<open>The answer the ring promises for a history: the positions of the last \<open>n\<close> messages.\<close>

definition window_lookup :: "nat \<Rightarrow> nat list \<Rightarrow> nat \<Rightarrow> nat option" where
  "window_lookup n ps s =
     (if 1 \<le> s \<and> s \<le> length ps \<and> length ps < s + n then Some (ps ! (s - 1)) else None)"

lemma retransmission_buffer_new_rep:
  assumes "0 < buffer_size"
  obtains rb where "retransmission_buffer_new buffer_size = Inr rb" and "rb_rep rb []"
    and "rb_size rb = unat buffer_size"
proof -
  obtain rb where rb: "retransmission_buffer_new buffer_size = Inr rb"
    "rb = \<lparr>rb_buffer = replicate (unat buffer_size) empty_record, rb_mask = buffer_size - 1,
      rb_use_mask = (buffer_size AND (buffer_size - 1) = 0), rb_write_seq = 0\<rparr>"
    using assms by (simp add: retransmission_buffer_new_def Let_def)
  have "unat buffer_size < 2 ^ 64" using unsigned_less [of buffer_size, where 'a = nat] by simp
  with assms have "rb_inv rb"
    by (simp add: rb rb_inv_def rb_size_def unat_gt_0 word_gt_0)
  with \<open>unat buffer_size < 2 ^ 64\<close> show ?thesis
    using that rb by (simp add: rb_rep_def rb_size_def)
qed

lemma window_distinct_slots:
  fixes s n cap :: nat
  assumes "s \<le> n" and "Suc n < s + cap"
  shows "s mod cap \<noteq> Suc n mod cap"
proof
  assume "s mod cap = Suc n mod cap"
  then have "cap dvd Suc n - s" using assms mod_eq_dvd_iff_nat [of s "Suc n" cap] by simp
  moreover have "0 < Suc n - s" "Suc n - s < cap" using assms by auto
  ultimately show False using nat_dvd_not_less by blast
qed

lemma push_rep:
  assumes "rb_rep rb ps" and "Suc (length ps) + rb_size rb < 2 ^ 64"
  obtains rb' where
    "push rb \<lparr>rec_sequence_number = word_of_nat (Suc (length ps)), rec_file_position = p\<rparr> = Inr rb'"
    and "rb_rep rb' (ps @ [p])" and "rb_size rb' = rb_size rb"
proof -
  define n where "n = length ps"
  define r where "r = \<lparr>rec_sequence_number = word_of_nat (Suc n) :: u64, rec_file_position = p\<rparr>"
  define rb' where "rb' = rb\<lparr>rb_buffer := (rb_buffer rb)[Suc n mod rb_size rb := r], rb_write_seq := word_of_nat (Suc n)\<rparr>"
  have inv: "rb_inv rb" and pos: "0 < rb_size rb" using assms(1) by (auto simp: rb_rep_def rb_inv_def)
  have idx: "index_for rb (word_of_nat (Suc n)) = Suc n mod rb_size rb"
    using index_for_mod [OF inv] unat_word_of_nat_less [of "Suc n"] assms(2) by (simp add: n_def)
  have slot: "Suc n mod rb_size rb < length (rb_buffer rb)" using pos by (simp add: rb_size_def)
  have push: "push rb r = Inr rb'"
    using idx slot by (simp add: push_def rb'_def r_def)
  have size: "rb_size rb' = rb_size rb" by (simp add: rb'_def rb_size_def)
  have inv': "rb_inv rb'" using inv size by (simp add: rb_inv_def rb'_def)
  have live: "rb_buffer rb' ! (s mod rb_size rb) =
      \<lparr>rec_sequence_number = word_of_nat s, rec_file_position = (ps @ [p]) ! (s - 1)\<rparr>"
    if s: "1 \<le> s" "s \<le> Suc n" "Suc n < s + rb_size rb" for s
  proof (cases "s = Suc n")
    case True
    then show ?thesis using slot by (simp add: rb'_def r_def n_def)
  next
    case False
    with s have "s mod rb_size rb \<noteq> Suc n mod rb_size rb" by (intro window_distinct_slots) auto
    moreover have "rb_buffer rb ! (s mod rb_size rb) =
        \<lparr>rec_sequence_number = word_of_nat s, rec_file_position = ps ! (s - 1)\<rparr>"
      using False s by (intro rb_repD(4) [OF assms(1)]) (auto simp: n_def)
    moreover have "s - 1 < length ps" using False s by (simp add: n_def)
    ultimately show ?thesis by (simp add: rb'_def nth_append)
  qed
  have default: "rb_buffer rb' ! i = empty_record"
    if "i < rb_size rb" "Suc n < rb_size rb" "i = 0 \<or> Suc n < i" for i
  proof -
    have "i \<noteq> Suc n mod rb_size rb" using that by auto
    moreover have "rb_buffer rb ! i = empty_record"
      using that by (intro rb_repD(5) [OF assms(1)]) (auto simp: n_def)
    ultimately show ?thesis by (simp add: rb'_def)
  qed
  have "rb_rep rb' (ps @ [p])"
    unfolding rb_rep_def size using inv' assms(2) live default by (simp add: n_def rb'_def)
  then show ?thesis using that push size by (simp add: r_def n_def)
qed

text \<open>The slot that a number inside the window selects; number 0 was never pushed.\<close>

lemma rb_slot:
  assumes "rb_rep rb ps" and "unat seq \<le> length ps" and "length ps < unat seq + rb_size rb"
  shows "rb_buffer rb ! (unat seq mod rb_size rb) = (if seq = 0 then empty_record
    else \<lparr>rec_sequence_number = seq, rec_file_position = ps ! (unat seq - 1)\<rparr>)"
proof (cases "seq = 0")
  case True
  then show ?thesis using assms(3) rb_repD(5) [OF assms(1), of 0] by simp
next
  case False
  then have "1 \<le> unat seq" by (simp add: Suc_le_eq unat_gt_0)
  then show ?thesis using False assms(2,3) rb_repD(4) [OF assms(1), of "unat seq"] by simp
qed

lemma file_position_for_rep:
  assumes "rb_rep rb ps"
  shows "file_position_for rb seq =
    Inr (if seq = 0 then (if ps \<noteq> [] \<and> length ps < rb_size rb then Some 0 else None)
         else window_lookup (rb_size rb) ps (unat seq))"
proof -
  let ?n = "length ps" and ?size = "rb_size rb" and ?s = "unat seq"
  note inv = rb_repD(1) [OF assms] and n = rb_repD(2) [OF assms] and w = rb_repD(3) [OF assms]
  have pos: "0 < ?size" using inv by (simp add: rb_inv_def)
  have un: "unat (word_of_nat ?n :: u64) = ?n" "unat (word_of_nat ?size :: u64) = ?size"
    using n by (auto intro!: unat_word_of_nat_less)
  have fut: "seq > word_of_nat ?n \<longleftrightarrow> ?n < ?s" by (simp only: word_less_nat_alt un)
  have empty: "(word_of_nat ?n :: u64) = 0 \<longleftrightarrow> ps = []"
    by (simp only: word_unat_eq_iff un unat_0 length_0_conv)
  have over: "seq + word_of_nat ?size \<le> word_of_nat ?n \<longleftrightarrow> ?s + ?size \<le> ?n" if "?s \<le> ?n"
  proof -
    have "unat (seq + word_of_nat ?size) = ?s + ?size"
      using that n un(2) by (simp add: unat_word_ariths)
    then show ?thesis by (simp only: word_le_nat_alt un)
  qed
  have idx: "index_for rb seq = ?s mod ?size" "?s mod ?size < length (rb_buffer rb)"
    using index_for_mod [OF inv] pos by (simp_all add: rb_size_def)
  show ?thesis
  proof (cases "?n < ?s \<or> ps = [] \<or> ?s + ?size \<le> ?n")
    case True
    then have "file_position_for rb seq = Inr None"
      using fut empty over unfolding file_position_for_def w Let_def rb_size_def by (metis linorder_not_le)
    with True show ?thesis by (auto simp: window_lookup_def)
  next
    case False
    then have "file_position_for rb seq =
        (let entry = rb_buffer rb ! (?s mod ?size) in
         if rec_sequence_number entry \<noteq> seq then Inr None else Inr (Some (rec_file_position entry)))"
      using fut empty over idx unfolding file_position_for_def w Let_def rb_size_def by simp
    then show ?thesis
      using rb_slot [OF assms, of seq] False by (auto simp: window_lookup_def empty_record_def Let_def Suc_le_eq unat_gt_0)
  qed
qed

subsection \<open>Interface: positions by sequence number\<close>

text \<open>What the feeds need of the store: recording the next message extends the history, and looking
  a number up answers from the last \<open>cap\<close> entries of it.\<close>

locale position_store =
  fixes record_position :: "'s \<Rightarrow> u64 \<Rightarrow> nat \<Rightarrow> 's res"
    and position_for :: "'s \<Rightarrow> u64 \<Rightarrow> nat option res"
    and holds :: "'s \<Rightarrow> nat list \<Rightarrow> bool"
    and cap :: "'s \<Rightarrow> nat"
  assumes record_ok: "holds st ps \<Longrightarrow> Suc (length ps) + cap st < 2 ^ 64 \<Longrightarrow>
      \<exists>st'. record_position st (word_of_nat (Suc (length ps))) p = Inr st' \<and> holds st' (ps @ [p]) \<and> cap st' = cap st"
    and lookup_ok: "holds st ps \<Longrightarrow> seq \<noteq> 0 \<Longrightarrow>
      position_for st seq = Inr (window_lookup (cap st) ps (unat seq))"
begin

fun record_all :: "'s \<Rightarrow> nat \<Rightarrow> nat list \<Rightarrow> 's res" where
  "record_all st n [] = Inr st"
| "record_all st n (q # qs) = andThen (record_position st (word_of_nat (Suc n)) q) (\<lambda>st'. record_all st' (Suc n) qs)"

lemma record_all_ok:
  assumes "holds st ps" and "length ps + length qs + cap st < 2 ^ 64"
  shows "\<exists>st'. record_all st (length ps) qs = Inr st' \<and> holds st' (ps @ qs) \<and> cap st' = cap st"
  using assms
proof (induction qs arbitrary: st ps)
  case Nil
  then show ?case by simp
next
  case (Cons q qs)
  then obtain st' where st': "record_position st (word_of_nat (Suc (length ps))) q = Inr st'"
    "holds st' (ps @ [q])" "cap st' = cap st"
    using record_ok [of st ps q] by auto
  then show ?case using Cons.IH [of st' "ps @ [q]"] Cons.prems(2) by auto
qed

lemma recorded_is_found:
  assumes "holds st ps" and "1 \<le> s" and "s \<le> length ps" and "length ps < s + cap st" and "s < 2 ^ 64"
  shows "position_for st (word_of_nat s) = Inr (Some (ps ! (s - 1)))"
proof -
  have "unat (word_of_nat s :: u64) = s" using assms(5) by (rule unat_word_of_nat_less)
  moreover from this have "(word_of_nat s :: u64) \<noteq> 0" using assms(2) by auto
  ultimately show ?thesis using lookup_ok [OF assms(1)] assms by (simp add: window_lookup_def)
qed

end

definition push_position :: "retransmission_buffer \<Rightarrow> u64 \<Rightarrow> nat \<Rightarrow> retransmission_buffer res" where
  "push_position rb seq p = push rb \<lparr>rec_sequence_number = seq, rec_file_position = p\<rparr>"

interpretation rb: position_store push_position file_position_for rb_rep rb_size
proof (standard, goal_cases)
  case (1 st ps p)
  obtain rb' where "push st \<lparr>rec_sequence_number = word_of_nat (Suc (length ps)), rec_file_position = p\<rparr> = Inr rb'"
    "rb_rep rb' (ps @ [p])" "rb_size rb' = rb_size st"
    using push_rep [OF 1] .
  then show ?case unfolding push_position_def by blast
next
  case (2 st ps seq)
  then show ?case by (simp add: file_position_for_rep)
qed

subsection \<open>A whole history\<close>

text \<open>\<open>push_all\<close> pushes positions under consecutive numbers, as the downstream feed does.\<close>

fun push_all :: "retransmission_buffer \<Rightarrow> nat \<Rightarrow> nat list \<Rightarrow> retransmission_buffer res" where
  "push_all rb n [] = Inr rb"
| "push_all rb n (q # qs) =
     andThen (push rb \<lparr>rec_sequence_number = word_of_nat (Suc n), rec_file_position = q\<rparr>) (\<lambda>rb'. push_all rb' (Suc n) qs)"

lemma push_all_eq: "push_all rb n qs = rb.record_all rb n qs"
  by (induction rb n qs rule: push_all.induct) (auto simp: push_position_def [symmetric] intro!: andThen_cong)

lemma new_push_all:
  assumes "0 < n" and "length ps + unat n < 2 ^ 64"
  obtains rb rb' where "retransmission_buffer_new n = Inr rb" and "push_all rb 0 ps = Inr rb'"
    and "rb_rep rb' ps" and "rb_size rb' = unat n"
proof -
  obtain rb where rb: "retransmission_buffer_new n = Inr rb" "rb_rep rb []" "rb_size rb = unat n"
    using retransmission_buffer_new_rep [OF assms(1)] by metis
  obtain rb' where "rb.record_all rb 0 ps = Inr rb'" "rb_rep rb' ps" "rb_size rb' = unat n"
    using rb.record_all_ok [OF rb(2), of ps] assms(2) rb(3) by auto
  then show ?thesis using that rb(1) by (simp add: push_all_eq)
qed

section \<open>Properties\<close>

text \<open>
  C11. A ring of \<open>n\<close> slots answers from the last \<open>n\<close> messages: after any number of pushes, the position of
  every message in that window is found, and every other sequence number but 0 is refused, the numbers
  near \<open>2^64\<close>, where \<open>seq_num + buffer_.size()\<close> wraps, included.
\<close>

theorem ring_answers_history:
  assumes "0 < n" and "length ps + unat n < 2 ^ 64"
  shows "\<exists>rb rb'. retransmission_buffer_new n = Inr rb \<and> push_all rb 0 ps = Inr rb' \<and>
    (\<forall>s. 1 \<le> s \<and> s \<le> length ps \<and> length ps < s + unat n \<longrightarrow>
       file_position_for rb' (word_of_nat s) = Inr (Some (ps ! (s - 1)))) \<and>
    (\<forall>seq. seq \<noteq> 0 \<and> (length ps < unat seq \<or> unat seq + unat n \<le> length ps) \<longrightarrow>
       file_position_for rb' seq = Inr None)"
proof -
  obtain rb rb' where rb: "retransmission_buffer_new n = Inr rb" "push_all rb 0 ps = Inr rb'"
    "rb_rep rb' ps" "rb_size rb' = unat n"
    using new_push_all [OF assms] .
  have "file_position_for rb' (word_of_nat s) = Inr (Some (ps ! (s - 1)))"
    if "1 \<le> s \<and> s \<le> length ps \<and> length ps < s + unat n" for s
    using that rb.recorded_is_found [OF rb(3), of s] rb(4) assms(2) by simp
  moreover have "file_position_for rb' seq = Inr None"
    if "seq \<noteq> 0 \<and> (length ps < unat seq \<or> unat seq + unat n \<le> length ps)" for seq
    using that rb.lookup_ok [OF rb(3), of seq] rb(4) by (auto simp: window_lookup_def)
  ultimately show ?thesis using rb(1,2) by blast
qed

theorem ring_answers_history_witness:
  "\<exists>rb rb'. retransmission_buffer_new 2 = Inr rb \<and> push_all rb 0 [10, 20, 30] = Inr rb' \<and>
    file_position_for rb' 3 = Inr (Some 30) \<and> file_position_for rb' 2 = Inr (Some 20) \<and>
    file_position_for rb' 1 = Inr None \<and> file_position_for rb' 0xFFFFFFFFFFFFFFFF = Inr None"
proof -
  have pre: "0 < (2 :: u64)" "length [10 :: nat, 20, 30] + unat (2 :: u64) < 2 ^ 64" by simp_all
  obtain rb rb' where rb: "retransmission_buffer_new 2 = Inr rb" "push_all rb 0 [10, 20, 30] = Inr rb'"
    "\<forall>s. 1 \<le> s \<and> s \<le> length [10 :: nat, 20, 30] \<and> length [10 :: nat, 20, 30] < s + unat (2 :: u64) \<longrightarrow>
      file_position_for rb' (word_of_nat s) = Inr (Some ([10, 20, 30] ! (s - 1)))"
    "\<forall>seq. seq \<noteq> 0 \<and> (length [10 :: nat, 20, 30] < unat seq \<or> unat seq + unat (2 :: u64) \<le> length [10 :: nat, 20, 30]) \<longrightarrow>
      file_position_for rb' seq = Inr None"
    using ring_answers_history [OF pre] by blast
  have "file_position_for rb' 3 = Inr (Some 30)" "file_position_for rb' 2 = Inr (Some 20)" "file_position_for rb' 1 = Inr None"
    "file_position_for rb' 0xFFFFFFFFFFFFFFFF = Inr None"
    using rb(3) [rule_format, of 3] rb(3) [rule_format, of 2] rb(4) [rule_format, of 1] rb(4) [rule_format, of "0xFFFFFFFFFFFFFFFF"]
    by simp_all
  then show ?thesis using rb(1,2) by blast
qed

text \<open>
  The bit mask is the remainder: whatever the size, power of two or not, a sequence number is filed at
  its remainder by the size, so the index is always inside the ring.
\<close>

theorem ring_index:
  assumes "retransmission_buffer_new n = Inr rb"
  shows "index_for rb seq = unat seq mod unat n \<and> index_for rb seq < length (rb_buffer rb)"
proof -
  have "0 < n" using assms by (cases "n = 0") (simp_all add: retransmission_buffer_new_def Let_def word_neq_0_conv)
  then obtain rb' where "retransmission_buffer_new n = Inr rb'" "rb_rep rb' []" "rb_size rb' = unat n"
    using retransmission_buffer_new_rep by blast
  then have "rb_inv rb" "rb_size rb = unat n" using assms rb_repD(1) by auto
  then show ?thesis using index_for_mod [of rb seq] index_for_less [of rb seq] by (simp add: rb_size_def)
qed

theorem ring_index_witness:
  "\<exists>rb. retransmission_buffer_new 8 = Inr rb \<and> rb_use_mask rb \<and> index_for rb 13 = 5"
proof -
  obtain rb where rb: "retransmission_buffer_new 8 = Inr rb" "rb_use_mask rb"
    by (simp add: retransmission_buffer_new_def Let_def)
  then show ?thesis using ring_index [OF rb(1), of 13] by auto
qed

text \<open>
  Number 0 is not a message number, but as long as the ring is not full the slot it maps to still has
  the zero record of the constructor, and the code answers with file position 0.
\<close>

theorem ring_answers_zero:
  assumes "0 < n" and "ps \<noteq> []" and "length ps < unat n" and "length ps + unat n < 2 ^ 64"
  shows "\<exists>rb rb'. retransmission_buffer_new n = Inr rb \<and> push_all rb 0 ps = Inr rb' \<and> file_position_for rb' 0 = Inr (Some 0)"
proof -
  obtain rb rb' where rb: "retransmission_buffer_new n = Inr rb" "push_all rb 0 ps = Inr rb'"
    "rb_rep rb' ps" "rb_size rb' = unat n"
    using new_push_all [OF assms(1,4)] .
  then show ?thesis using file_position_for_rep [OF rb(3), of 0] assms(2,3) by auto
qed

theorem ring_answers_zero_witness:
  "\<exists>rb rb'. retransmission_buffer_new 4 = Inr rb \<and> push_all rb 0 [77] = Inr rb' \<and> file_position_for rb' 0 = Inr (Some 0)"
  using ring_answers_zero [of 4 "[77]"] by simp

end
