(* ===== verification/Double.thy ===== *)
theory Double
  imports Environment Complex_Main "HOL-Library.Log_Nat"
begin

text \<open>
  The IEEE-754 binary64 operations of the pacer: conversion of a 64-bit integer to \<open>double\<close>,
  division, and the cast back to \<open>int64_t\<close>. Finite values are the rationals they denote; a result is
  rounded to the nearest representable value, ties to even (the default rounding mode), with gradual
  underflow at \<open>2^-1074\<close> and overflow to infinity at \<open>2^1024\<close>. The sign of a zero is not kept: it only
  decides the sign of an infinity, and the cast back is undefined for both infinities.
\<close>

datatype double = Finite rat | Infinity bool | NaN

definition floor_log2 :: "rat \<Rightarrow> int" where
  "floor_log2 q =
     (case quotient_of q of (n, d) \<Rightarrow>
        let e = int (floorlog 2 (nat n)) - int (floorlog 2 (nat d))
        in if 2 powi e \<le> q then e else e - 1)"

definition ulp :: "rat \<Rightarrow> rat" where
  "ulp q = 2 powi (max (floor_log2 \<bar>q\<bar> - 52) (- 1074))"

definition round_half_even :: "rat \<Rightarrow> int" where
  "round_half_even x =
     (let f = \<lfloor>x\<rfloor>; r = x - of_int f in
      if r < 1 / 2 then f else if r > 1 / 2 then f + 1 else if even f then f else f + 1)"

definition round_double :: "rat \<Rightarrow> double" where
  "round_double q =
     (if q = 0 then Finite 0
      else let r = of_int (round_half_even (q / ulp q)) * ulp q in
        if \<bar>r\<bar> \<ge> 2 ^ 1024 then Infinity (q < 0) else Finite r)"

definition double_of_int :: "int \<Rightarrow> double" where
  "double_of_int n = round_double (of_int n)"

fun double_div :: "double \<Rightarrow> double \<Rightarrow> double" where
  "double_div (Finite a) (Finite c) =
     (if c = 0 then (if a = 0 then NaN else Infinity (a < 0)) else round_double (a / c))"
| "double_div (Finite a) (Infinity n) = Finite 0"
| "double_div (Infinity n) (Finite c) = Infinity (n \<noteq> (c < 0))"
| "double_div (Infinity n) (Infinity n') = NaN"
| "double_div NaN y = NaN"
| "double_div x NaN = NaN"

definition truncate_rat :: "rat \<Rightarrow> int" where
  "truncate_rat q = (if 0 \<le> q then \<lfloor>q\<rfloor> else \<lceil>q\<rceil>)"

fun int64_of_double :: "double \<Rightarrow> int res" where
  "int64_of_double (Finite q) = checked_i64 (truncate_rat q)"
| "int64_of_double (Infinity n) = Inl Not_representable"
| "int64_of_double NaN = Inl Not_representable"

subsection \<open>The binade of a rational\<close>

lemma powi_mono_two: "a \<le> b \<Longrightarrow> (2::rat) powi a \<le> 2 powi b"
  by (simp add: power_int_increasing)

lemma nat_between_powers:
  assumes "0 < n"
  shows "(2::rat) powi (int (floorlog 2 n) - 1) \<le> of_nat n" and "of_nat n < (2::rat) powi int (floorlog 2 n)"
proof -
  have l: "0 < floorlog 2 n" using assms floorlog_eq_zero_iff [of 2 n] by (cases "floorlog 2 n") auto
  have b: "2 ^ (floorlog 2 n - 1) \<le> n" "n < 2 ^ floorlog 2 n"
    using floorlog_bounds [of n 2] assms by simp_all
  have "(2::rat) powi (int (floorlog 2 n) - 1) = 2 ^ (floorlog 2 n - 1)"
    using l by (simp add: of_nat_diff flip: power_int_of_nat)
  also have "\<dots> \<le> of_nat n" using b(1) by (metis of_nat_le_iff of_nat_numeral of_nat_power)
  finally show "(2::rat) powi (int (floorlog 2 n) - 1) \<le> of_nat n" .
  show "of_nat n < (2::rat) powi int (floorlog 2 n)"
    using b(2) by (metis of_nat_less_iff of_nat_numeral of_nat_power power_int_of_nat)
qed

lemma floor_log2_bounds:
  assumes "0 < q"
  shows "2 powi floor_log2 q \<le> q" and "q < 2 powi (floor_log2 q + 1)"
proof -
  obtain n d where nd: "quotient_of q = (n, d)" by (cases "quotient_of q")
  have d: "0 < d" using quotient_of_denom_pos [OF nd] .
  have q: "q = of_int n / of_int d" using quotient_of_div [OF nd] .
  have n: "0 < n" using assms d by (simp add: q zero_less_divide_iff)
  let ?a = "int (floorlog 2 (nat n))" and ?b = "int (floorlog 2 (nat d))"
  have na: "2 powi (?a - 1) \<le> (of_int n :: rat)" "(of_int n :: rat) < 2 powi ?a"
    using nat_between_powers [of "nat n"] n by simp_all
  have db: "2 powi (?b - 1) \<le> (of_int d :: rat)" "(of_int d :: rat) < 2 powi ?b"
    using nat_between_powers [of "nat d"] d by simp_all
  have pd: "(2::rat) powi i / 2 powi j = 2 powi (i - j)" for i j by (simp add: power_int_diff)
  have "q < 2 powi ?a / 2 powi (?b - 1)"
    unfolding q using na db d n by (intro frac_less) auto
  also have "\<dots> = 2 powi (?a - ?b + 1)" by (simp only: pd diff_diff_eq2 diff_add_eq)
  finally have up: "q < 2 powi (?a - ?b + 1)" .
  have "2 powi (?a - 1) / 2 powi ?b < q"
    unfolding q using na db d n by (intro frac_less2) auto
  also have "2 powi (?a - 1) / 2 powi ?b = (2::rat) powi (?a - ?b - 1)"
    by (simp only: pd) (simp add: algebra_simps)
  finally have lo: "2 powi (?a - ?b - 1) < q" .
  show "2 powi floor_log2 q \<le> q" using lo by (simp add: floor_log2_def nd Let_def)
  show "q < 2 powi (floor_log2 q + 1)" using up by (simp add: floor_log2_def nd Let_def)
qed

lemma floor_log2_less:
  assumes "0 < q" and "q < 2 powi k"
  shows "floor_log2 q < k"
proof (rule ccontr)
  assume "\<not> floor_log2 q < k"
  then have "(2::rat) powi k \<le> 2 powi floor_log2 q" by (intro powi_mono_two) simp
  with floor_log2_bounds(1) [OF assms(1)] assms(2) show False by simp
qed

lemma ulp_pos: "0 < ulp q"
  by (simp add: ulp_def)

lemma ulp_le_one: "q \<noteq> 0 \<Longrightarrow> \<bar>q\<bar> < 2 ^ 53 \<Longrightarrow> ulp q \<le> 1"
proof -
  assume q: "q \<noteq> 0" "\<bar>q\<bar> < 2 ^ 53"
  then have "\<bar>q\<bar> < 2 powi 53" by simp
  then have "floor_log2 \<bar>q\<bar> < 53" using q by (intro floor_log2_less) auto
  then have "max (floor_log2 \<bar>q\<bar> - 52) (- 1074) \<le> 0" by simp
  from powi_mono_two [OF this] show ?thesis by (simp add: ulp_def)
qed

subsection \<open>Rounding error\<close>

lemma round_half_even_error: "\<bar>of_int (round_half_even x) - x\<bar> \<le> 1 / 2"
  unfolding round_half_even_def Let_def by (auto simp: field_simps abs_if) linarith+

lemma round_half_even_int: "round_half_even (of_int n) = n"
  by (simp add: round_half_even_def)

lemma round_double_error:
  assumes "\<bar>q\<bar> < 2 ^ 53"
  obtains r where "round_double q = Finite r" and "\<bar>r - q\<bar> \<le> 1 / 2"
proof (cases "q = 0")
  case True
  then show ?thesis using that by (simp add: round_double_def)
next
  case False
  define r where "r = of_int (round_half_even (q / ulp q)) * ulp q"
  have u: "0 < ulp q" "ulp q \<le> 1" using ulp_pos ulp_le_one [OF False assms] by auto
  have "\<bar>r - q\<bar> = \<bar>of_int (round_half_even (q / ulp q)) - q / ulp q\<bar> * ulp q"
    using u by (simp add: r_def abs_mult field_simps flip: abs_mult_pos)
  also have "\<dots> \<le> 1 / 2 * 1"
    using u round_half_even_error [of "q / ulp q"] by (intro mult_mono) auto
  finally have err: "\<bar>r - q\<bar> \<le> 1 / 2" by simp
  then have "\<bar>r\<bar> < 2 ^ 53 + 1" using assms abs_triangle_ineq2 [of r q] by linarith
  also have "\<dots> \<le> (2::rat) ^ 1024" by simp
  finally have "round_double q = Finite r" using False by (simp add: round_double_def r_def Let_def)
  with err show ?thesis using that by blast
qed

lemma integer_multiple_of_ulp:
  assumes "n \<noteq> 0" and "\<bar>n\<bar> < 2 ^ 53"
  shows "\<exists>k. (of_int n :: rat) / ulp (of_int n) = of_int k"
proof -
  let ?e = "max (floor_log2 \<bar>of_int n\<bar> - 52) (- 1074)"
  have "ulp (of_int n) \<le> 1" using assms by (intro ulp_le_one) (auto simp flip: of_int_abs)
  then have "?e \<le> 0"
  proof (rule contrapos_pp)
    assume "\<not> ?e \<le> 0"
    then have "(2::rat) powi 1 \<le> 2 powi ?e" by (intro powi_mono_two) simp
    then show "\<not> ulp (of_int n) \<le> 1" by (simp add: ulp_def)
  qed
  then obtain m where m: "?e = - int m" using nonpos_int_cases by blast
  have "(of_int n :: rat) / ulp (of_int n) = of_int (n * 2 ^ m)"
    by (simp only: ulp_def m power_int_minus power_int_of_nat) (simp add: field_simps)
  then show ?thesis by blast
qed

lemma double_of_int_exact: "\<bar>n\<bar> < 2 ^ 53 \<Longrightarrow> double_of_int n = Finite (of_int n)"
proof (cases "n = 0")
  case True
  then show ?thesis by (simp add: double_of_int_def round_double_def)
next
  case False
  assume n: "\<bar>n\<bar> < 2 ^ 53"
  obtain k where k: "(of_int n :: rat) / ulp (of_int n) = of_int k"
    using integer_multiple_of_ulp [OF False n] by blast
  then have "of_int (round_half_even (of_int n / ulp (of_int n))) * ulp (of_int n) = (of_int n :: rat)"
    using ulp_pos [of "of_int n"] by (simp only: k round_half_even_int) (simp add: field_simps flip: k)
  moreover have "\<bar>of_int n :: rat\<bar> < 2 ^ 53" using n by (metis of_int_abs of_int_less_iff of_int_numeral of_int_power)
  then have "\<bar>of_int n :: rat\<bar> < 2 ^ 1024" by (rule less_le_trans) simp
  ultimately show ?thesis using False by (simp add: double_of_int_def round_double_def Let_def)
qed

end
