(* ===== verification/Pacer.thy ===== *)
theory Pacer
  imports Double
begin

text \<open>
  \<open>src/include/imr/mold/downstream/pacer.h\<close>: when a packet is due. The first packet fixes a replay
  origin (its timestamp) and a wall origin (the clock); a later packet is due when the wall clock has
  advanced by the timestamp difference divided by the playback speed. Durations and time points are
  signed 64-bit nanosecond counts; an operation whose result does not fit, and a cast of a \<open>double\<close>
  that does not fit, are undefined in the code and \<open>Not_representable\<close> here.
\<close>

datatype market_phase = Pre | Open | Close

fun phase_to_ns :: "market_phase \<Rightarrow> int" where
  "phase_to_ns Pre = 0"
| "phase_to_ns Open = (9 * 60 + 30) * 60 * 1000000000"
| "phase_to_ns Close = 16 * 60 * 60 * 1000000000"

definition market_open :: int where "market_open = phase_to_ns Open"
definition market_pre :: int where "market_pre = phase_to_ns Pre"
definition market_close :: int where "market_close = phase_to_ns Close"

record pacer_config =
  cfg_playback_speed :: double
  cfg_skip_before :: int

definition default_pacer_config :: pacer_config where
  "default_pacer_config = \<lparr>cfg_playback_speed = Finite 1, cfg_skip_before = phase_to_ns Pre\<rparr>"

record pacer =
  pacer_playback_speed :: double
  pacer_skip_before :: int
  pacer_wall_origin :: int
  pacer_replay_origin :: "int option"

definition pacer_new :: "pacer_config \<Rightarrow> pacer" where
  "pacer_new cfg =
     \<lparr>pacer_playback_speed = cfg_playback_speed cfg, pacer_skip_before = cfg_skip_before cfg,
      pacer_wall_origin = 0, pacer_replay_origin = None\<rparr>"

definition should_skip :: "pacer \<Rightarrow> int \<Rightarrow> bool" where
  "should_skip p packet_timestamp \<longleftrightarrow> packet_timestamp < pacer_skip_before p"

definition calculate_delay :: "env \<Rightarrow> nat \<Rightarrow> pacer \<Rightarrow> int \<Rightarrow> (int \<times> nat) res" where
  "calculate_delay e t p packet_timestamp =
     (case pacer_replay_origin p of
        None \<Rightarrow> Inl Out_of_bounds
      | Some origin \<Rightarrow>
          andThen (checked_i64 (packet_timestamp - origin)) (\<lambda>replay_offset.
          andThen (int64_of_double (double_div (double_of_int replay_offset) (pacer_playback_speed p))) (\<lambda>scaled_offset.
          andThen (checked_i64 (pacer_wall_origin p + scaled_offset)) (\<lambda>send_at.
          let now = now_at e t in
          if send_at \<le> now then Inr (0, Suc t)
          else andThen (checked_i64 (send_at - now)) (\<lambda>delay. Inr (delay, Suc t))))))"

definition get_delay :: "env \<Rightarrow> nat \<Rightarrow> pacer \<Rightarrow> int \<Rightarrow> (int \<times> pacer \<times> nat) res" where
  "get_delay e t p packet_timestamp =
     (let (p', t') =
        (case pacer_replay_origin p of
           None \<Rightarrow> (p\<lparr>pacer_replay_origin := Some packet_timestamp, pacer_wall_origin := now_at e t\<rparr>, Suc t)
         | Some origin \<Rightarrow> (p, t))
      in andThen (calculate_delay e t' p' packet_timestamp) (\<lambda>(delay, t''). Inr (delay, p', t'')))"

subsection \<open>The scaled offset\<close>

definition scaled_offset :: "double \<Rightarrow> int \<Rightarrow> int res" where
  "scaled_offset speed offset = int64_of_double (double_div (double_of_int offset) speed)"

lemma scaled_offset_one:
  assumes "\<bar>x\<bar> < 2 ^ 53"
  shows "scaled_offset (Finite 1) x = Inr x"
proof -
  have "round_double (of_int x) = Finite (of_int x)"
    using double_of_int_exact [OF assms] by (simp add: double_of_int_def)
  moreover have "fits_i64 x" using assms by (simp add: fits_i64_def abs_if split: if_splits)
  ultimately show ?thesis
    by (simp add: scaled_offset_def double_of_int_exact [OF assms] truncate_rat_def)
qed

lemma truncate_error: "\<bar>of_int (truncate_rat q) - q\<bar> < 1"
  unfolding truncate_rat_def by (cases "0 \<le> q") (auto simp: abs_if, linarith+)

lemma scaled_offset_error:
  assumes "\<bar>x\<bar> < 2 ^ 53" and "s \<noteq> 0" and "\<bar>of_int x / s\<bar> < 2 ^ 53"
  obtains k where "scaled_offset (Finite s) x = Inr k" and "\<bar>of_int k - of_int x / s\<bar> < 3 / 2"
    and "\<bar>k\<bar> < 2 ^ 54"
proof -
  obtain r where r: "round_double (of_int x / s) = Finite r" "\<bar>r - of_int x / s\<bar> \<le> 1 / 2"
    using round_double_error [OF assms(3)] by blast
  let ?k = "truncate_rat r"
  have k: "\<bar>of_int ?k - of_int x / s\<bar> < 3 / 2"
    using truncate_error [of r] r(2) by linarith
  then have "\<bar>rat_of_int ?k\<bar> < 2 ^ 53 + 2" using assms(3) by linarith
  then have "rat_of_int \<bar>?k\<bar> < rat_of_int (2 ^ 53 + 2)" by simp
  then have "\<bar>?k\<bar> < 2 ^ 53 + 2" by (simp only: of_int_less_iff)
  then have b: "\<bar>?k\<bar> < 2 ^ 54" "fits_i64 ?k" by (simp_all add: fits_i64_def abs_less_iff)
  then have "scaled_offset (Finite s) x = Inr ?k"
    using assms(2) r(1) by (simp add: scaled_offset_def double_of_int_exact [OF assms(1)])
  with k b show ?thesis using that by blast
qed

lemma calculate_delay_eq:
  assumes "pacer_replay_origin p = Some origin" and "fits_i64 (ts - origin)"
    and "scaled_offset (pacer_playback_speed p) (ts - origin) = Inr k"
    and "fits_i64 (pacer_wall_origin p + k)" and "fits_i64 (pacer_wall_origin p + k - now_at e t)"
  shows "calculate_delay e t p ts = Inr (max 0 (pacer_wall_origin p + k - now_at e t), Suc t)"
  using assms by (simp add: calculate_delay_def scaled_offset_def Let_def)

subsection \<open>Which fields a delay changes\<close>

lemma get_delay_config:
  assumes "get_delay e t p ts = Inr (d, p', t')"
  shows "pacer_skip_before p' = pacer_skip_before p" and "pacer_playback_speed p' = pacer_playback_speed p"
    and "pacer_replay_origin p' \<noteq> None" and "t < t'"
  using assms
  by (auto simp: get_delay_def calculate_delay_def andThen_eq_Inr_iff Let_def
      split: option.splits if_splits)

lemma get_delay_nonneg:
  assumes "get_delay e t p ts = Inr (d, p', t')"
  shows "0 \<le> d"
  using assms
  by (auto simp: get_delay_def calculate_delay_def andThen_eq_Inr_iff Let_def checked_i64_def
      split: option.splits if_splits)

subsection \<open>Pacing that cannot overflow\<close>

text \<open>Playback at 1/32 of real time or faster, a clock within \<open>2^61\<close> nanoseconds of its epoch, and an
  origin that is an ITCH timestamp. Under these the pacer always returns.\<close>

definition paced :: "env \<Rightarrow> pacer \<Rightarrow> bool" where
  "paced e p \<longleftrightarrow>
     (\<exists>s. pacer_playback_speed p = Finite s \<and> 1 / 32 \<le> s) \<and>
     (\<forall>t. \<bar>now_at e t\<bar> < 2 ^ 61) \<and> \<bar>pacer_wall_origin p\<bar> < 2 ^ 61 \<and>
     (\<forall>origin. pacer_replay_origin p = Some origin \<longrightarrow> 0 \<le> origin \<and> origin < 2 ^ 48)"

lemma calculate_delay_paced:
  assumes "paced e p" and "pacer_replay_origin p = Some origin" and "0 \<le> ts" and "ts < 2 ^ 48"
  obtains s k where "pacer_playback_speed p = Finite s" and "1 / 32 \<le> s"
    and "scaled_offset (Finite s) (ts - origin) = Inr k"
    and "\<bar>of_int k - of_int (ts - origin) / s\<bar> < 3 / 2"
    and "calculate_delay e t p ts = Inr (max 0 (pacer_wall_origin p + k - now_at e t), Suc t)"
proof -
  obtain s where s: "pacer_playback_speed p = Finite s" "1 / 32 \<le> s"
    using assms(1) by (auto simp: paced_def)
  have clock: "\<bar>now_at e t\<bar> < 2 ^ 61" "\<bar>pacer_wall_origin p\<bar> < 2 ^ 61"
    and origin: "0 \<le> origin" "origin < 2 ^ 48"
    using assms(1,2) by (auto simp: paced_def)
  have x: "\<bar>ts - origin\<bar> < 2 ^ 48" using assms(3,4) origin by simp
  have "\<bar>of_int (ts - origin) / s\<bar> = of_int \<bar>ts - origin\<bar> / s" using s(2) by simp
  also have "\<dots> \<le> of_int \<bar>ts - origin\<bar> / (1 / 32)"
    using s(2) by (intro divide_left_mono) auto
  also have "\<dots> < 2 ^ 53"
  proof -
    have "of_int \<bar>ts - origin\<bar> < (of_int (2 ^ 48) :: rat)" using x by (simp only: of_int_less_iff)
    then show ?thesis by simp
  qed
  finally have q: "\<bar>of_int (ts - origin) / s\<bar> < 2 ^ 53" .
  obtain k where k: "scaled_offset (Finite s) (ts - origin) = Inr k"
    "\<bar>of_int k - of_int (ts - origin) / s\<bar> < 3 / 2" "\<bar>k\<bar> < 2 ^ 54"
    by (rule scaled_offset_error [OF _ _ q]) (use x s(2) in auto)
  have "fits_i64 (ts - origin)" "fits_i64 (pacer_wall_origin p + k)"
    "fits_i64 (pacer_wall_origin p + k - now_at e t)"
    using x clock k(3) unfolding fits_i64_def abs_less_iff by auto
  then have "calculate_delay e t p ts = Inr (max 0 (pacer_wall_origin p + k - now_at e t), Suc t)"
    using assms(2) s(1) k(1) by (intro calculate_delay_eq) simp_all
  with s k show ?thesis using that by blast
qed

lemma get_delay_paced:
  assumes "paced e p" and "0 \<le> ts" and "ts < 2 ^ 48"
  obtains d p' t' where "get_delay e t p ts = Inr (d, p', t')" and "paced e p'"
proof (cases "pacer_replay_origin p")
  case None
  let ?p = "p\<lparr>pacer_replay_origin := Some ts, pacer_wall_origin := now_at e t\<rparr>"
  have paced: "paced e ?p" using assms by (simp add: paced_def)
  then obtain d where "calculate_delay e (Suc t) ?p ts = Inr (d, Suc (Suc t))"
    using calculate_delay_paced [of e ?p ts ts "Suc t"] assms(2,3) by force
  then show ?thesis using that paced None by (simp add: get_delay_def)
next
  case (Some origin)
  then obtain d where "calculate_delay e t p ts = Inr (d, Suc t)"
    using calculate_delay_paced [OF assms(1) Some assms(2,3), of t] by metis
  then show ?thesis using that assms(1) Some by (simp add: get_delay_def)
qed

lemma max_zero_dist: "\<bar>max 0 (a + x) - max 0 (a + y)\<bar> \<le> \<bar>x - y\<bar>" for a x y :: rat
  by linarith

lemma scaled_offset_zero: "s \<noteq> 0 \<Longrightarrow> scaled_offset (Finite s) 0 = Inr 0"
  using double_of_int_exact [of 0]
  by (simp add: scaled_offset_def round_double_def truncate_rat_def fits_i64_def)

section \<open>Properties\<close>

text \<open>
  C27. Pacing is accurate. Once the origin is set, the delay for a message at \<open>ts\<close> is, within 1.5 ns, what is
  left of the offset from the origin, divided by the playback speed, since the wall-clock origin; it is 0
  when that time has passed. The error bound covers the rounding of the division in \<open>double\<close> and the
  truncation of the cast. The conditions (\<open>paced\<close>): a playback speed of at least 1/32, clock readings below \<open>2 ^ 61\<close> ns and
  timestamps of 48 bits, so that the 64-bit sums do not overflow. The result does not depend on \<open>skip_before\<close>: a
  timestamp below it gets the scaled delay as well, where the comment on \<open>skip_before\<close> promises a delay of 0.
\<close>

theorem pacer_delay_accurate:
  assumes "paced e p" and "pacer_playback_speed p = Finite s" and "pacer_replay_origin p = Some origin"
    and "0 \<le> ts" and "ts < 2 ^ 48"
  shows "\<exists>d. get_delay e t p ts = Inr (d, p, Suc t) \<and> 0 \<le> d \<and>
    \<bar>of_int d - max 0 (of_int (pacer_wall_origin p - now_at e t) + of_int (ts - origin) / s)\<bar> < (3 / 2 :: rat)"
proof -
  obtain k where k: "\<bar>of_int k - of_int (ts - origin) / s\<bar> < 3 / 2"
    "calculate_delay e t p ts = Inr (max 0 (pacer_wall_origin p + k - now_at e t), Suc t)"
    using calculate_delay_paced [OF assms(1,3-5), of t] assms(2) by (metis double.inject(1))
  let ?d = "max 0 (pacer_wall_origin p + k - now_at e t)"
  have "of_int ?d = max 0 (of_int (pacer_wall_origin p - now_at e t) + (of_int k :: rat))"
    by (simp add: of_int_max)
  then have "\<bar>of_int ?d - max 0 (of_int (pacer_wall_origin p - now_at e t) + of_int (ts - origin) / s)\<bar> < 3 / 2"
    using k(1) max_zero_dist [of "of_int (pacer_wall_origin p - now_at e t)" "of_int k" "of_int (ts - origin) / s"]
    by linarith
  moreover have "get_delay e t p ts = Inr (?d, p, Suc t)" using k(2) assms(3) by (simp add: get_delay_def)
  ultimately show ?thesis by (intro exI [of _ ?d]) simp
qed

theorem pacer_delay_accurate_witness:
  "let e = \<lparr>stop_requested_at = (\<lambda>_. False), now_at = (\<lambda>_. 100), send_result_at = (\<lambda>_. 0)\<rparr>;
       p = \<lparr>pacer_playback_speed = Finite 2, pacer_skip_before = 5000, pacer_wall_origin = 40, pacer_replay_origin = Some 1000\<rparr>
   in should_skip p 3000 \<and> (\<exists>d. get_delay e 0 p 3000 = Inr (d, p, 1) \<and> 0 \<le> d \<and> \<bar>of_int d - 940\<bar> < (3 / 2 :: rat))"
  using pacer_delay_accurate [of "\<lparr>stop_requested_at = (\<lambda>_. False), now_at = (\<lambda>_. 100), send_result_at = (\<lambda>_. 0)\<rparr>"
      "\<lparr>pacer_playback_speed = Finite 2, pacer_skip_before = 5000, pacer_wall_origin = 40, pacer_replay_origin = Some 1000\<rparr>" 2 1000 3000 0]
  by (simp add: paced_def should_skip_def Let_def)

text \<open>
  The first packet is not delayed: the first call sets both origins and returns 0, provided the
  clock does not run backwards between its two readings.
\<close>

theorem pacer_first_delay:
  assumes "paced e p" and "pacer_replay_origin p = None" and "0 \<le> ts" and "ts < 2 ^ 48"
    and "now_at e t \<le> now_at e (Suc t)"
  shows "get_delay e t p ts = Inr (0, p\<lparr>pacer_replay_origin := Some ts, pacer_wall_origin := now_at e t\<rparr>, Suc (Suc t))"
proof -
  let ?p = "p\<lparr>pacer_replay_origin := Some ts, pacer_wall_origin := now_at e t\<rparr>"
  have "paced e ?p" "pacer_replay_origin ?p = Some ts" using assms by (simp_all add: paced_def)
  then obtain s k where k: "pacer_playback_speed ?p = Finite s" "1 / 32 \<le> s" "scaled_offset (Finite s) (ts - ts) = Inr k"
    "calculate_delay e (Suc t) ?p ts = Inr (max 0 (pacer_wall_origin ?p + k - now_at e (Suc t)), Suc (Suc t))"
    using calculate_delay_paced [OF _ _ assms(3,4), of e ?p ts "Suc t"] by metis
  have "k = 0" using k(2,3) scaled_offset_zero [of s] by simp
  then show ?thesis using k(4) assms(2,5) by (simp add: get_delay_def)
qed

theorem pacer_first_delay_witness:
  "get_delay \<lparr>stop_requested_at = (\<lambda>_. False), now_at = (\<lambda>t. if t = 0 then 5 else 9), send_result_at = (\<lambda>_. 0)\<rparr> 0
      (pacer_new \<lparr>cfg_playback_speed = Finite 1, cfg_skip_before = 0\<rparr>) 77 =
    Inr (0, \<lparr>pacer_playback_speed = Finite 1, pacer_skip_before = 0, pacer_wall_origin = 5, pacer_replay_origin = Some 77\<rparr>, 2)"
  using pacer_first_delay [of "\<lparr>stop_requested_at = (\<lambda>_. False), now_at = (\<lambda>t. if t = 0 then 5 else 9), send_result_at = (\<lambda>_. 0)\<rparr>"
      "pacer_new \<lparr>cfg_playback_speed = Finite 1, cfg_skip_before = 0\<rparr>" 77 0]
  by (simp add: paced_def pacer_new_def)

text \<open>
  A playback speed of 0 is accepted by the configuration; the first delay then divides 0 by 0 and casts
  a NaN to \<open>int64_t\<close>, which is undefined.
\<close>

theorem pacer_speed_zero:
  "get_delay e t (pacer_new \<lparr>cfg_playback_speed = Finite 0, cfg_skip_before = skip\<rparr>) ts = Inl Not_representable"
  using double_of_int_exact [of 0]
  by (simp add: get_delay_def pacer_new_def calculate_delay_def checked_i64_def fits_i64_def)

end
