(* ===== verification/Downstream_Feed.thy ===== *)
theory Downstream_Feed
  imports Heartbeat Retransmission_Buffer Pacer
begin

text \<open>
  \<open>src/include/imr/mold/downstream/feed.h\<close>, \<open>src/src/mold/downstream/feed.cpp\<close>: the replay of the mapped
  file over multicast. The record holds the members of \<open>downstream::Feed\<close> and, as
  \<open>df_retransmission_buffer\<close>, the buffer it points to. Every member function is one definition:
  \<open>peek_timestamp\<close>, \<open>downstream_configure_socket\<close>, \<open>downstream_feed_new\<close> (the constructor),
  \<open>downstream_build_packet\<close>, \<open>downstream_send_packet\<close>, \<open>downstream_end_of_session\<close>,
  \<open>downstream_start\<close>. The body of the replay loop is \<open>downstream_iteration\<close>; the loop itself and the
  end-of-session loop may run as long as the environment lets them, so they take fuel, and
  \<open>Replay_Proofs\<close> shows how much is enough.

  The results of the socket calls of the constructor are the fields of \<open>socket_env\<close>; \<open>inet_pton\<close> is
  a function of the C library and a parameter.
\<close>

subsection \<open>State and configuration\<close>

record downstream_config =
  dc_mcast_group :: bytes
  dc_port :: u16
  dc_ttl :: "8 word"
  dc_loopback :: bool
  dc_egress_interface :: u32
  dc_heartbeat_period :: int
  dc_end_of_session_duration :: int
  dc_pacer_cfg :: pacer_config

record socket_env =
  socket_ret :: int
  reuseaddr_ret :: int
  ttl_ret :: int
  loop_ret :: int
  multicast_if_ret :: int
  inet_pton :: "bytes \<Rightarrow> int \<times> u32"
  errno :: int

record downstream_feed =
  df_mcast_group :: sockaddr_in
  df_file :: bytes
  df_file_pos :: nat
  df_sequence_number :: u64
  df_sent_sequence_number :: u64
  df_retransmission_buffer :: retransmission_buffer
  df_pacer :: pacer
  df_packet_builder :: packet_builder
  df_heartbeat :: heartbeat
  df_end_of_session_duration :: int

datatype control = Continue | Break

definition AF_INET :: int where "AF_INET = 2"

definition default_downstream_config :: "bytes \<Rightarrow> u16 \<Rightarrow> downstream_config" where
  "default_downstream_config mcast port =
     \<lparr>dc_mcast_group = mcast, dc_port = port, dc_ttl = 1, dc_loopback = False, dc_egress_interface = 0,
      dc_heartbeat_period = 1000000000, dc_end_of_session_duration = 30 * 1000000000,
      dc_pacer_cfg = default_pacer_config\<rparr>"

subsection \<open>Operations\<close>

definition peek_timestamp :: "build \<Rightarrow> bytes \<Rightarrow> int option res" where
  "peek_timestamp b bs =
     (if length bs < length_prefix_size + timestamp_size then Inr None
      else andThen (subspan bs length_prefix_size (length bs - length_prefix_size)) (\<lambda>rest.
        andThen (extract_timestamp b rest) (\<lambda>ts. Inr (Some ts))))"

definition downstream_configure_socket :: "socket_env \<Rightarrow> downstream_config \<Rightarrow> sockaddr_in res" where
  "downstream_configure_socket s cfg =
     (if reuseaddr_ret s < 0 \<or> ttl_ret s < 0 then Inl (System_error (errno s))
      else let (ret, addr) = inet_pton s (dc_mcast_group cfg) in
        if ret = 0 then Inl Invalid_argument
        else if ret < 0 then Inl (System_error (errno s))
        else if dc_loopback cfg \<and> loop_ret s < 0 then Inl (System_error (errno s))
        else if multicast_if_ret s < 0 then Inl (System_error (errno s))
        else Inr \<lparr>sin_family = AF_INET, sin_port = byteswap (dc_port cfg), sin_addr = addr\<rparr>)"

definition downstream_feed_new ::
  "build \<Rightarrow> socket_env \<Rightarrow> downstream_config \<Rightarrow> packet_builder_config \<Rightarrow> bytes \<Rightarrow> retransmission_buffer \<Rightarrow>
   downstream_feed res" where
  "downstream_feed_new b s cfg pb_cfg file rb =
     (if socket_ret s < 0 then Inl (System_error (errno s))
      else andThen (downstream_configure_socket s cfg) (\<lambda>mcast_group.
        andThen (packet_builder_new b pb_cfg) (\<lambda>pb.
        andThen (heartbeat_new b (dc_heartbeat_period cfg) mcast_group (cfg_session pb_cfg)) (\<lambda>hb.
        Inr \<lparr>df_mcast_group = mcast_group, df_file = file, df_file_pos = 0, df_sequence_number = 1,
             df_sent_sequence_number = 1, df_retransmission_buffer = rb,
             df_pacer = pacer_new (dc_pacer_cfg cfg), df_packet_builder = pb, df_heartbeat = hb,
             df_end_of_session_duration = dc_end_of_session_duration cfg\<rparr>))))"

function downstream_build_loop :: "build \<Rightarrow> downstream_feed \<Rightarrow> downstream_feed res" where
  "downstream_build_loop b f =
     (if df_file_pos f < length (df_file f) then
        (let msg_file_pos = df_file_pos f in
         andThen (read_message b (df_file f) msg_file_pos) (\<lambda>(msg, pos').
           if msg = [] then Inr (f\<lparr>df_file_pos := pos'\<rparr>)
           else andThen (try_add b (df_packet_builder f) msg) (\<lambda>(added, pb').
             if \<not> added then Inr (f\<lparr>df_packet_builder := pb', df_file_pos := msg_file_pos\<rparr>)
             else andThen (push (df_retransmission_buffer f)
                     \<lparr>rec_sequence_number = df_sequence_number f, rec_file_position = msg_file_pos\<rparr>) (\<lambda>rb'.
               downstream_build_loop b
                 (f\<lparr>df_file_pos := pos', df_packet_builder := pb', df_retransmission_buffer := rb',
                    df_sequence_number := df_sequence_number f + 1\<rparr>)))))
      else Inr f)"
  by pat_completeness auto
termination
proof (relation "measure (\<lambda>(b, f). length (df_file f) - df_file_pos f)", goal_cases)
  case 1
  show ?case by simp
next
  case (2 b f pos x msg pos' y added pb' rb')
  then have "read_message b (df_file f) (df_file_pos f) = Inr (msg, pos')" "msg \<noteq> []" by auto
  with 2(1) mold_io.read_progress [of "df_file_pos f" "df_file f" b msg pos'] have "df_file_pos f < pos'" by simp
  with 2(1) show ?case by simp
qed

declare downstream_build_loop.simps [simp del]

definition downstream_build_packet :: "build \<Rightarrow> downstream_feed \<Rightarrow> downstream_feed res" where
  "downstream_build_packet b f =
     andThen (reset b (df_packet_builder f) (df_sequence_number f)) (\<lambda>pb.
     downstream_build_loop b (f\<lparr>df_packet_builder := pb\<rparr>))"

definition downstream_send_packet ::
  "build \<Rightarrow> env \<Rightarrow> nat \<Rightarrow> downstream_feed \<Rightarrow> (downstream_feed \<times> out_event list \<times> nat) res" where
  "downstream_send_packet b e t f =
     andThen (finalize b (df_packet_builder f)) (\<lambda>(packet, pb').
     let f' = f\<lparr>df_packet_builder := pb', df_sent_sequence_number := df_sequence_number f\<rparr> in
     if debug_no_network b then Inr (f', [], t)
     else let bytes_sent = send_result_at e t in
       Inr (f', Send (df_mcast_group f) (packet_bytes pb' packet) bytes_sent #
                  (if bytes_sent < 0 then [Logged_error] else []), Suc t))"

definition downstream_pause ::
  "build \<Rightarrow> env \<Rightarrow> nat \<Rightarrow> downstream_feed \<Rightarrow> int \<Rightarrow> (downstream_feed \<times> out_event list \<times> nat) res" where
  "downstream_pause b e t f timestamp =
     (if debug_no_sleep b then Inr (f, [], t)
      else andThen (get_delay e t (df_pacer f) timestamp) (\<lambda>(delay, p', t').
        Inr (f\<lparr>df_pacer := p'\<rparr>, [Slept delay], t')))"

definition downstream_iteration ::
  "build \<Rightarrow> env \<Rightarrow> nat \<Rightarrow> downstream_feed \<Rightarrow> (control \<times> downstream_feed \<times> out_event list \<times> nat) res" where
  "downstream_iteration b e t f =
     (if \<not> df_file_pos f < length (df_file f) then Inr (Break, f, [], t)
      else if stop_requested_at e t then Inr (Break, f, [], Suc t)
      else andThen (subspan (df_file f) (df_file_pos f) (length (df_file f) - df_file_pos f)) (\<lambda>rest.
        andThen (peek_timestamp b rest) (\<lambda>timestamp.
          case timestamp of
            None \<Rightarrow> Inr (Break, f, [], Suc t)
          | Some ts \<Rightarrow>
              if should_skip (df_pacer f) ts then
                andThen (skip_message b (df_file f) (df_file_pos f)) (\<lambda>(ok, pos').
                Inr (if ok then Continue else Break, f\<lparr>df_file_pos := pos'\<rparr>, [], Suc t))
              else
                andThen (downstream_build_packet b f) (\<lambda>f1.
                andThen (downstream_pause b e (Suc t) f1 ts) (\<lambda>(f2, evs2, t2).
                andThen (downstream_send_packet b e t2 f2) (\<lambda>(f3, evs3, t3).
                Inr (Continue, f3, evs2 @ evs3, t3)))))))"

fun downstream_replay ::
  "nat \<Rightarrow> build \<Rightarrow> env \<Rightarrow> nat \<Rightarrow> downstream_feed \<Rightarrow> (downstream_feed \<times> out_event list \<times> nat) res option" where
  "downstream_replay 0 b e t f = None"
| "downstream_replay (Suc fuel) b e t f =
     (case downstream_iteration b e t f of
        Inl err \<Rightarrow> Some (Inl err)
      | Inr (Break, f', evs, t') \<Rightarrow> Some (Inr (f', evs, t'))
      | Inr (Continue, f', evs, t') \<Rightarrow>
          map_option (\<lambda>r. andThen r (\<lambda>(f'', evs', t''). Inr (f'', evs @ evs', t''))) (downstream_replay fuel b e t' f'))"

fun end_of_session_loop ::
  "nat \<Rightarrow> build \<Rightarrow> env \<Rightarrow> nat \<Rightarrow> sockaddr_in \<Rightarrow> bytes \<Rightarrow> int \<Rightarrow> int \<Rightarrow> (out_event list \<times> nat) option" where
  "end_of_session_loop 0 b e t addr eos_packet finish period = None"
| "end_of_session_loop (Suc fuel) b e t addr eos_packet finish period =
     (if stop_requested_at e t then Some ([], Suc t)
      else if \<not> finish > now_at e (Suc t) then Some ([], Suc (Suc t))
      else let bytes_sent = send_result_at e (Suc (Suc t));
               evs = Send addr eos_packet bytes_sent #
                 (if bytes_sent < 0 then [Logged_error]
                  else if bytes_sent < int (length eos_packet) then [Logged_error] else []) @
                 (if debug_no_sleep b then [] else [Slept period])
           in map_option (\<lambda>(evs', t'). (evs @ evs', t'))
                (end_of_session_loop fuel b e (Suc (Suc (Suc t))) addr eos_packet finish period))"

definition downstream_end_of_session ::
  "nat \<Rightarrow> build \<Rightarrow> env \<Rightarrow> nat \<Rightarrow> downstream_feed \<Rightarrow> (out_event list \<times> nat) res option" where
  "downstream_end_of_session fuel b e t f =
     (if debug_no_network b then Some (Inr ([], t))
      else
        case andThen (write_at_range b (replicate header_length 0) session_offset (session (df_packet_builder f))) (\<lambda>p1.
             andThen (write_at_be b p1 sequence_number_offset (df_sequence_number f)) (\<lambda>p2.
             andThen (write_at_be b p2 message_count_offset end_of_session_msg_count) (\<lambda>eos_packet.
             andThen (checked_i64 (now_at e t + df_end_of_session_duration f)) (\<lambda>finish.
             Inr (eos_packet, finish))))) of
          Inl err \<Rightarrow> Some (Inl err)
        | Inr (eos_packet, finish) \<Rightarrow>
            map_option Inr (end_of_session_loop fuel b e (Suc t) (df_mcast_group f) eos_packet finish
              (heartbeat_period (df_heartbeat f))))"

definition downstream_start ::
  "nat \<Rightarrow> build \<Rightarrow> env \<Rightarrow> nat \<Rightarrow> downstream_feed \<Rightarrow> (downstream_feed \<times> out_event list \<times> nat) res option" where
  "downstream_start fuel b e t f =
     (case downstream_replay fuel b e t (f\<lparr>df_heartbeat := heartbeat_start (df_heartbeat f)\<rparr>) of
        None \<Rightarrow> None
      | Some (Inl err) \<Rightarrow> Some (Inl err)
      | Some (Inr (f1, evs1, t1)) \<Rightarrow>
          (let f2 = f1\<lparr>df_heartbeat := heartbeat_stop (df_heartbeat f1)\<rparr> in
           map_option (\<lambda>r. andThen r (\<lambda>(evs2, t2). Inr (f2, evs1 @ evs2, t2)))
             (downstream_end_of_session fuel b e t1 f2)))"

section \<open>Properties\<close>

text \<open>
  C39. A file whose last bytes are too few for a timestamp but at least eight makes the replay fault: the guard of
  \<open>peek_timestamp\<close> counts the length prefix and the timestamp, but not the five bytes before it.
\<close>

theorem peek_timestamp_short_tail:
  assumes "8 \<le> length bs" and "length bs < 13"
  shows "peek_timestamp b bs = Inl (if ndebug b then Out_of_bounds else Assertion_failed)"
proof -
  have "length (segment bs 2 (length bs - 2)) < 11" using assms by simp
  then show ?thesis
    using assms extract_timestamp_short by (simp add: peek_timestamp_def subspan_def)
qed

theorem peek_timestamp_short_tail_witness:
  "peek_timestamp \<lparr>ndebug = True, native = Little, debug_no_network = False, debug_no_sleep = False\<rparr> (0 # 6 # replicate 6 1) =
    Inl Out_of_bounds"
  using peek_timestamp_short_tail [of "0 # 6 # replicate 6 1"] by simp

end
