(* ===== verification/Receiver.thy ===== *)
theory Receiver
  imports Packet_Builder
begin

text \<open>
  The receiving side as the end-to-end tests of the repository implement it
  (\<open>src/tests/e2e/tests/e2e.cpp\<close>): header parsing, the message block, the walk over the length-prefixed
  messages. It gives the packets of the server a meaning that does not depend on the builder, and
  the round trips state that a packet sent is the packet received.
\<close>

record mold_header =
  hdr_session :: bytes
  hdr_sequence_number :: u64
  hdr_message_count :: u16

definition parse_header :: "build \<Rightarrow> bytes \<Rightarrow> mold_header res" where
  "parse_header b bs =
     andThen (check_bounds b (session_offset + session_size \<le> length bs)) (\<lambda>_.
     andThen (read_at_be b bs sequence_number_offset) (\<lambda>seq.
     andThen (read_at_be b bs message_count_offset) (\<lambda>count.
     Inr \<lparr>hdr_session = segment bs session_offset session_size,
          hdr_sequence_number = seq, hdr_message_count = count\<rparr>)))"

definition message_block_span :: "build \<Rightarrow> bytes \<Rightarrow> bytes res" where
  "message_block_span b bs =
     andThen (check_assert b (length bs > header_length)) (\<lambda>_.
     subspan bs header_length (length bs - header_length))"

fun for_each_message :: "build \<Rightarrow> bytes \<Rightarrow> nat \<Rightarrow> nat \<Rightarrow> bytes list res" where
  "for_each_message b payload pos 0 = Inr []"
| "for_each_message b payload pos (Suc n) =
     andThen (read_be b payload pos) (\<lambda>(len :: u16, pos1).
     andThen (subspan payload pos1 (unat len)) (\<lambda>msg.
     andThen (for_each_message b payload (pos1 + unat len) n) (\<lambda>msgs. Inr (msg # msgs))))"

definition is_heartbeat :: "mold_header \<Rightarrow> bool" where
  "is_heartbeat h \<longleftrightarrow> hdr_message_count h = heartbeat_msg_count"

definition is_end_of_session :: "mold_header \<Rightarrow> bool" where
  "is_end_of_session h \<longleftrightarrow> hdr_message_count h = end_of_session_msg_count"

definition receive_packet :: "build \<Rightarrow> bytes \<Rightarrow> (mold_header \<times> bytes list) res" where
  "receive_packet b bs =
     andThen (parse_header b bs) (\<lambda>h.
     andThen (message_block_span b bs) (\<lambda>block.
     andThen (for_each_message b block 0 (unat (hdr_message_count h))) (\<lambda>msgs.
     Inr (h, msgs))))"

lemma parse_header_of:
  assumes "length s = 10"
  shows "parse_header b (header_of s q c @ rest) =
    Inr \<lparr>hdr_session = s, hdr_sequence_number = q, hdr_message_count = c\<rparr>"
proof -
  let ?p = "header_of s q c @ rest"
  have len: "length ?p = 20 + length rest" using assms by simp
  note f = header_of_fields [OF assms, of q c rest]
  have "read_at_be b ?p 10 = Inr q"
    using len f by (intro u64_field.get_image) simp_all
  moreover have "read_at_be b ?p 18 = Inr c"
    using len f by (intro u16_field.get_image) simp_all
  ultimately show ?thesis using len f by (simp add: parse_header_def)
qed

lemma for_each_message_frames:
  assumes "\<forall>body \<in> set bodies. length body < 65536"
  shows "for_each_message b (pre @ concat (map frame bodies)) (length pre) (length bodies) = Inr bodies"
  using assms
proof (induction bodies arbitrary: pre)
  case Nil
  then show ?case by simp
next
  case (Cons body bodies)
  let ?rest = "concat (map frame bodies)"
  let ?bs = "pre @ frame body @ ?rest"
  have len: "length body < 65536" using Cons.prems by simp
  have seg: "segment ?bs (length pre) 2 = be_bytes 2 (length body)"
    by (simp add: segment_def frame_def)
  have n: "unat (word_of_nat (be_val (be_bytes 2 (length body))) :: u16) = length body"
    using len by (simp add: be_val_be_bytes unat_of_nat)
  have body: "subspan ?bs (length pre + 2) (length body) = Inr body"
    by (simp add: subspan_def) (simp add: segment_def frame_def)
  have "for_each_message b ((pre @ frame body) @ ?rest) (length (pre @ frame body)) (length bodies) = Inr bodies"
    using Cons.prems by (intro Cons.IH) simp
  then have IH: "for_each_message b ?bs (length pre + 2 + length body) (length bodies) = Inr bodies"
    by (simp add: add.assoc)
  have "(read_be b ?bs (length pre) :: (u16 \<times> nat) res) =
      Inr (word_of_nat (be_val (be_bytes 2 (length body))), length pre + 2)"
    using seg by (simp add: read_be_eq)
  with IH body n show ?case by simp
qed

lemma receive_mold_packet:
  assumes "length s = 10" and "\<forall>body \<in> set bodies. length body < 65536"
    and "length bodies < 65536" and "bodies \<noteq> []"
  shows "receive_packet b (mold_packet s q (map frame bodies)) =
    Inr (\<lparr>hdr_session = s, hdr_sequence_number = q, hdr_message_count = word_of_nat (length bodies)\<rparr>, bodies)"
proof -
  let ?block = "concat (map frame bodies)"
  have hdr: "mold_packet s q (map frame bodies) = header_of s q (word_of_nat (length bodies)) @ ?block"
    by (simp add: mold_packet_def)
  have "0 < length ?block" using assms(4) by (cases bodies) simp_all
  then have "message_block_span b (header_of s q c @ ?block) = Inr ?block" for c
    using assms(1) by (simp add: message_block_span_def subspan_def segment_def)
  moreover have "unat (word_of_nat (length bodies) :: u16) = length bodies"
    using assms(3) by (simp add: unat_of_nat)
  ultimately show ?thesis
    using for_each_message_frames [of bodies b "[]"] assms(1,2)
    by (simp add: receive_packet_def hdr parse_header_of)
qed

section \<open>Properties\<close>

text \<open>
  C24. What the builder sends, a receiver on any host decodes: from a builder that holds framed messages,
  \<open>finalize\<close> yields bytes that parse to its session, its sequence number, the number of messages and their
  bodies, in order.
\<close>

theorem packet_roundtrip:
  assumes "pb_inv pb" and "pb_messages pb = map frame bodies" and "bodies \<noteq> []"
    and "\<forall>body \<in> set bodies. length body < 65536" and "pb_MTU pb < 65536"
  shows "\<exists>vs pb'. finalize b pb = Inr (vs, pb') \<and> receive_packet b' (packet_bytes pb' vs) =
    Inr (\<lparr>hdr_session = session pb, hdr_sequence_number = pb_sequence pb, hdr_message_count = word_of_nat (length bodies)\<rparr>, bodies)"
proof -
  have "1 * length bodies \<le> length (concat (map frame bodies))"
    using length_concat_ge [of "map frame bodies" 1] by (simp add: frame_def)
  then have "length bodies < 65536" using pb_message_bytes_le [OF assms(1)] assms(2,5) by simp
  moreover obtain pb' where "finalize b pb = Inr (pb_iovecs pb, pb')"
    "packet_bytes pb' (pb_iovecs pb) = mold_packet (session pb) (pb_sequence pb) (map frame bodies)"
    using finalize_ok [OF assms(1), of b] assms(2) by metis
  ultimately show ?thesis
    using receive_mold_packet [OF session_length [OF assms(1)] assms(4) _ assms(3)] by metis
qed

theorem packet_roundtrip_witness:
  "\<exists>pb vs pb'. pb_messages pb = map frame [[1, 2, 3]] \<and>
    finalize \<lparr>ndebug = False, native = Little, debug_no_network = False, debug_no_sleep = False\<rparr> pb = Inr (vs, pb') \<and>
    receive_packet \<lparr>ndebug = False, native = Big, debug_no_network = False, debug_no_sleep = False\<rparr> (packet_bytes pb' vs) =
      Inr (\<lparr>hdr_session = session pb, hdr_sequence_number = pb_sequence pb, hdr_message_count = 1\<rparr>, [[1, 2, 3]])"
proof -
  define pb where "pb = \<lparr>pb_MTU = 1472, pb_bytes_remaining = 1447, pb_header_buffer = replicate 20 0,
    pb_iovecs = [header_iovec, message_iovec (frame [1, 2, 3])], pb_iovecs_reserved = 106, pb_min_message_size = 14\<rparr>"
  have "pb_inv pb" "pb_messages pb = map frame [[1, 2, 3]]"
    by (rule pb_invI [where ms = "map frame [[1, 2, 3]]"]; simp add: pb_def frame_def)+
  moreover have "pb_MTU pb < 65536" by (simp add: pb_def)
  ultimately show ?thesis using packet_roundtrip [of pb "[[1, 2, 3]]"] by (intro exI [of _ pb]) fastforce
qed

end
