(* ===== verification/Schedule.thy ===== *)
theory Schedule
  imports Receiver
begin

text \<open>
  The reference schedule of a replay, stated without the feed's state: which messages of a file are
  passed over, which go into which packet, where in the file they stand and which sequence number each
  packet carries. \<open>Replay_Proofs\<close> shows that the loop of \<open>downstream::Feed::start\<close> follows it. The lemmas
  here say what the schedule is worth: no message is lost, duplicated or reordered, no packet is empty or
  larger than the MTU allows, and a receiver that decodes the packets gets the messages back.
\<close>

subsection \<open>Positions of consecutive messages\<close>

primrec msg_positions :: "nat \<Rightarrow> bytes list \<Rightarrow> nat list" where
  "msg_positions p [] = []"
| "msg_positions p (m # ms) = p # msg_positions (p + length m) ms"

lemma length_msg_positions [simp]: "length (msg_positions p ms) = length ms"
  by (induction ms arbitrary: p) auto

lemma msg_positions_append:
  "msg_positions p (xs @ ys) = msg_positions p xs @ msg_positions (p + length (concat xs)) ys"
  by (induction xs arbitrary: p) (auto simp: add.assoc)

lemma nth_msg_positions:
  "i < length ms \<Longrightarrow> msg_positions p ms ! i = p + length (concat (take i ms))"
  by (induction ms arbitrary: p i) (auto simp: nth_Cons' take_Cons' add.assoc)

lemma messages_from_drop:
  assumes "p = take n (messages_from bs pos)"
  shows "messages_from bs (pos + length (concat p)) = drop n (messages_from bs pos)"
  using assms
proof (induction bs pos arbitrary: p n rule: messages_from.induct)
  case (1 bs pos)
  show ?case
  proof (cases "message_at bs pos")
    case None
    then show ?thesis using 1 by simp
  next
    case (Some m)
    show ?thesis
    proof (cases n)
      case 0
      then show ?thesis using 1 by simp
    next
      case (Suc n')
      let ?p = "take n' (messages_from bs (pos + length m))"
      have "messages_from bs (pos + length m + length (concat ?p)) = drop n' (messages_from bs (pos + length m))"
        using "1.IH" [OF Some, of ?p n'] by simp
      then show ?thesis using "1.prems" Some Suc by (simp add: messages_from_Some add.assoc)
    qed
  qed
qed

lemma msg_positions_at:
  assumes "ms = take n (messages_from bs pos)" and "i < length ms"
  shows "message_at bs (msg_positions pos ms ! i) = Some (ms ! i)"
proof -
  let ?all = "messages_from bs pos" and ?q = "pos + length (concat (take i ms))"
  have i: "i < length ?all" "take i ms = take i ?all" "ms ! i = ?all ! i" using assms by auto
  have rest: "messages_from bs ?q = drop i ?all" using messages_from_drop [OF i(2)] .
  then have "messages_from bs ?q \<noteq> []" using i(1) by simp
  then obtain m where m: "message_at bs ?q = Some m" by (cases "message_at bs ?q") auto
  then have "m = hd (drop i ?all)" unfolding rest [symmetric] by (simp add: messages_from_Some)
  then show ?thesis using m i assms(2) by (simp add: nth_msg_positions hd_drop_conv_nth)
qed

lemma msg_positions_messages:
  assumes "ms = take n (messages_from file pos)"
  shows "map (\<lambda>q. the (message_at file q)) (msg_positions pos ms) = ms"
  using msg_positions_at [OF assms] by (intro nth_equalityI) auto

subsection \<open>Packets\<close>

text \<open>\<open>plan skip cap ms\<close> cuts the messages \<open>ms\<close> into packets: a message that \<open>skip\<close> rejects is dropped
  when it would open a packet; a packet takes as many messages as fit in \<open>cap\<close> bytes. \<open>plan_positions\<close>
  gives the file positions of the messages that are sent.\<close>

function plan :: "(bytes \<Rightarrow> bool) \<Rightarrow> nat \<Rightarrow> bytes list \<Rightarrow> bytes list list" where
  "plan skip cap [] = []"
| "plan skip cap (m # ms) =
     (if skip m then plan skip cap ms
      else if length m \<le> cap
        then fit cap (m # ms) # plan skip cap (drop (length (fit cap (m # ms))) (m # ms))
        else [])"
  by pat_completeness auto
termination
  by (relation "measure (\<lambda>(skip, cap, ms). length ms)") auto

function plan_positions :: "(bytes \<Rightarrow> bool) \<Rightarrow> nat \<Rightarrow> nat \<Rightarrow> bytes list \<Rightarrow> nat list" where
  "plan_positions skip cap pos [] = []"
| "plan_positions skip cap pos (m # ms) =
     (if skip m then plan_positions skip cap (pos + length m) ms
      else if length m \<le> cap
        then msg_positions pos (fit cap (m # ms)) @
          plan_positions skip cap (pos + length (concat (fit cap (m # ms)))) (drop (length (fit cap (m # ms))) (m # ms))
        else [])"
  by pat_completeness auto
termination
  by (relation "measure (\<lambda>(skip, cap, pos, ms). length ms)") auto

declare plan.simps [simp del] plan_positions.simps [simp del]

text \<open>Packets numbered from \<open>n\<close> on: each carries the number of its first message.\<close>

fun numbered :: "bytes \<Rightarrow> nat \<Rightarrow> bytes list list \<Rightarrow> bytes list" where
  "numbered sess n [] = []"
| "numbered sess n (p # ps) = mold_packet sess (word_of_nat n) p # numbered sess (n + length p) ps"

lemma plan_packet:
  "p \<in> set (plan skip cap ms) \<Longrightarrow> p \<noteq> [] \<and> length (concat p) \<le> cap \<and> set p \<subseteq> set ms"
proof (induction skip cap ms rule: plan.induct)
  case (1 skip cap)
  then show ?case by (simp add: plan.simps)
next
  case (2 skip cap m ms)
  let ?p = "fit cap (m # ms)" and ?rest = "drop (length (fit cap (m # ms))) (m # ms)"
  show ?case
  proof (cases "skip m \<or> \<not> length m \<le> cap")
    case True
    then show ?thesis using 2 by (auto simp: plan.simps simp del: fit.simps split: if_splits)
  next
    case False
    then consider (here) "p = ?p" | (later) "p \<in> set (plan skip cap ?rest)"
      using "2.prems" by (auto simp add: plan.simps simp del: fit.simps)
    then show ?thesis
    proof cases
      case here
      moreover have "?p \<noteq> []" using False by simp
      ultimately show ?thesis using fit_size [of cap "m # ms"] set_fit [of cap "m # ms"] by simp
    next
      case later
      then have "p \<noteq> [] \<and> length (concat p) \<le> cap \<and> set p \<subseteq> set ?rest" using "2.IH"(2) False by simp
      then show ?thesis using subset_trans [OF _ set_drop_subset [of "length ?p" "m # ms"]] by simp
    qed
  qed
qed

lemma fit_append_drop: "fit cap ms @ drop (length (fit cap ms)) ms = ms"
  by (metis append_take_drop_id fit_prefix)

text \<open>Nothing is lost but what is passed over, and the order is kept.\<close>

lemma plan_keeps:
  assumes "\<forall>m \<in> set ms. length m \<le> cap"
  shows "filter (\<lambda>m. \<not> skip m) (concat (plan skip cap ms)) = filter (\<lambda>m. \<not> skip m) ms"
  using assms
proof (induction skip cap ms rule: plan.induct)
  case (1 skip cap)
  then show ?case by (simp add: plan.simps)
next
  case (2 skip cap m ms)
  let ?p = "fit cap (m # ms)" and ?rest = "drop (length (fit cap (m # ms))) (m # ms)"
  show ?case
  proof (cases "skip m")
    case True
    then show ?thesis using 2 by (simp add: plan.simps)
  next
    case False
    have "filter (\<lambda>m. \<not> skip m) (concat (plan skip cap ?rest)) = filter (\<lambda>m. \<not> skip m) ?rest"
      using 2 False by (auto dest: in_set_dropD)
    then have "filter (\<lambda>m. \<not> skip m) (concat (plan skip cap (m # ms))) = filter (\<lambda>m. \<not> skip m) (?p @ ?rest)"
      using False 2(3) by (simp add: plan.simps del: fit.simps)
    then show ?thesis by (simp only: fit_append_drop)
  qed
qed

text \<open>Where the messages to pass over all come first (as with non-decreasing timestamps), the replay is
  exactly the rest of the file.\<close>

definition skips_first :: "(bytes \<Rightarrow> bool) \<Rightarrow> bytes list \<Rightarrow> bool" where
  "skips_first skip ms \<longleftrightarrow> (\<forall>m \<in> set (dropWhile skip ms). \<not> skip m)"

lemma plan_no_skip:
  assumes "\<forall>m \<in> set ms. length m \<le> cap \<and> \<not> skip m"
  shows "concat (plan skip cap ms) = ms"
proof -
  have "\<forall>m \<in> set (concat (plan skip cap ms)). \<not> skip m"
    using assms plan_packet [of _ skip cap ms] by auto
  then show ?thesis using plan_keeps [of ms cap skip] assms by (simp add: filter_id_conv)
qed

lemma plan_dropWhile: "plan skip cap ms = plan skip cap (dropWhile skip ms)"
  by (induction ms) (simp_all add: plan.simps)

lemma plan_skips_first:
  assumes "\<forall>m \<in> set ms. length m \<le> cap" and "skips_first skip ms"
  shows "concat (plan skip cap ms) = dropWhile skip ms"
proof -
  have "\<forall>m \<in> set (dropWhile skip ms). length m \<le> cap \<and> \<not> skip m"
    using assms set_dropWhileD [of _ skip ms] unfolding skips_first_def by blast
  then show ?thesis using plan_no_skip plan_dropWhile [of skip cap ms] by simp
qed

lemma plan_positions_no_skip:
  assumes "\<forall>m \<in> set ms. length m \<le> cap \<and> \<not> skip m"
  shows "plan_positions skip cap pos ms = msg_positions pos ms"
  using assms
proof (induction skip cap pos ms rule: plan_positions.induct)
  case (1 skip cap pos)
  then show ?case by (simp add: plan_positions.simps)
next
  case (2 skip cap pos m ms)
  let ?p = "fit cap (m # ms)" and ?rest = "drop (length (fit cap (m # ms))) (m # ms)"
  have "plan_positions skip cap (pos + length (concat ?p)) ?rest = msg_positions (pos + length (concat ?p)) ?rest"
    using 2 by (auto dest: in_set_dropD)
  then have "plan_positions skip cap pos (m # ms) = msg_positions pos (?p @ ?rest)"
    using 2(3) by (simp add: plan_positions.simps msg_positions_append del: fit.simps)
  then show ?case by (simp only: fit_append_drop)
qed

lemma plan_positions_skips_first:
  assumes "\<forall>m \<in> set ms. length m \<le> cap" and "skips_first skip ms"
  shows "plan_positions skip cap pos ms =
    msg_positions (pos + length (concat (takeWhile skip ms))) (dropWhile skip ms)"
  using assms
proof (induction ms arbitrary: pos)
  case Nil
  then show ?case by (simp add: plan_positions.simps)
next
  case (Cons m ms)
  show ?case
  proof (cases "skip m")
    case True
    then show ?thesis using Cons by (simp add: plan_positions.simps skips_first_def add.assoc)
  next
    case False
    then show ?thesis using Cons.prems plan_positions_no_skip by (simp add: skips_first_def)
  qed
qed

subsection \<open>What a receiver decodes\<close>

fun decoded :: "bytes \<Rightarrow> nat \<Rightarrow> bytes list list \<Rightarrow> (mold_header \<times> bytes list) list" where
  "decoded sess n [] = []"
| "decoded sess n (p # ps) =
     (\<lparr>hdr_session = sess, hdr_sequence_number = word_of_nat n, hdr_message_count = word_of_nat (length p)\<rparr>,
      map (drop 2) p) # decoded sess (n + length p) ps"

lemma decoded_bodies: "concat (map snd (decoded sess n ps)) = map (drop 2) (concat ps)"
  by (induction ps arbitrary: n) auto

lemma receive_numbered:
  assumes "length sess = 10"
    and "\<forall>p \<in> set ps. p \<noteq> [] \<and> length p < 65536 \<and> (\<forall>m \<in> set p. \<exists>body. m = frame body \<and> length body < 65536)"
  shows "map (receive_packet b) (numbered sess n ps) = map Inr (decoded sess n ps)"
  using assms(2)
proof (induction ps arbitrary: n)
  case Nil
  then show ?case by simp
next
  case (Cons p ps)
  have "\<forall>m \<in> set p. m = frame (drop 2 m) \<and> length (drop 2 m) < 65536"
    using Cons.prems by (fastforce simp: frame_def)
  then have p: "p = map frame (map (drop 2) p)" "\<forall>body \<in> set (map (drop 2) p). length body < 65536"
    by (simp_all add: map_idI)
  have "receive_packet b (mold_packet sess (word_of_nat n) (map frame (map (drop 2) p))) =
    Inr (\<lparr>hdr_session = sess, hdr_sequence_number = word_of_nat n,
          hdr_message_count = word_of_nat (length (map (drop 2) p))\<rparr>, map (drop 2) p)"
    using Cons.prems by (intro receive_mold_packet [OF assms(1) p(2)]) auto
  then show ?case using Cons p(1) by simp
qed

lemma numbered_size:
  assumes "length sess = 10" and "\<forall>p \<in> set ps. length (concat p) \<le> cap" and "d \<in> set (numbered sess n ps)"
  shows "length d \<le> 20 + cap"
  using assms by (induction sess n ps rule: numbered.induct) (auto simp: length_mold_packet)

end
