(* ===== verification/Replay_Proofs.thy ===== *)
theory Replay_Proofs
  imports Downstream_Feed Schedule
begin

text \<open>
  Correctness of the downstream feed. \<open>ds_inv f posns\<close> relates a feed to the history of the messages
  it has numbered: \<open>posns\<close> lists their file positions, so message number \<open>k\<close> stands at
  \<open>posns ! (k - 1)\<close>. The invariant holds for every file, also a malformed one.

  \<open>build_packet_ok\<close> is the exact effect of building one packet; \<open>plan\<close> is the reference schedule of a
  whole replay (which messages are skipped, which go into which packet) and \<open>replay_ok\<close> shows that the
  loop sends exactly that schedule, numbered without gaps, and stops.
\<close>

subsection \<open>Invariant\<close>

definition ds_inv :: "downstream_feed \<Rightarrow> nat list \<Rightarrow> bool" where
  "ds_inv f posns \<longleftrightarrow>
     pb_inv (df_packet_builder f) \<and> df_file_pos f \<le> length (df_file f) \<and>
     rb_rep (df_retransmission_buffer f) posns \<and>
     df_sequence_number f = word_of_nat (Suc (length posns)) \<and>
     length posns \<le> df_file_pos f \<and>
     (\<forall>q \<in> set posns. message_at (df_file f) q \<noteq> None) \<and>
     length (df_file f) + rb_size (df_retransmission_buffer f) + 1 < 2 ^ 64 \<and>
     hb_inv (session (df_packet_builder f)) (df_heartbeat f)"

definition ds_same :: "downstream_feed \<Rightarrow> downstream_feed \<Rightarrow> bool" where
  "ds_same f f' \<longleftrightarrow>
     df_file f' = df_file f \<and> df_mcast_group f' = df_mcast_group f \<and>
     pb_config (df_packet_builder f') = pb_config (df_packet_builder f) \<and>
     rb_size (df_retransmission_buffer f') = rb_size (df_retransmission_buffer f) \<and>
     hb_running (df_heartbeat f') = hb_running (df_heartbeat f) \<and>
     hb_period (df_heartbeat f') = hb_period (df_heartbeat f) \<and>
     df_end_of_session_duration f' = df_end_of_session_duration f"

definition asserts_hold :: "build \<Rightarrow> downstream_feed \<Rightarrow> bool" where
  "asserts_hold b f \<longleftrightarrow>
     (\<forall>m \<in> set (messages_from (df_file f) (df_file_pos f)). admits b (pb_config (df_packet_builder f)) m)"

definition ds_capacity :: "downstream_feed \<Rightarrow> nat" where
  "ds_capacity f = pb_MTU (df_packet_builder f) - 20"

definition next_position :: "bytes \<Rightarrow> nat \<Rightarrow> nat" where
  "next_position file q = (case message_at file q of Some _ \<Rightarrow> q | None \<Rightarrow> fail_position file q)"

lemma ds_same_refl [simp]: "ds_same f f"
  by (simp add: ds_same_def)

lemma ds_same_trans: "ds_same f g \<Longrightarrow> ds_same g h \<Longrightarrow> ds_same f h"
  by (simp add: ds_same_def)

lemma ds_same_capacity: "ds_same f f' \<Longrightarrow> ds_capacity f' = ds_capacity f"
  by (simp add: ds_same_def ds_capacity_def pb_config_def)

lemma ds_same_asserts:
  "ds_same f f' \<Longrightarrow> set (messages_from (df_file f) (df_file_pos f')) \<subseteq> set (messages_from (df_file f) (df_file_pos f)) \<Longrightarrow>
   asserts_hold b f \<Longrightarrow> asserts_hold b f'"
  by (auto simp: ds_same_def asserts_hold_def)

lemma word_of_nat_Suc_add:
  "word_of_nat (Suc n) + 1 = (word_of_nat (Suc (Suc n)) :: u64)"
  by simp

lemma ds_invD:
  assumes "ds_inv f posns"
  shows "pb_inv (df_packet_builder f)" "df_file_pos f \<le> length (df_file f)"
    "rb_rep (df_retransmission_buffer f) posns"
    "df_sequence_number f = word_of_nat (Suc (length posns))"
    "length posns \<le> df_file_pos f"
    "\<forall>q \<in> set posns. message_at (df_file f) q \<noteq> None"
    "length (df_file f) + rb_size (df_retransmission_buffer f) + 1 < 2 ^ 64"
    "hb_inv (session (df_packet_builder f)) (df_heartbeat f)"
  using assms unfolding ds_inv_def by blast+

text \<open>One message taken into the packet.\<close>

lemma push_message_ok:
  assumes "ds_inv f posns" and "message_at (df_file f) (df_file_pos f) = Some m"
    and "pb_inv pb'" and "pb_config pb' = pb_config (df_packet_builder f)"
  obtains rb' f' where
    "push (df_retransmission_buffer f)
       \<lparr>rec_sequence_number = df_sequence_number f, rec_file_position = df_file_pos f\<rparr> = Inr rb'"
    and "f' = f\<lparr>df_file_pos := df_file_pos f + length m, df_packet_builder := pb',
           df_retransmission_buffer := rb', df_sequence_number := df_sequence_number f + 1\<rparr>"
    and "ds_inv f' (posns @ [df_file_pos f])" and "ds_same f f'"
proof -
  note inv = ds_invD [OF assms(1)]
  note m = message_at_SomeD [OF assms(2)]
  have "Suc (length posns) + rb_size (df_retransmission_buffer f) < 2 ^ 64"
    using inv(2,5,7) by linarith
  then obtain rb' where rb': "push (df_retransmission_buffer f)
       \<lparr>rec_sequence_number = df_sequence_number f, rec_file_position = df_file_pos f\<rparr> = Inr rb'"
    "rb_rep rb' (posns @ [df_file_pos f])" "rb_size rb' = rb_size (df_retransmission_buffer f)"
    using rb.record_ok [OF inv(3)] unfolding push_position_def inv(4) by blast
  define f' where "f' = f\<lparr>df_file_pos := df_file_pos f + length m, df_packet_builder := pb',
           df_retransmission_buffer := rb', df_sequence_number := df_sequence_number f + 1\<rparr>"
  have same: "ds_same f f'" using assms(4) rb'(3) by (simp add: ds_same_def f'_def)
  have "session pb' = session (df_packet_builder f)" using assms(4) by (simp add: pb_config_def)
  then have "ds_inv f' (posns @ [df_file_pos f])"
    unfolding ds_inv_def f'_def
    using inv m(1,2) assms(2,3) rb' by (simp add: inv(4))
  with rb' same show ?thesis using that f'_def by blast
qed

lemma messages_from_end: "length file \<le> pos \<Longrightarrow> messages_from file pos = []"
  by (simp add: message_at_def)

lemma fail_position_end: "length file \<le> pos \<Longrightarrow> fail_position file pos = pos"
  by (simp add: fail_position_def)

text \<open>One turn of the loop: the messages end, the packet is full, or a message is added, numbered and recorded.\<close>

lemma build_loop_turn:
  assumes "ds_inv f posns" and "asserts_hold b f"
  obtains (ends) "message_at (df_file f) (df_file_pos f) = None"
      and "downstream_build_loop b f = Inr (f\<lparr>df_file_pos := fail_position (df_file f) (df_file_pos f)\<rparr>)"
      and "ds_inv (f\<lparr>df_file_pos := fail_position (df_file f) (df_file_pos f)\<rparr>) posns"
  | (full) m where "message_at (df_file f) (df_file_pos f) = Some m" and "downstream_build_loop b f = Inr f"
      and "ds_capacity f < length (concat (pb_messages (df_packet_builder f))) + length m"
  | (adds) m pb' rb' f' where "message_at (df_file f) (df_file_pos f) = Some m" and "downstream_build_loop b f = downstream_build_loop b f'"
      and "length (concat (pb_messages (df_packet_builder f))) + length m \<le> ds_capacity f"
      and "f' = f\<lparr>df_file_pos := df_file_pos f + length m, df_packet_builder := pb', df_retransmission_buffer := rb',
        df_sequence_number := df_sequence_number f + 1\<rparr>"
      and "ds_inv f' (posns @ [df_file_pos f])" and "ds_same f f'" and "asserts_hold b f'"
      and "pb_messages pb' = pb_messages (df_packet_builder f) @ [m]" and "pb_sequence pb' = pb_sequence (df_packet_builder f)"
proof -
  let ?file = "df_file f" and ?pos = "df_file_pos f" and ?pb = "df_packet_builder f"
  note inv = ds_invD [OF assms(1)]
  show ?thesis
  proof (cases "message_at ?file ?pos")
    case None
    have "downstream_build_loop b f = Inr (f\<lparr>df_file_pos := fail_position ?file ?pos\<rparr>)"
      using None inv(2) by (subst downstream_build_loop.simps) (simp add: read_message_eq fail_position_end)
    then show ?thesis
      using ends None assms(1) fail_position_bounds [OF inv(2)] by (simp add: ds_inv_def)
  next
    case (Some m)
    note m = message_at_SomeD [OF Some]
    have pos: "?pos < length ?file" using m(1,2) by simp
    have rd: "read_message b ?file ?pos = Inr (m, ?pos + length m)" using Some by (simp add: read_message_eq)
    have ms: "messages_from ?file ?pos = m # messages_from ?file (?pos + length m)" using Some by (rule messages_from_Some)
    have adm: "admits b (pb_config ?pb) m" using assms(2) ms by (simp add: asserts_hold_def)
    have cap: "ds_capacity f = fst (snd (pb_config ?pb))" by (simp add: ds_capacity_def pb_config_def)
    show ?thesis
    proof (cases "length (concat (pb_messages ?pb)) + length m \<le> ds_capacity f")
      case False
      then have "try_add b ?pb m = Inr (False, ?pb)" using pb.add_full [OF inv(1)] cap by simp
      then have "downstream_build_loop b f = Inr f" using rd pos m(4) by (subst downstream_build_loop.simps) simp
      then show ?thesis using full Some False by simp
    next
      case True
      then obtain pb' where pb': "try_add b ?pb m = Inr (True, pb')" "pb_inv pb'"
        "pb_messages pb' = pb_messages ?pb @ [m]" "pb_sequence pb' = pb_sequence ?pb" "pb_config pb' = pb_config ?pb"
        using pb.add_fits [OF inv(1) m(4) adm] cap by auto
      obtain rb' f' where f': "push (df_retransmission_buffer f)
           \<lparr>rec_sequence_number = df_sequence_number f, rec_file_position = ?pos\<rparr> = Inr rb'"
        "f' = f\<lparr>df_file_pos := ?pos + length m, df_packet_builder := pb',
           df_retransmission_buffer := rb', df_sequence_number := df_sequence_number f + 1\<rparr>"
        "ds_inv f' (posns @ [?pos])" "ds_same f f'"
        using push_message_ok [OF assms(1) Some pb'(2,5)] by blast
      have "downstream_build_loop b f = downstream_build_loop b f'"
        using rd pos m(4) pb'(1) f'(1,2) by (subst downstream_build_loop.simps) simp
      moreover have "asserts_hold b f'" by (rule ds_same_asserts [OF f'(4) _ assms(2)]) (auto simp: f'(2) ms)
      ultimately show ?thesis using adds [OF Some _ True f'(2-4)] pb'(3,4) by blast
    qed
  qed
qed

text \<open>What the loop does from \<open>f\<close> to \<open>f'\<close>: \<open>ms\<close> are added, numbered and recorded.\<close>

definition built :: "downstream_feed \<Rightarrow> nat list \<Rightarrow> bytes list \<Rightarrow> downstream_feed \<Rightarrow> bool" where
  "built f posns ms f' \<longleftrightarrow>
     ds_inv f' (posns @ msg_positions (df_file_pos f) ms) \<and> ds_same f f' \<and>
     pb_messages (df_packet_builder f') = pb_messages (df_packet_builder f) @ ms \<and>
     pb_sequence (df_packet_builder f') = pb_sequence (df_packet_builder f) \<and>
     df_file_pos f' = next_position (df_file f) (df_file_pos f + length (concat ms)) \<and>
     df_pacer f' = df_pacer f \<and> df_sent_sequence_number f' = df_sent_sequence_number f"

lemma build_loop_ok:
  assumes "ds_inv f posns" and "asserts_hold b f"
  shows "\<exists>f'. downstream_build_loop b f = Inr f' \<and> built f posns
    (fit (ds_capacity f - length (concat (pb_messages (df_packet_builder f)))) (messages_from (df_file f) (df_file_pos f))) f'"
  using assms
proof (induction "length (df_file f) - df_file_pos f" arbitrary: f posns rule: less_induct)
  case less
  let ?room = "\<lambda>f. ds_capacity f - length (concat (pb_messages (df_packet_builder f)))"
  let ?ms = "\<lambda>f. messages_from (df_file f) (df_file_pos f)"
  from less.prems show ?case
  proof (cases rule: build_loop_turn)
    case ends
    then show ?thesis by (simp add: built_def next_position_def ds_same_def)
  next
    case (full m)
    moreover have "length (concat (pb_messages (df_packet_builder f))) \<le> ds_capacity f"
      using pb.within [OF ds_invD(1) [OF less.prems(1)]] by (simp add: ds_capacity_def pb_config_def)
    ultimately have "fit (?room f) (?ms f) = []" by (auto simp: messages_from_Some)
    then show ?thesis using full less.prems(1) by (simp add: built_def next_position_def)
  next
    case (adds m pb' rb' f')
    note m = message_at_SomeD [OF adds(1)]
    have "length (df_file f') - df_file_pos f' < length (df_file f) - df_file_pos f" using m(1,2) by (simp add: adds(4))
    from less.hyps [OF this adds(5,7)] obtain f'' where f'': "downstream_build_loop b f' = Inr f''"
      "built f' (posns @ [df_file_pos f]) (fit (?room f') (?ms f')) f''" by blast
    have "ds_capacity f' = ds_capacity f" using adds(6) by (rule ds_same_capacity)
    then have "fit (?room f) (?ms f) = m # fit (?room f') (?ms f')"
      using adds(3,8) messages_from_Some [OF adds(1)] by (simp add: adds(4) diff_diff_add)
    then show ?thesis
      using f'' adds(2,6,8,9) ds_same_trans by (auto simp: built_def adds(4) add.assoc)
  qed
qed

subsection \<open>One packet\<close>

lemma build_packet_ok:
  assumes "ds_inv f posns" and "asserts_hold b f"
    and "ms = fit (ds_capacity f) (messages_from (df_file f) (df_file_pos f))"
  obtains f' where "downstream_build_packet b f = Inr f'"
    and "ds_inv f' (posns @ msg_positions (df_file_pos f) ms)" and "ds_same f f'"
    and "pb_messages (df_packet_builder f') = ms"
    and "pb_sequence (df_packet_builder f') = df_sequence_number f"
    and "df_file_pos f' = next_position (df_file f) (df_file_pos f + length (concat ms))"
    and "df_pacer f' = df_pacer f" and "df_sent_sequence_number f' = df_sent_sequence_number f"
proof -
  note inv = ds_invD [OF assms(1)]
  obtain pb where pb: "reset b (df_packet_builder f) (df_sequence_number f) = Inr pb" "pb_inv pb"
    "pb_messages pb = []" "pb_sequence pb = df_sequence_number f" "pb_config pb = pb_config (df_packet_builder f)"
    using pb.start_ok [OF inv(1)] by blast
  define f1 where "f1 = f\<lparr>df_packet_builder := pb\<rparr>"
  have "session pb = session (df_packet_builder f)" using pb(5) by (simp add: pb_config_def)
  then have f1: "ds_inv f1 posns" using assms(1) pb(2) by (simp add: ds_inv_def f1_def)
  have same: "ds_same f f1" using pb(5) by (simp add: ds_same_def f1_def)
  have fields: "df_file f1 = df_file f" "df_file_pos f1 = df_file_pos f" "df_packet_builder f1 = pb"
    "df_pacer f1 = df_pacer f" "df_sent_sequence_number f1 = df_sent_sequence_number f"
    by (simp_all add: f1_def)
  have ms: "ms = fit (ds_capacity f1 - length (concat (pb_messages (df_packet_builder f1))))
      (messages_from (df_file f1) (df_file_pos f1))"
    using assms(3) pb(3) ds_same_capacity [OF same] by (simp add: fields)
  have asserts: "asserts_hold b f1" by (rule ds_same_asserts [OF same _ assms(2)]) (simp add: fields)
  obtain f' where "downstream_build_loop b f1 = Inr f'"
    "ds_inv f' (posns @ msg_positions (df_file_pos f) ms)" "ds_same f1 f'"
    "pb_messages (df_packet_builder f') = ms" "pb_sequence (df_packet_builder f') = df_sequence_number f"
    "df_file_pos f' = next_position (df_file f) (df_file_pos f + length (concat ms))"
    "df_pacer f' = df_pacer f" "df_sent_sequence_number f' = df_sent_sequence_number f"
    using build_loop_ok [OF f1 asserts, folded ms] pb(3,4) unfolding built_def fields by auto
  then show ?thesis
    using that pb(1) ds_same_trans [OF same] by (simp add: downstream_build_packet_def f1_def)
qed

lemma send_packet_ok:
  assumes "ds_inv f posns"
  obtains f' evs t' where "downstream_send_packet b e t f = Inr (f', evs, t')" and "ds_inv f' posns"
    and "ds_same f f'" and "df_sent_sequence_number f' = df_sequence_number f"
    and "df_sequence_number f' = df_sequence_number f" and "df_file_pos f' = df_file_pos f"
    and "df_pacer f' = df_pacer f"
    and "datagrams evs = (if debug_no_network b then [] else
      [mold_packet (session (df_packet_builder f)) (pb_sequence (df_packet_builder f)) (pb_messages (df_packet_builder f))])"
proof -
  note inv = ds_invD [OF assms]
  obtain pb' where pb': "finalize b (df_packet_builder f) = Inr (pb_iovecs (df_packet_builder f), pb')"
    "pb_inv pb'" "session pb' = session (df_packet_builder f)" "pb_MTU pb' = pb_MTU (df_packet_builder f)"
    "pb_min_message_size pb' = pb_min_message_size (df_packet_builder f)"
    "packet_bytes pb' (pb_iovecs (df_packet_builder f)) =
      mold_packet (session (df_packet_builder f)) (pb_sequence (df_packet_builder f)) (pb_messages (df_packet_builder f))"
    using finalize_ok [OF inv(1), of b] by metis
  define f' where "f' = f\<lparr>df_packet_builder := pb', df_sent_sequence_number := df_sequence_number f\<rparr>"
  have "ds_inv f' posns" using assms pb'(2,3) by (simp add: ds_inv_def f'_def)
  moreover have "ds_same f f'" using pb'(3-5) by (simp add: ds_same_def f'_def pb_config_def)
  moreover have "\<exists>evs t'. downstream_send_packet b e t f = Inr (f', evs, t') \<and>
      datagrams evs = (if debug_no_network b then [] else
        [mold_packet (session (df_packet_builder f)) (pb_sequence (df_packet_builder f)) (pb_messages (df_packet_builder f))])"
    using pb'(1,6) by (simp add: downstream_send_packet_def Let_def f'_def)
  ultimately show ?thesis using that by (auto simp: f'_def)
qed

text \<open>What the pause asks of the environment: nothing when it is compiled out, a clock and a playback
  speed in range otherwise.\<close>

definition pause_ok :: "build \<Rightarrow> env \<Rightarrow> downstream_feed \<Rightarrow> bool" where
  "pause_ok b e f \<longleftrightarrow> debug_no_sleep b \<or> paced e (df_pacer f)"

lemma downstream_pause_ok:
  assumes "ds_inv f posns" and "pause_ok b e f" and "0 \<le> ts" and "ts < 2 ^ 48"
  obtains p' evs t' where "downstream_pause b e t f ts = Inr (f\<lparr>df_pacer := p'\<rparr>, evs, t')"
    and "pause_ok b e (f\<lparr>df_pacer := p'\<rparr>)" and "datagrams evs = []"
    and "pacer_skip_before p' = pacer_skip_before (df_pacer f)"
proof (cases "debug_no_sleep b")
  case True
  then show ?thesis using that [of "df_pacer f" "[]" t] assms(2) by (simp add: downstream_pause_def pause_ok_def)
next
  case False
  then have "paced e (df_pacer f)" using assms(2) by (simp add: pause_ok_def)
  then obtain d p' t' where d: "get_delay e t (df_pacer f) ts = Inr (d, p', t')" "paced e p'"
    using get_delay_paced assms(3,4) by blast
  then show ?thesis
    using that [of p' "[Slept d]" t'] False get_delay_config(1) [OF d(1)]
    by (simp add: downstream_pause_def pause_ok_def)
qed

subsection \<open>The timestamp of the next message\<close>

definition msg_timestamp :: "bytes \<Rightarrow> int" where
  "msg_timestamp m = int (be_val (segment m 7 6))"

lemma msg_timestamp_range: "13 \<le> length m \<Longrightarrow> 0 \<le> msg_timestamp m \<and> msg_timestamp m < 2 ^ 48"
  using be_val_less [of "segment m 7 6"] by (simp add: msg_timestamp_def)

lemma peek_timestamp_message:
  assumes "native b = Little" and "message_at file pos = Some m" and "13 \<le> length m"
  shows "peek_timestamp b (segment file pos (length file - pos)) = Inr (Some (msg_timestamp m))"
proof -
  note m = message_at_SomeD [OF assms(2)]
  define rest where "rest = segment file pos (length file - pos)"
  have len: "13 \<le> length rest" using m(2) assms(3) by (simp add: rest_def)
  have "segment (segment rest 2 (length rest - 2)) 5 6 = segment file (pos + 7) 6"
    using len by (simp add: segment_segment rest_def add.commute)
  moreover have "segment m 7 6 = segment file (pos + 7) 6"
    by (subst m(3)) (use assms(3) in \<open>simp add: segment_segment\<close>)
  ultimately show ?thesis
    using len by (simp add: peek_timestamp_def subspan_def extract_timestamp_little [OF assms(1)]
        msg_timestamp_def flip: rest_def)
qed

lemma next_position_framed:
  assumes "q + length (concat (messages_from file q)) = length file"
  shows "next_position file q = q"
  using assms by (cases "message_at file q") (simp_all add: next_position_def fail_position_end)

subsection \<open>One turn of the replay loop\<close>

definition skips :: "downstream_feed \<Rightarrow> bytes \<Rightarrow> bool" where
  "skips f m \<longleftrightarrow> msg_timestamp m < pacer_skip_before (df_pacer f)"

lemma iteration_skip:
  assumes "native b = Little" and "message_at (df_file f) (df_file_pos f) = Some m" and "13 \<le> length m"
    and "\<not> stop_requested_at e t" and "skips f m"
  shows "downstream_iteration b e t f = Inr (Continue, f\<lparr>df_file_pos := df_file_pos f + length m\<rparr>, [], Suc t)"
proof -
  note m = message_at_SomeD [OF assms(2)]
  have "df_file_pos f < length (df_file f)" using m(1,2) by simp
  then show ?thesis
    using assms(2,4,5) peek_timestamp_message [OF assms(1-3)]
    by (simp add: downstream_iteration_def subspan_def should_skip_def skip_message_eq skips_def)
qed

text \<open>Building, pausing and sending, for any timestamp.\<close>

lemma packet_turn:
  assumes "ds_inv f posns" and "asserts_hold b f" and "pause_ok b e f" and "0 \<le> ts" and "ts < 2 ^ 48"
    and "ms = fit (ds_capacity f) (messages_from (df_file f) (df_file_pos f))"
  obtains f' evs t' where "andThen (downstream_build_packet b f) (\<lambda>f1.
      andThen (downstream_pause b e (Suc t) f1 ts) (\<lambda>(f2, evs2, t2).
      andThen (downstream_send_packet b e t2 f2) (\<lambda>(f3, evs3, t3).
      Inr (Continue, f3, evs2 @ evs3, t3)))) = Inr (Continue, f', evs, t')"
    and "ds_inv f' (posns @ msg_positions (df_file_pos f) ms)" and "ds_same f f'"
    and "df_file_pos f' = next_position (df_file f) (df_file_pos f + length (concat ms))"
    and "datagrams evs = (if debug_no_network b then [] else
      [mold_packet (session (df_packet_builder f)) (df_sequence_number f) ms])"
    and "df_sent_sequence_number f' = df_sequence_number f'" and "pause_ok b e f'"
    and "pacer_skip_before (df_pacer f') = pacer_skip_before (df_pacer f)"
proof -
  obtain f1 where f1: "downstream_build_packet b f = Inr f1"
    "ds_inv f1 (posns @ msg_positions (df_file_pos f) ms)" "ds_same f f1"
    "pb_messages (df_packet_builder f1) = ms" "pb_sequence (df_packet_builder f1) = df_sequence_number f"
    "df_file_pos f1 = next_position (df_file f) (df_file_pos f + length (concat ms))" "df_pacer f1 = df_pacer f"
    using build_packet_ok [OF assms(1,2,6)] by metis
  have "pause_ok b e f1" using assms(3) f1(7) by (simp add: pause_ok_def)
  then obtain p' evs2 t2 where p: "downstream_pause b e (Suc t) f1 ts = Inr (f1\<lparr>df_pacer := p'\<rparr>, evs2, t2)"
    "pause_ok b e (f1\<lparr>df_pacer := p'\<rparr>)" "datagrams evs2 = []" "pacer_skip_before p' = pacer_skip_before (df_pacer f)"
    using downstream_pause_ok [OF f1(2) _ assms(4,5)] f1(7) by metis
  define f2 where "f2 = f1\<lparr>df_pacer := p'\<rparr>"
  have f2: "ds_inv f2 (posns @ msg_positions (df_file_pos f) ms)" "ds_same f f2"
    using f1(2,3) by (simp_all add: f2_def ds_inv_def ds_same_def)
  have sess: "session (df_packet_builder f2) = session (df_packet_builder f)"
    using f2(2) by (simp add: ds_same_def pb_config_def)
  obtain f3 evs3 t3 where f3: "downstream_send_packet b e t2 f2 = Inr (f3, evs3, t3)"
    "ds_inv f3 (posns @ msg_positions (df_file_pos f) ms)" "ds_same f2 f3"
    "df_sent_sequence_number f3 = df_sequence_number f2" "df_sequence_number f3 = df_sequence_number f2"
    "df_file_pos f3 = df_file_pos f2" "df_pacer f3 = df_pacer f2"
    "datagrams evs3 = (if debug_no_network b then [] else
      [mold_packet (session (df_packet_builder f2)) (pb_sequence (df_packet_builder f2)) (pb_messages (df_packet_builder f2))])"
    using send_packet_ok [OF f2(1), of b e t2] by metis
  have "andThen (downstream_build_packet b f) (\<lambda>f1.
      andThen (downstream_pause b e (Suc t) f1 ts) (\<lambda>(f2, evs2, t2).
      andThen (downstream_send_packet b e t2 f2) (\<lambda>(f3, evs3, t3).
      Inr (Continue, f3, evs2 @ evs3, t3)))) = Inr (Continue, f3, evs2 @ evs3, t3)"
    using f1(1) p(1) f3(1) by (simp add: f2_def)
  moreover have "datagrams (evs2 @ evs3) = (if debug_no_network b then [] else
      [mold_packet (session (df_packet_builder f)) (df_sequence_number f) ms])"
    using p(3) f3(8) sess f1(4,5) by (simp add: f2_def)
  moreover have "pause_ok b e f3" "pacer_skip_before (df_pacer f3) = pacer_skip_before (df_pacer f)"
    using p(2,4) f3(7) by (simp_all add: f2_def pause_ok_def)
  ultimately show ?thesis
    using that f3(2,4-6) ds_same_trans [OF f2(2) f3(3)] f1(6) by (simp add: f2_def)
qed

lemma iteration_packet:
  assumes "ds_inv f posns" and "asserts_hold b f" and "pause_ok b e f"
    and "native b = Little" and "message_at (df_file f) (df_file_pos f) = Some m" and "13 \<le> length m"
    and "\<not> stop_requested_at e t" and "\<not> skips f m"
    and "ms = fit (ds_capacity f) (messages_from (df_file f) (df_file_pos f))"
  obtains f' evs t' where "downstream_iteration b e t f = Inr (Continue, f', evs, t')"
    and "ds_inv f' (posns @ msg_positions (df_file_pos f) ms)" and "ds_same f f'"
    and "df_file_pos f' = next_position (df_file f) (df_file_pos f + length (concat ms))"
    and "datagrams evs = (if debug_no_network b then [] else
      [mold_packet (session (df_packet_builder f)) (df_sequence_number f) ms])"
    and "df_sent_sequence_number f' = df_sequence_number f'" and "pause_ok b e f'"
    and "pacer_skip_before (df_pacer f') = pacer_skip_before (df_pacer f)"
proof -
  note m = message_at_SomeD [OF assms(5)]
  have pos: "df_file_pos f < length (df_file f)" using m(1,2) by simp
  have ts: "0 \<le> msg_timestamp m" "msg_timestamp m < 2 ^ 48" using msg_timestamp_range [OF assms(6)] by auto
  have "downstream_iteration b e t f = andThen (downstream_build_packet b f) (\<lambda>f1.
      andThen (downstream_pause b e (Suc t) f1 (msg_timestamp m)) (\<lambda>(f2, evs2, t2).
      andThen (downstream_send_packet b e t2 f2) (\<lambda>(f3, evs3, t3).
      Inr (Continue, f3, evs2 @ evs3, t3))))"
    using pos assms(7,8) peek_timestamp_message [OF assms(4-6)]
    by (simp add: downstream_iteration_def subspan_def should_skip_def skips_def)
  then show ?thesis using packet_turn [OF assms(1-3) ts assms(9), of t] that by metis
qed

subsection \<open>The whole replay of a well-formed file\<close>

definition well_framed :: "downstream_feed \<Rightarrow> bool" where
  "well_framed f \<longleftrightarrow>
     (let ms = messages_from (df_file f) (df_file_pos f) in
      df_file_pos f + length (concat ms) = length (df_file f) \<and>
      (\<forall>m \<in> set ms. 13 \<le> length m \<and> length m \<le> ds_capacity f))"

lemma well_framed_drop:
  assumes "well_framed f" and "ds_same f f'"
    and "p = take n (messages_from (df_file f) (df_file_pos f))"
    and "df_file_pos f' = df_file_pos f + length (concat p)"
  shows "well_framed f'"
proof -
  have "messages_from (df_file f') (df_file_pos f') = drop n (messages_from (df_file f) (df_file_pos f))"
    using messages_from_drop [OF assms(3)] assms(2,4) by (simp add: ds_same_def)
  moreover have "length (concat (messages_from (df_file f) (df_file_pos f))) =
      length (concat p) + length (concat (drop n (messages_from (df_file f) (df_file_pos f))))"
    unfolding assms(3) by (metis append_take_drop_id concat_append length_append)
  ultimately show ?thesis
    using assms(1,2,4) ds_same_capacity [OF assms(2)] in_set_dropD
    unfolding well_framed_def Let_def ds_same_def by fastforce
qed

text \<open>What a replay needs of its state and environment, and the result it promises.\<close>

definition replay_ready :: "build \<Rightarrow> env \<Rightarrow> downstream_feed \<Rightarrow> nat list \<Rightarrow> bool" where
  "replay_ready b e f posns \<longleftrightarrow>
     ds_inv f posns \<and> asserts_hold b f \<and> pause_ok b e f \<and> well_framed f \<and>
     native b = Little \<and> \<not> debug_no_network b \<and> (\<forall>t. \<not> stop_requested_at e t)"

definition replay_plan :: "downstream_feed \<Rightarrow> bytes list list" where
  "replay_plan f = plan (skips f) (ds_capacity f) (messages_from (df_file f) (df_file_pos f))"

definition replay_positions :: "downstream_feed \<Rightarrow> nat list" where
  "replay_positions f =
     plan_positions (skips f) (ds_capacity f) (df_file_pos f) (messages_from (df_file f) (df_file_pos f))"

definition replayed ::
  "downstream_feed \<Rightarrow> nat list \<Rightarrow> bytes list list \<Rightarrow> nat list \<Rightarrow> downstream_feed \<Rightarrow> out_event list \<Rightarrow> bool" where
  "replayed f posns pl ps f' evs \<longleftrightarrow>
     datagrams evs = numbered (session (df_packet_builder f)) (Suc (length posns)) pl \<and>
     df_file_pos f' = length (df_file f) \<and> ds_same f f' \<and>
     ds_inv f' (posns @ ps) \<and> map (\<lambda>q. the (message_at (df_file f) q)) ps = concat pl \<and>
     (pl = [] \<and> df_sent_sequence_number f' = df_sent_sequence_number f \<and>
        df_sequence_number f' = df_sequence_number f \<or>
      df_sent_sequence_number f' = df_sequence_number f')"

lemma replay_readyD:
  assumes "replay_ready b e f posns"
  shows "ds_inv f posns" "asserts_hold b f" "pause_ok b e f" "well_framed f" "native b = Little"
    "\<not> debug_no_network b" "\<not> stop_requested_at e t"
  using assms by (auto simp: replay_ready_def)

lemma well_framedD:
  assumes "well_framed f"
  shows "df_file_pos f + length (concat (messages_from (df_file f) (df_file_pos f))) = length (df_file f)"
    and "m \<in> set (messages_from (df_file f) (df_file_pos f)) \<Longrightarrow> 13 \<le> length m \<and> length m \<le> ds_capacity f"
  using assms by (simp_all add: well_framed_def Let_def)

lemma replay_skip_step:
  assumes "replay_ready b e f posns" and "message_at (df_file f) (df_file_pos f) = Some m" and "skips f m"
  obtains f1 where "downstream_iteration b e t f = Inr (Continue, f1, [], Suc t)"
    and "replay_ready b e f1 posns" and "replay_plan f1 = replay_plan f" and "replay_positions f1 = replay_positions f"
    and "messages_from (df_file f) (df_file_pos f) = m # messages_from (df_file f1) (df_file_pos f1)"
    and "\<And>pl ps f' evs. replayed f1 posns pl ps f' evs \<Longrightarrow> replayed f posns pl ps f' evs" and "ds_same f f1"
proof -
  note r = replay_readyD [OF assms(1)]
  have ms: "messages_from (df_file f) (df_file_pos f) = m # messages_from (df_file f) (df_file_pos f + length m)"
    using assms(2) by (rule messages_from_Some)
  have len: "13 \<le> length m" using well_framedD(2) [OF r(4), of m] ms by simp
  define f1 where "f1 = f\<lparr>df_file_pos := df_file_pos f + length m\<rparr>"
  have same: "ds_same f f1" by (simp add: f1_def ds_same_def)
  have "ds_inv f1 posns" "pause_ok b e f1" "skips f1 = skips f"
    using r(1,3) message_at_SomeD(2) [OF assms(2)]
    by (simp_all add: f1_def ds_inv_def pause_ok_def skips_def fun_eq_iff)
  moreover have "well_framed f1"
    by (rule well_framed_drop [OF r(4) same, of "[m]" 1]) (simp_all add: ms f1_def)
  moreover have "asserts_hold b f1" using r(2) by (auto simp: asserts_hold_def f1_def ms)
  ultimately have "replay_ready b e f1 posns" "replay_plan f1 = replay_plan f"
    "replay_positions f1 = replay_positions f"
    using assms(1,3) ms ds_same_capacity [OF same]
    by (simp_all add: replay_ready_def replay_plan_def replay_positions_def plan.simps plan_positions.simps f1_def)
  moreover have "downstream_iteration b e t f = Inr (Continue, f1, [], Suc t)"
    unfolding f1_def using iteration_skip [OF r(5) assms(2) len r(7) assms(3)] .
  moreover have "replayed f posns pl ps f' evs" if "replayed f1 posns pl ps f' evs" for pl ps f' evs
    using that ds_same_trans [OF same] by (simp add: replayed_def f1_def)
  ultimately show ?thesis using that ms same by (simp add: f1_def)
qed

lemma replayed_packet:
  assumes "replayed f1 (posns @ msg_positions (df_file_pos f) p) pl ps f' evs"
    and "p = take n (messages_from (df_file f) (df_file_pos f))" and "ds_same f f1"
    and "df_sequence_number f = word_of_nat (Suc (length posns))"
    and "df_sent_sequence_number f1 = df_sequence_number f1"
    and "datagrams evs1 = [mold_packet (session (df_packet_builder f)) (df_sequence_number f) p]"
  shows "replayed f posns (p # pl) (msg_positions (df_file_pos f) p @ ps) f' (evs1 @ evs)"
proof -
  have f1: "df_file f1 = df_file f" "session (df_packet_builder f1) = session (df_packet_builder f)"
    using assms(3) by (simp_all add: ds_same_def pb_config_def)
  have "map (\<lambda>q. the (message_at (df_file f) q)) (msg_positions (df_file_pos f) p @ ps) = concat (p # pl)"
    using assms(1) msg_positions_messages [OF assms(2)] f1(1) by (simp add: replayed_def)
  then show ?thesis
    using assms f1 ds_same_trans [OF assms(3)] by (auto simp: replayed_def)
qed

lemma replay_packet_step:
  assumes "replay_ready b e f posns" and "message_at (df_file f) (df_file_pos f) = Some m" and "\<not> skips f m"
  obtains f1 evs1 t1 p posns1 where "downstream_iteration b e t f = Inr (Continue, f1, evs1, t1)"
    and "replay_ready b e f1 posns1" and "replay_plan f = p # replay_plan f1"
    and "replay_positions f = msg_positions (df_file_pos f) p @ replay_positions f1"
    and "length (messages_from (df_file f1) (df_file_pos f1)) < length (messages_from (df_file f) (df_file_pos f))"
    and "\<And>pl ps f' evs. replayed f1 posns1 pl ps f' evs \<Longrightarrow>
          replayed f posns (p # pl) (msg_positions (df_file_pos f) p @ ps) f' (evs1 @ evs)"
    and "posns1 = posns @ msg_positions (df_file_pos f) p" and "ds_same f f1"
    and "datagrams evs1 = [mold_packet (session (df_packet_builder f)) (df_sequence_number f) p]"
proof -
  let ?ms = "messages_from (df_file f) (df_file_pos f)"
  note r = replay_readyD [OF assms(1)]
  have ms: "?ms = m # messages_from (df_file f) (df_file_pos f + length m)"
    using assms(2) by (rule messages_from_Some)
  have len: "13 \<le> length m" "length m \<le> ds_capacity f" using well_framedD(2) [OF r(4), of m] ms by simp_all
  define p where "p = fit (ds_capacity f) ?ms"
  have pfx: "p = take (length p) ?ms" unfolding p_def by (rule fit_prefix)
  have "p \<noteq> []" unfolding p_def ms using len(2) by simp
  obtain f1 evs1 t1 where f1: "downstream_iteration b e t f = Inr (Continue, f1, evs1, t1)"
    "ds_inv f1 (posns @ msg_positions (df_file_pos f) p)" "ds_same f f1"
    "df_file_pos f1 = next_position (df_file f) (df_file_pos f + length (concat p))"
    "datagrams evs1 = [mold_packet (session (df_packet_builder f)) (df_sequence_number f) p]"
    "df_sent_sequence_number f1 = df_sequence_number f1" "pause_ok b e f1"
    "pacer_skip_before (df_pacer f1) = pacer_skip_before (df_pacer f)"
    using iteration_packet [OF r(1-3,5) assms(2) len(1) r(7) assms(3) p_def] r(6) by metis
  have rest: "messages_from (df_file f) (df_file_pos f + length (concat p)) = drop (length p) ?ms"
    using messages_from_drop [OF pfx] .
  have "length (concat ?ms) = length (concat p) + length (concat (drop (length p) ?ms))"
    by (subst (1) pfx) (metis append_take_drop_id concat_append length_append)
  then have pos1: "df_file_pos f1 = df_file_pos f + length (concat p)"
    unfolding f1(4) using well_framedD(1) [OF r(4)] rest by (intro next_position_framed) simp
  have f1_file: "df_file f1 = df_file f" and f1_skips: "skips f1 = skips f"
    using f1(3,8) by (simp_all add: ds_same_def skips_def fun_eq_iff)
  have "replay_plan f = p # replay_plan f1"
    "replay_positions f = msg_positions (df_file_pos f) p @ replay_positions f1"
    unfolding replay_plan_def replay_positions_def pos1 f1_file rest f1_skips ds_same_capacity [OF f1(3)]
    unfolding p_def using assms(3) len(2) by (simp_all add: ms plan.simps plan_positions.simps)
  moreover have "replay_ready b e f1 (posns @ msg_positions (df_file_pos f) p)"
    using assms(1) f1(2,7) well_framed_drop [OF r(4) f1(3) pfx pos1] ds_same_asserts [OF f1(3) _ r(2)]
      set_drop_subset [of "length p" ?ms] by (simp add: replay_ready_def pos1 rest)
  moreover have "length (messages_from (df_file f1) (df_file_pos f1)) < length ?ms"
    using \<open>p \<noteq> []\<close> ms unfolding pos1 f1_file rest by (cases p) auto
  ultimately show ?thesis
    using that f1(1,3,5) replayed_packet [OF _ pfx f1(3) ds_invD(4) [OF r(1)] f1(6,5)] by blast
qed

lemma replay_ok:
  assumes "replay_ready b e f posns" and "length (messages_from (df_file f) (df_file_pos f)) < fuel"
  shows "\<exists>f' evs t'. downstream_replay fuel b e t f = Some (Inr (f', evs, t')) \<and>
    replayed f posns (replay_plan f) (replay_positions f) f' evs"
  using assms
proof (induction fuel arbitrary: f posns t)
  case 0
  then show ?case by simp
next
  case (Suc fuel)
  note r = replay_readyD [OF Suc.prems(1)]
  show ?case
  proof (cases "message_at (df_file f) (df_file_pos f)")
    case None
    then have "df_file_pos f = length (df_file f)" using well_framedD(1) [OF r(4)] by simp
    moreover from this have "downstream_iteration b e t f = Inr (Break, f, [], t)"
      by (simp add: downstream_iteration_def)
    ultimately show ?thesis
      using None r(1) by (auto simp: replayed_def replay_plan_def replay_positions_def plan.simps plan_positions.simps)
  next
    case (Some m)
    show ?thesis
    proof (cases "skips f m")
      case True
      then obtain f1 where f1: "downstream_iteration b e t f = Inr (Continue, f1, [], Suc t)"
        "replay_ready b e f1 posns" "replay_plan f1 = replay_plan f" "replay_positions f1 = replay_positions f"
        "messages_from (df_file f) (df_file_pos f) = m # messages_from (df_file f1) (df_file_pos f1)"
        "\<And>pl ps f' evs. replayed f1 posns pl ps f' evs \<Longrightarrow> replayed f posns pl ps f' evs"
        using replay_skip_step [OF Suc.prems(1) Some] by metis
      then show ?thesis using Suc.IH [OF f1(2), of "Suc t"] Suc.prems(2) by fastforce
    next
      case False
      then obtain f1 evs1 t1 p posns1 where f1: "downstream_iteration b e t f = Inr (Continue, f1, evs1, t1)"
        "replay_ready b e f1 posns1" "replay_plan f = p # replay_plan f1"
        "replay_positions f = msg_positions (df_file_pos f) p @ replay_positions f1"
        "length (messages_from (df_file f1) (df_file_pos f1)) < length (messages_from (df_file f) (df_file_pos f))"
        "\<And>pl ps f' evs. replayed f1 posns1 pl ps f' evs \<Longrightarrow>
          replayed f posns (p # pl) (msg_positions (df_file_pos f) p @ ps) f' (evs1 @ evs)"
        using replay_packet_step [OF Suc.prems(1) Some] by metis
      then show ?thesis using Suc.IH [OF f1(2), of t1] Suc.prems(2) by fastforce
    qed
  qed
qed

lemma length_replay_positions:
  assumes "replay_ready b e f posns"
  shows "length (replay_positions f) = length (concat (replay_plan f))"
proof -
  obtain f1 evs1 where "replayed f posns (replay_plan f) (replay_positions f) f1 evs1"
    using replay_ok [OF assms lessI] by blast
  then show ?thesis by (auto simp: replayed_def dest!: arg_cong [where f = length])
qed

end
