(* ===== verification/Session.thy ===== *)
theory Session
  imports Replay_Proofs
begin

text \<open>
  A whole downstream session: the constructor establishes what the replay needs, the end-of-session
  loop ends when the clock has passed the configured duration or a stop is requested, and
  \<open>downstream_start\<close> is the replay followed by end-of-session packets. The lemmas on fuel say that more
  fuel never changes a result, so a fuel that is enough names the result of the loop.
\<close>

subsection \<open>Construction\<close>

definition sockets_ok :: "socket_env \<Rightarrow> downstream_config \<Rightarrow> bool" where
  "sockets_ok s cfg \<longleftrightarrow>
     0 \<le> socket_ret s \<and> 0 \<le> reuseaddr_ret s \<and> 0 \<le> ttl_ret s \<and> 0 < fst (inet_pton s (dc_mcast_group cfg)) \<and>
     (dc_loopback cfg \<longrightarrow> 0 \<le> loop_ret s) \<and> 0 \<le> multicast_if_ret s"

definition pb_cfg_ok :: "packet_builder_config \<Rightarrow> bool" where
  "pb_cfg_ok c \<longleftrightarrow> 20 \<le> cfg_MTU c \<and> length (cfg_session c) = 10 \<and> 0 < cfg_min_message_size c"

lemma downstream_configure_socket_ok:
  assumes "sockets_ok s cfg"
  shows "downstream_configure_socket s cfg = Inr \<lparr>sin_family = AF_INET, sin_port = byteswap (dc_port cfg),
    sin_addr = snd (inet_pton s (dc_mcast_group cfg))\<rparr>"
  using assms by (auto simp: sockets_ok_def downstream_configure_socket_def split: prod.split)

lemma downstream_feed_new_ok:
  assumes "sockets_ok s cfg" and "pb_cfg_ok pb_cfg" and "rb_rep rb []"
    and "length bs + rb_size rb + 1 < 2 ^ 64"
  obtains f where "downstream_feed_new b s cfg pb_cfg bs rb = Inr f" and "ds_inv f []"
    and "df_file f = bs" and "df_file_pos f = 0" and "df_sequence_number f = 1"
    and "pb_config (df_packet_builder f) = (cfg_session pb_cfg, cfg_MTU pb_cfg - 20, cfg_min_message_size pb_cfg)"
    and "df_pacer f = pacer_new (dc_pacer_cfg cfg)" and "\<not> hb_running (df_heartbeat f)"
    and "df_end_of_session_duration f = dc_end_of_session_duration cfg"
proof -
  let ?addr = "\<lparr>sin_family = AF_INET, sin_port = byteswap (dc_port cfg),
    sin_addr = snd (inet_pton s (dc_mcast_group cfg))\<rparr>"
  obtain pb where pb: "packet_builder_new b pb_cfg = Inr pb" "pb_inv pb" "session pb = cfg_session pb_cfg"
    "pb_MTU pb = cfg_MTU pb_cfg" "pb_min_message_size pb = cfg_min_message_size pb_cfg"
    using packet_builder_new_ok assms(2) unfolding pb_cfg_ok_def by metis
  obtain hb where hb: "heartbeat_new b (dc_heartbeat_period cfg) ?addr (cfg_session pb_cfg) = Inr hb"
    "hb_inv (cfg_session pb_cfg) hb" "\<not> hb_running hb"
    using heartbeat_new_ok assms(2) unfolding pb_cfg_ok_def by metis
  have "0 \<le> socket_ret s" using assms(1) by (simp add: sockets_ok_def)
  then show ?thesis
    using that assms(3,4) pb hb downstream_configure_socket_ok [OF assms(1)]
    by (simp add: downstream_feed_new_def ds_inv_def pb_config_def)
qed

subsection \<open>Fuel\<close>

lemma downstream_replay_mono:
  "downstream_replay fuel b e t f = Some r \<Longrightarrow> fuel \<le> fuel' \<Longrightarrow> downstream_replay fuel' b e t f = Some r"
proof (induction fuel arbitrary: fuel' t f r)
  case 0
  then show ?case by simp
next
  case (Suc fuel)
  then obtain k where k: "fuel' = Suc k" "fuel \<le> k" by (cases fuel') auto
  show ?case
    using Suc.prems(1) Suc.IH [OF _ k(2)] k(1)
    by (auto split: sum.splits control.splits)
qed

lemma end_of_session_loop_mono:
  "end_of_session_loop fuel b e t addr p finish period = Some r \<Longrightarrow> fuel \<le> fuel' \<Longrightarrow>
   end_of_session_loop fuel' b e t addr p finish period = Some r"
proof (induction fuel arbitrary: fuel' t r)
  case 0
  then show ?case by simp
next
  case (Suc fuel)
  then obtain k where k: "fuel' = Suc k" "fuel \<le> k" by (cases fuel') auto
  show ?case
    using Suc.prems(1) Suc.IH [OF _ k(2)] k(1) by (auto simp: Let_def split: if_splits)
qed

text \<open>How often the replay asks its environment.\<close>

lemma get_delay_ticks: "get_delay e t p ts = Inr (d, p', t') \<Longrightarrow> t' \<le> t + 2"
  by (auto simp: get_delay_def calculate_delay_def andThen_eq_Inr_iff Let_def split: option.splits if_splits)

lemma downstream_pause_ticks: "downstream_pause b e t f ts = Inr (f', evs, t') \<Longrightarrow> t' \<le> t + 2"
  by (auto simp: downstream_pause_def andThen_eq_Inr_iff dest!: get_delay_ticks split: if_splits)

lemma downstream_send_ticks: "downstream_send_packet b e t f = Inr (f', evs, t') \<Longrightarrow> t' \<le> t + 1"
  by (auto simp: downstream_send_packet_def andThen_eq_Inr_iff Let_def split: if_splits)

lemma downstream_iteration_ticks: "downstream_iteration b e t f = Inr (c, f', evs, t') \<Longrightarrow> t' \<le> t + 4"
  by (force simp: downstream_iteration_def andThen_eq_Inr_iff
      dest: downstream_pause_ticks downstream_send_ticks split: if_splits option.splits)

lemma downstream_replay_ticks:
  "downstream_replay fuel b e t f = Some (Inr (f', evs, t')) \<Longrightarrow> t' \<le> t + 4 * fuel"
proof (induction fuel arbitrary: t f evs)
  case 0
  then show ?case by simp
next
  case (Suc fuel)
  obtain c f1 evs1 t1 where it: "downstream_iteration b e t f = Inr (c, f1, evs1, t1)"
    using Suc.prems by (cases "downstream_iteration b e t f") auto
  then have "t1 \<le> t + 4" by (rule downstream_iteration_ticks)
  moreover have "t' = t1 \<or> t' \<le> t1 + 4 * fuel"
    using Suc.prems it Suc.IH by (cases c) (auto simp: andThen_eq_Inr_iff)
  ultimately show ?case by auto
qed

subsection \<open>The end-of-session loop\<close>

definition eos_packet :: "downstream_feed \<Rightarrow> bytes" where
  "eos_packet f = header_of (session (df_packet_builder f)) (df_sequence_number f) end_of_session_msg_count"

text \<open>A clock that, some time after tick \<open>T\<close>, has advanced by \<open>d\<close> over everything it read until then.\<close>

definition clock_passes :: "env \<Rightarrow> nat \<Rightarrow> int \<Rightarrow> bool" where
  "clock_passes e T d \<longleftrightarrow> (\<exists>t0. \<forall>t \<ge> t0. \<forall>u \<le> T. now_at e u + d \<le> now_at e t)"

lemma end_of_session_loop_ok:
  assumes "stop_requested_at e (t + 3 * k) \<or> finish \<le> now_at e (t + 3 * k + 1)"
  shows "\<exists>evs t' n. end_of_session_loop (Suc k) b e t addr p finish period = Some (evs, t') \<and>
    datagrams evs = replicate n p \<and> n \<le> k"
  using assms
proof (induction k arbitrary: t)
  case 0
  then show ?case by auto
next
  case (Suc k)
  show ?case
  proof (cases "stop_requested_at e t \<or> finish \<le> now_at e (Suc t)")
    case True
    then show ?thesis by auto
  next
    case False
    have "stop_requested_at e (t + 3 + 3 * k) \<or> finish \<le> now_at e (t + 3 + 3 * k + 1)"
      using Suc.prems by (simp add: algebra_simps)
    then obtain evs t' n where IH: "end_of_session_loop (Suc k) b e (t + 3) addr p finish period = Some (evs, t')"
      "datagrams evs = replicate n p" "n \<le> k"
      using Suc.IH [of "t + 3"] by blast
    have "t + 3 = Suc (Suc (Suc t))" by simp
    with IH False show ?thesis
      by (subst end_of_session_loop.simps) (auto simp: Let_def intro!: exI [of _ "Suc n"] simp del: end_of_session_loop.simps)
  qed
qed

lemma header_written:
  assumes "length s = 10"
  shows "andThen (write_at_range b (replicate header_length 0) session_offset s) (\<lambda>p1.
     andThen (write_at_be b p1 sequence_number_offset (q :: u64)) (\<lambda>p2.
     andThen (write_at_be b p2 message_count_offset (c :: u16)) g)) = g (header_of s q c)"
proof -
  define p1 where "p1 = overwrite (replicate 20 0) 0 s"
  define p2 where "p2 = overwrite p1 10 (be_bytes 8 (unat q))"
  define p3 where "p3 = overwrite p2 18 (be_bytes 2 (unat c))"
  have len: "length p1 = 20" "length p2 = 20" "length p3 = 20" using assms by (simp_all add: p1_def p2_def p3_def)
  have "p3 = header_of s q c"
  proof (rule header_ofI [OF len(3)])
    show "segment p3 0 10 = s"
      using len(1,2) assms by (simp add: p3_def p2_def segment_overwrite_before) (simp add: p1_def segment_overwrite_same)
    show "segment p3 10 8 = be_bytes 8 (unat q)"
      using len(1,2) by (simp add: p3_def segment_overwrite_before) (simp add: p2_def segment_overwrite_same)
    show "segment p3 18 2 = be_bytes 2 (unat c)"
      using len(2) by (simp add: p3_def segment_overwrite_same)
  qed
  moreover have "write_at_range b (replicate 20 0) 0 s = Inr p1" "write_at_be b p1 10 q = Inr p2" "write_at_be b p2 18 c = Inr p3"
    using assms len by (simp_all add: write_at_range_eq write_at_be_eq p1_def [symmetric] p2_def [symmetric] p3_def [symmetric])
  ultimately show ?thesis by simp
qed

lemma eos_header_written:
  assumes "pb_inv (df_packet_builder f)"
  shows "andThen (write_at_range b (replicate header_length 0) session_offset (session (df_packet_builder f))) (\<lambda>p1.
     andThen (write_at_be b p1 sequence_number_offset (df_sequence_number f)) (\<lambda>p2.
     andThen (write_at_be b p2 message_count_offset end_of_session_msg_count) g)) = g (eos_packet f)"
  unfolding eos_packet_def by (rule header_written [OF session_length [OF assms]])

lemma downstream_end_of_session_eq:
  assumes "pb_inv (df_packet_builder f)" and "\<not> debug_no_network b"
    and "fits_i64 (now_at e t + df_end_of_session_duration f)"
  shows "downstream_end_of_session fuel b e t f =
    map_option Inr (end_of_session_loop fuel b e (Suc t) (df_mcast_group f) (eos_packet f)
      (now_at e t + df_end_of_session_duration f) (heartbeat_period (df_heartbeat f)))"
  unfolding downstream_end_of_session_def eos_header_written [OF assms(1)] using assms(2,3) by simp

lemma heartbeat_flag_inv [simp]:
  "hb_inv s (hb\<lparr>hb_running := r\<rparr>) = hb_inv s hb"
  by (simp add: hb_inv_def)

text \<open>Stopping is prompt: with the stop requested no end-of-session packet is sent.\<close>

lemma end_of_session_stopped:
  assumes "stop_requested_at e t"
  shows "end_of_session_loop (Suc fuel) b e t addr p finish period = Some ([], Suc t)"
  using assms by simp

subsection \<open>Replay, then end of session\<close>

lemma replay_ready_heartbeat:
  "replay_ready b e (f\<lparr>df_heartbeat := heartbeat_start (df_heartbeat f)\<rparr>) posns = replay_ready b e f posns"
  by (simp add: replay_ready_def ds_inv_def asserts_hold_def pause_ok_def well_framed_def ds_capacity_def
      heartbeat_start_def)

lemma replay_plan_heartbeat:
  "replay_plan (f\<lparr>df_heartbeat := hb\<rparr>) = replay_plan f"
  "replay_positions (f\<lparr>df_heartbeat := hb\<rparr>) = replay_positions f"
  by (simp_all add: replay_plan_def replay_positions_def skips_def [abs_def] ds_capacity_def)

lemma downstream_start_ok:
  assumes "replay_ready b e f posns"
    and "clock_passes e (t + 4 * Suc (length (messages_from (df_file f) (df_file_pos f)))) (df_end_of_session_duration f)"
    and "\<forall>t. fits_i64 (now_at e t + df_end_of_session_duration f)"
  shows "\<exists>fuel f' evs t' n. downstream_start fuel b e t f = Some (Inr (f', evs, t')) \<and>
    datagrams evs = numbered (session (df_packet_builder f)) (Suc (length posns)) (replay_plan f) @ replicate n (eos_packet f') \<and>
    ds_inv f' (posns @ replay_positions f) \<and> df_file_pos f' = length (df_file f) \<and>
    \<not> hb_running (df_heartbeat f') \<and> session (df_packet_builder f') = session (df_packet_builder f)"
proof -
  define f0 where "f0 = f\<lparr>df_heartbeat := heartbeat_start (df_heartbeat f)\<rparr>"
  have f0: "replay_ready b e f0 posns" "replay_plan f0 = replay_plan f" "replay_positions f0 = replay_positions f"
    unfolding f0_def using assms(1) by (simp_all add: replay_ready_heartbeat replay_plan_heartbeat)
  let ?n = "Suc (length (messages_from (df_file f0) (df_file_pos f0)))"
  obtain f1 evs1 t1 where r: "downstream_replay ?n b e t f0 = Some (Inr (f1, evs1, t1))"
    "replayed f0 posns (replay_plan f) (replay_positions f) f1 evs1"
    using replay_ok [OF f0(1), of ?n t] f0(2,3) by auto
  define f2 where "f2 = f1\<lparr>df_heartbeat := heartbeat_stop (df_heartbeat f1)\<rparr>"
  have inv: "ds_inv f1 (posns @ replay_positions f)" "df_file_pos f1 = length (df_file f)" "ds_same f0 f1"
    "datagrams evs1 = numbered (session (df_packet_builder f)) (Suc (length posns)) (replay_plan f)"
    using r(2) by (simp_all add: replayed_def f0_def)
  have f2: "ds_inv f2 (posns @ replay_positions f)" "\<not> hb_running (df_heartbeat f2)"
    using inv(1) by (simp_all add: f2_def heartbeat_stop_def ds_inv_def)
  have same: "df_end_of_session_duration f2 = df_end_of_session_duration f"
    "session (df_packet_builder f2) = session (df_packet_builder f)"
    using inv(3) by (simp_all add: ds_same_def f2_def f0_def pb_config_def)
  let ?fin = "now_at e t1 + df_end_of_session_duration f"
  have "t1 \<le> t + 4 * Suc (length (messages_from (df_file f) (df_file_pos f)))"
    using downstream_replay_ticks [OF r(1)] by (simp add: f0_def)
  then obtain t0 where t0: "\<And>t. t0 \<le> t \<Longrightarrow> ?fin \<le> now_at e t" using assms(2) unfolding clock_passes_def by meson
  have "?fin \<le> now_at e (Suc t1 + 3 * t0 + 1)" by (rule t0) simp
  then obtain evs2 t2 n where l: "end_of_session_loop (Suc t0) b e (Suc t1) (df_mcast_group f2) (eos_packet f2) ?fin
      (heartbeat_period (df_heartbeat f2)) = Some (evs2, t2)" "datagrams evs2 = replicate n (eos_packet f2)"
    using end_of_session_loop_ok by blast
  define fuel where "fuel = max ?n (Suc t0)"
  have fuel: "?n \<le> fuel" "Suc t0 \<le> fuel" by (simp_all add: fuel_def)
  have "downstream_replay fuel b e t f0 = Some (Inr (f1, evs1, t1))"
    using downstream_replay_mono [OF r(1) fuel(1)] .
  moreover have "downstream_end_of_session fuel b e t1 f2 = Some (Inr (evs2, t2))"
    using downstream_end_of_session_eq [of f2 b e t1 fuel] ds_invD(1) [OF f2(1)] replay_readyD(6) [OF assms(1)]
      assms(3) same(1) end_of_session_loop_mono [OF l(1) fuel(2)] by simp
  ultimately have "downstream_start fuel b e t f = Some (Inr (f2, evs1 @ evs2, t2))"
    by (simp add: downstream_start_def Let_def flip: f0_def f2_def)
  moreover have "datagrams (evs1 @ evs2) = numbered (session (df_packet_builder f)) (Suc (length posns)) (replay_plan f) @
      replicate n (eos_packet f2)"
    using inv(4) l(2) by simp
  moreover have "df_file_pos f2 = length (df_file f)" using inv(2) by (simp add: f2_def)
  ultimately show ?thesis using f2 same(2) by blast
qed

subsection \<open>Stopping\<close>

lemma downstream_iteration_continues:
  "downstream_iteration b e t f = Inr (Continue, f', evs, t') \<Longrightarrow> t < t' \<and> \<not> stop_requested_at e t"
proof -
  have pause: "downstream_pause b e u g ts = Inr (g', evs', u') \<Longrightarrow> u \<le> u'" for u g ts g' evs' u'
    by (auto simp: downstream_pause_def andThen_eq_Inr_iff dest!: get_delay_config(4) split: if_splits)
  have send: "downstream_send_packet b e u g = Inr (g', evs', u') \<Longrightarrow> u \<le> u'" for u g g' evs' u'
    by (auto simp: downstream_send_packet_def andThen_eq_Inr_iff Let_def split: if_splits)
  assume "downstream_iteration b e t f = Inr (Continue, f', evs, t')"
  then show ?thesis
    by (fastforce simp: downstream_iteration_def andThen_eq_Inr_iff
        dest: pause send split: if_splits option.splits)
qed

text \<open>Whatever the file holds: once the stop is requested for good, the loop leaves.\<close>

lemma replay_stops:
  assumes "\<And>u. T \<le> u \<Longrightarrow> stop_requested_at e u" and "T \<le> t + k"
  shows "\<exists>r. downstream_replay (Suc k) b e t f = Some r"
  using assms
proof (induction k arbitrary: t f)
  case 0
  then have "stop_requested_at e t" by simp
  then have "\<nexists>f' evs t'. downstream_iteration b e t f = Inr (Continue, f', evs, t')"
    using downstream_iteration_continues by blast
  then show ?case by (auto split: sum.split prod.split control.split)
next
  case (Suc k)
  show ?case
  proof (cases "\<exists>f' evs t'. downstream_iteration b e t f = Inr (Continue, f', evs, t')")
    case True
    then obtain f' evs t' where it: "downstream_iteration b e t f = Inr (Continue, f', evs, t')" by blast
    then have "T \<le> t' + k" using downstream_iteration_continues [OF it] Suc.prems(2) by simp
    then obtain r where "downstream_replay (Suc k) b e t' f' = Some r" using Suc.IH Suc.prems(1) by blast
    then show ?thesis using it by (subst downstream_replay.simps) (simp del: downstream_replay.simps)
  next
    case False
    then show ?thesis by (subst downstream_replay.simps) (auto split: sum.split prod.split control.split simp del: downstream_replay.simps)
  qed
qed

lemma end_of_session_stops:
  assumes "\<And>u. T \<le> u \<Longrightarrow> stop_requested_at e u" and "T \<le> t + k"
  shows "\<exists>r. downstream_end_of_session (Suc k) b e t f = Some r"
proof -
  have "\<exists>r. end_of_session_loop (Suc k) b e u a p fin per = Some r" if "t \<le> u" for u a p fin per
    using end_of_session_loop_ok [of e u k fin] assms(1) [of "u + 3 * k"] assms(2) that by fastforce
  then show ?thesis
    by (auto simp: downstream_end_of_session_def split: sum.split simp del: end_of_session_loop.simps)
qed

lemma downstream_start_stops:
  assumes "\<And>u. T \<le> u \<Longrightarrow> stop_requested_at e u"
  shows "\<exists>r. downstream_start (Suc T) b e t f = Some r"
proof -
  have T: "T \<le> u + T" for u by simp
  obtain r where r: "downstream_replay (Suc T) b e t (f\<lparr>df_heartbeat := heartbeat_start (df_heartbeat f)\<rparr>) = Some r"
    using replay_stops [OF assms T] by blast
  show ?thesis
  proof (cases r)
    case (Inl err)
    then show ?thesis using r by (simp add: downstream_start_def del: downstream_replay.simps)
  next
    case (Inr x)
    obtain f1 evs1 t1 where x: "x = (f1, evs1, t1)" by (cases x)
    obtain r2 where "downstream_end_of_session (Suc T) b e t1 (f1\<lparr>df_heartbeat := heartbeat_stop (df_heartbeat f1)\<rparr>) = Some r2"
      using end_of_session_stops [OF assms T] by blast
    then show ?thesis using r Inr x by (simp add: downstream_start_def Let_def del: downstream_replay.simps)
  qed
qed

subsection \<open>A message that no packet can hold\<close>

text \<open>The builder refuses it, the position is put back, the packet without messages is sent, and the loop is
  where it was.\<close>

definition oversized :: "build \<Rightarrow> env \<Rightarrow> downstream_feed \<Rightarrow> nat list \<Rightarrow> bytes \<Rightarrow> bool" where
  "oversized b e f posns m \<longleftrightarrow>
     ds_inv f posns \<and> asserts_hold b f \<and> pause_ok b e f \<and> native b = Little \<and> \<not> debug_no_network b \<and>
     (\<forall>t. \<not> stop_requested_at e t) \<and> message_at (df_file f) (df_file_pos f) = Some m \<and>
     13 \<le> length m \<and> ds_capacity f < length m \<and> \<not> skips f m"

lemma oversized_step:
  assumes "oversized b e f posns m"
  obtains f' evs t' where "downstream_iteration b e t f = Inr (Continue, f', evs, t')" and "oversized b e f' posns m"
    and "datagrams evs = [heartbeat_packet (session (df_packet_builder f)) (df_sequence_number f)]"
proof -
  note a = assms [unfolded oversized_def]
  have fit: "[] = fit (ds_capacity f) (messages_from (df_file f) (df_file_pos f))"
    using a by (simp add: messages_from_Some)
  obtain f' evs t' where it: "downstream_iteration b e t f = Inr (Continue, f', evs, t')"
    "ds_inv f' (posns @ msg_positions (df_file_pos f) [])" "ds_same f f'"
    "df_file_pos f' = next_position (df_file f) (df_file_pos f + length (concat ([] :: bytes list)))"
    "datagrams evs = [mold_packet (session (df_packet_builder f)) (df_sequence_number f) []]" "pause_ok b e f'"
    "pacer_skip_before (df_pacer f') = pacer_skip_before (df_pacer f)"
    using iteration_packet [of f posns b e m t, OF _ _ _ _ _ _ _ _ fit] a by (metis (no_types, lifting))
  have pos: "df_file_pos f' = df_file_pos f" using it(4) a by (simp add: next_position_def)
  have "oversized b e f' posns m"
    using a it(2,3,6,7) pos ds_same_asserts [OF it(3), of b] ds_same_capacity [OF it(3)]
    by (simp add: oversized_def ds_same_def skips_def)
  then show ?thesis
    using that it(1,5) by (simp add: mold_packet_def heartbeat_packet_def heartbeat_msg_count_def)
qed

lemma oversized_never_ends: "oversized b e f posns m \<Longrightarrow> downstream_replay fuel b e t f = None"
proof (induction fuel arbitrary: f t)
  case 0
  then show ?case by simp
next
  case (Suc fuel)
  then show ?case using oversized_step [OF Suc.prems, of t] by (metis (no_types, lifting) downstream_replay.simps(2)
      sum.simps(6) old.prod.case control.simps(3) option.map_disc_iff)
qed

subsection \<open>Any file, also a malformed one\<close>

definition sends_within :: "nat \<Rightarrow> out_event list \<Rightarrow> bool" where
  "sends_within n evs \<longleftrightarrow> (\<forall>d \<in> set (datagrams evs). length d \<le> n)"

lemma sends_within_simps [simp]:
  "sends_within n []" "sends_within n (evs @ evs') \<longleftrightarrow> sends_within n evs \<and> sends_within n evs'"
  by (auto simp: sends_within_def)

lemma packet_inv:
  assumes "ds_inv f posns" and "ndebug b" and "downstream_build_packet b f = Inr f1"
    and "downstream_pause b e t f1 ts = Inr (f2, evs2, t2)" and "downstream_send_packet b e t2 f2 = Inr (f3, evs3, t3)"
  shows "\<exists>ps. ds_inv f3 (posns @ ps) \<and> ds_same f f3 \<and> sends_within (pb_MTU (df_packet_builder f)) (evs2 @ evs3)"
proof -
  let ?ms = "fit (ds_capacity f) (messages_from (df_file f) (df_file_pos f))"
  have "asserts_hold b f" using assms(2) by (simp add: asserts_hold_def admits_def)
  then have f1: "ds_inv f1 (posns @ msg_positions (df_file_pos f) ?ms)" "ds_same f f1" "pb_messages (df_packet_builder f1) = ?ms"
    using build_packet_ok [OF assms(1) _ refl, of b] assms(3) by (metis sum.inject(2))+
  obtain p' where f2: "f2 = f1\<lparr>df_pacer := p'\<rparr>" "datagrams evs2 = []"
  proof (cases "debug_no_sleep b")
    case True
    then show ?thesis using that [of "df_pacer f1"] assms(4) by (simp add: downstream_pause_def)
  next
    case False
    then show ?thesis using that assms(4) by (auto simp: downstream_pause_def andThen_eq_Inr_iff)
  qed
  have f2_inv: "ds_inv f2 (posns @ msg_positions (df_file_pos f) ?ms)" "ds_same f f2"
    using f1(1,2) by (simp_all add: f2 ds_inv_def ds_same_def)
  obtain f' evs' t' where f3: "downstream_send_packet b e t2 f2 = Inr (f', evs', t')"
    "ds_inv f' (posns @ msg_positions (df_file_pos f) ?ms)" "ds_same f2 f'"
    "datagrams evs' = (if debug_no_network b then [] else
      [mold_packet (session (df_packet_builder f2)) (pb_sequence (df_packet_builder f2)) (pb_messages (df_packet_builder f2))])"
    using send_packet_ok [OF f2_inv(1), of b e t2] by metis
  have "length (mold_packet (session (df_packet_builder f2)) q ?ms) \<le> pb_MTU (df_packet_builder f)" for q
    using length_mold_packet [OF session_length [OF ds_invD(1) [OF f2_inv(1)]]] fit_size [of "ds_capacity f"]
      pb_invD(2) [OF ds_invD(1) [OF assms(1)]] by (simp add: ds_capacity_def) (metis add.commute le_diff_conv2)
  then have "sends_within (pb_MTU (df_packet_builder f)) (evs2 @ evs')"
    using f3(4) f2(2) f1(3) by (simp add: sends_within_def f2(1))
  then show ?thesis using f3 assms(5) ds_same_trans [OF f2_inv(2) f3(3)] by auto
qed

lemma iteration_inv:
  assumes "ds_inv f posns" and "ndebug b" and "downstream_iteration b e t f = Inr (c, f', evs, t')"
  shows "\<exists>ps. ds_inv f' (posns @ ps) \<and> ds_same f f' \<and> sends_within (pb_MTU (df_packet_builder f)) evs"
proof -
  note inv = ds_invD [OF assms(1)]
  have moved: "ds_inv (f\<lparr>df_file_pos := q\<rparr>) posns" if "df_file_pos f \<le> q" "q \<le> length (df_file f)" for q
    using assms(1) that by (simp add: ds_inv_def)
  have skip: "df_file_pos f \<le> q \<and> q \<le> length (df_file f)"
    if "skip_message b (df_file f) (df_file_pos f) = Inr (ok, q)" for ok q
    using that fail_position_bounds [OF inv(2)] message_at_SomeD(2) [of "df_file f" "df_file_pos f"]
    by (auto simp: skip_message_eq split: option.splits)
  consider "f' = f" "evs = []" | q where "f' = f\<lparr>df_file_pos := q\<rparr>" "evs = []" "df_file_pos f \<le> q" "q \<le> length (df_file f)"
    | f1 f2 evs2 t2 ts evs3 where "downstream_build_packet b f = Inr f1" "downstream_pause b e (Suc t) f1 ts = Inr (f2, evs2, t2)"
      "downstream_send_packet b e t2 f2 = Inr (f', evs3, t')" "evs = evs2 @ evs3"
    using assms(3) skip
    by (fastforce simp: downstream_iteration_def andThen_eq_Inr_iff split: if_splits option.splits)
  then show ?thesis
  proof cases
    case 1
    then show ?thesis using assms(1) by (intro exI [of _ "[]"]) simp
  next
    case 2
    then show ?thesis using moved by (intro exI [of _ "[]"]) (simp add: ds_same_def)
  next
    case 3
    then show ?thesis using packet_inv [OF assms(1,2)] by blast
  qed
qed

lemma replay_inv:
  assumes "ds_inv f posns" and "ndebug b" and "downstream_replay fuel b e t f = Some (Inr (f', evs, t'))"
  shows "\<exists>ps. ds_inv f' (posns @ ps) \<and> ds_same f f' \<and> sends_within (pb_MTU (df_packet_builder f)) evs"
  using assms
proof (induction fuel arbitrary: f posns t evs)
  case 0
  then show ?case by simp
next
  case (Suc fuel)
  obtain c f1 evs1 t1 where it: "downstream_iteration b e t f = Inr (c, f1, evs1, t1)"
    using Suc.prems by (cases "downstream_iteration b e t f") auto
  obtain ps where ps: "ds_inv f1 (posns @ ps)" "ds_same f f1" "sends_within (pb_MTU (df_packet_builder f)) evs1"
    using iteration_inv [OF Suc.prems(1,2) it] by blast
  show ?case
  proof (cases c)
    case Break
    then show ?thesis using Suc.prems(3) it ps by auto
  next
    case Continue
    then obtain evs2 where "downstream_replay fuel b e t1 f1 = Some (Inr (f', evs2, t'))" "evs = evs1 @ evs2"
      using Suc.prems(3) it by (auto simp: andThen_eq_Inr_iff)
    moreover have "pb_MTU (df_packet_builder f1) = pb_MTU (df_packet_builder f)"
    proof -
      have "pb_MTU (df_packet_builder f1) - 20 = pb_MTU (df_packet_builder f) - 20"
        using ps(2) by (simp add: ds_same_def pb_config_def)
      then show ?thesis using pb_invD(2) [OF ds_invD(1) [OF ps(1)]] pb_invD(2) [OF ds_invD(1) [OF Suc.prems(1)]] by simp
    qed
    ultimately show ?thesis
      using Suc.IH [OF ps(1) Suc.prems(2)] ps(3) ds_same_trans [OF ps(2)] by (metis append_assoc sends_within_simps(2))
  qed
qed

text \<open>\<open>walked bs q\<close>: reading \<open>bs\<close> from its start comes to position \<open>q\<close>, message by message, a prefix at a time where there is none.\<close>

inductive walked :: "bytes \<Rightarrow> nat \<Rightarrow> bool" for bs where
  walk_start: "walked bs 0"
| walk_message: "walked bs q \<Longrightarrow> message_at bs q = Some m \<Longrightarrow> walked bs (q + length m)"
| walk_fail: "walked bs q \<Longrightarrow> message_at bs q = None \<Longrightarrow> walked bs (fail_position bs q)"

lemma walked_messages: "walked bs q \<Longrightarrow> walked bs (q + length (concat (take n (messages_from bs q))))"
proof (induction n arbitrary: q)
  case (Suc n)
  show ?case
  proof (cases "message_at bs q")
    case None
    then show ?thesis using Suc.prems by simp
  next
    case (Some m)
    then show ?thesis using Suc.IH [OF walk_message [OF Suc.prems Some]] by (simp add: messages_from_Some add.assoc)
  qed
qed simp

lemma walked_next: "walked bs q \<Longrightarrow> walked bs (next_position bs q)"
  by (auto simp: next_position_def intro: walk_fail split: option.split)

text \<open>Too few bytes for the timestamp of a message, but enough for the guard of \<open>peek_timestamp\<close>.\<close>

definition short_tail :: "bytes \<Rightarrow> nat \<Rightarrow> bool" where
  "short_tail bs q \<longleftrightarrow> 8 \<le> length bs - q \<and> length bs - q < 13"

lemma drop_bit_16_less: "uint (drop_bit 16 (x :: u64)) < 2 ^ 48"
proof -
  have "unat x < 2 ^ 48 * 2 ^ 16" using unsigned_less [of x, where 'a = nat] by simp
  then have "unat x div 2 ^ 16 < 2 ^ 48" by (rule less_mult_imp_div_less)
  moreover have "unat (drop_bit 16 x) = unat x div 2 ^ 16" unfolding unat_drop_bit_eq by (rule drop_bit_eq_div)
  ultimately have "unat (drop_bit 16 x) < 2 ^ 48" by (simp only:)
  then have "int (unat (drop_bit 16 x)) < int (2 ^ 48)" by (simp only: of_nat_less_iff)
  then show ?thesis by (simp only: uint_nat of_nat_power of_nat_numeral)
qed

lemma extract_timestamp_range:
  assumes "11 \<le> length bs"
  shows "\<exists>ts. extract_timestamp b bs = Inr ts \<and> 0 \<le> ts \<and> ts < 2 ^ 48"
proof -
  define x where "x = byteswap (object_of b (overwrite (replicate 8 0) 0 (segment bs 5 6)) :: u64)"
  have "extract_timestamp b bs = Inr (uint (drop_bit 16 x))"
    unfolding extract_timestamp_def x_def using assms by (simp only: timestamp_layout Let_def) simp
  then show ?thesis using drop_bit_16_less [of x] uint_ge_0 by blast
qed

lemma peek_timestamp_cases:
  obtains "length bs < 8" and "peek_timestamp b bs = Inr None"
  | "8 \<le> length bs" and "length bs < 13" and "peek_timestamp b bs = Inl (if ndebug b then Out_of_bounds else Assertion_failed)"
  | ts where "13 \<le> length bs" and "peek_timestamp b bs = Inr (Some ts)" and "0 \<le> ts" and "ts < 2 ^ 48"
proof -
  consider "length bs < 8" | "8 \<le> length bs" "length bs < 13" | "13 \<le> length bs" by linarith
  then show ?thesis
  proof cases
    case 2
    then have "length (segment bs 2 (length bs - 2)) < 11" by simp
    with 2 have "peek_timestamp b bs = Inl (if ndebug b then Out_of_bounds else Assertion_failed)"
      using extract_timestamp_short by (simp add: peek_timestamp_def subspan_def)
    with 2 show ?thesis by (rule that(2))
  next
    case 3
    then have "11 \<le> length (segment bs 2 (length bs - 2))" by simp
    from extract_timestamp_range [OF this, of b]
    obtain ts where ts: "extract_timestamp b (segment bs 2 (length bs - 2)) = Inr ts" "0 \<le> ts" "ts < 2 ^ 48" by blast
    then have "peek_timestamp b bs = Inr (Some ts)" using 3 by (simp add: peek_timestamp_def subspan_def)
    with 3 show ?thesis using that(3) ts(2,3) by metis
  qed (use that(1) in \<open>simp add: peek_timestamp_def\<close>)
qed

lemma packet_progress:
  fixes k :: nat
  assumes "pos + 2 \<le> length bs"
  defines "next \<equiv> next_position bs (pos + length (concat (fit k (messages_from bs pos))))"
  shows "pos < next \<or> next = pos \<and> (\<exists>m. message_at bs pos = Some m \<and> k < length m)"
proof (cases "message_at bs pos")
  case None
  then show ?thesis using assms by (simp add: next_position_def fail_position_def)
next
  case (Some m)
  show ?thesis
  proof (cases "length m \<le> k")
    case True
    then have "length m \<le> length (concat (fit k (messages_from bs pos)))" using Some by (simp add: messages_from_Some)
    moreover have "q \<le> next_position bs q" for q by (simp add: next_position_def fail_position_def split: option.split)
    from this [of "pos + length (concat (fit k (messages_from bs pos)))"]
    have "pos + length (concat (fit k (messages_from bs pos))) \<le> next" by (simp only: next_def)
    ultimately have "pos + length m \<le> next" by linarith
    then show ?thesis using message_at_SomeD(1) [OF Some] by linarith
  qed (use Some in \<open>simp add: next_def messages_from_Some next_position_def\<close>)
qed

text \<open>Why the loop is left: a stop, fewer bytes than a prefix and a timestamp, or nothing to skip.\<close>

definition loop_ended :: "env \<Rightarrow> bytes \<Rightarrow> nat \<Rightarrow> bool" where
  "loop_ended e bs pos \<longleftrightarrow> (\<exists>u. stop_requested_at e u) \<or> length bs - pos < 8 \<or>
     (\<exists>q. walked bs q \<and> message_at bs q = None \<and> pos = fail_position bs q)"

text \<open>The datagrams of a part of a replay: packets numbered from \<open>n\<close>, whose messages are those at \<open>ps\<close>.\<close>

definition sends_messages :: "build \<Rightarrow> downstream_feed \<Rightarrow> nat \<Rightarrow> nat list \<Rightarrow> bytes list \<Rightarrow> bool" where
  "sends_messages b f n ps ds \<longleftrightarrow> (\<exists>packets. map (message_at (df_file f)) ps = map Some (concat packets) \<and>
     ds = (if debug_no_network b then [] else numbered (session (df_packet_builder f)) n packets))"

lemma numbered_append: "numbered s n (ps @ qs) = numbered s n ps @ numbered s (n + length (concat ps)) qs"
  by (induction s n ps rule: numbered.induct) (simp_all add: add.assoc)

lemma sends_messages_append:
  assumes "sends_messages b f n ps ds" and "sends_messages b f (n + length ps) qs es"
  shows "sends_messages b f n (ps @ qs) (ds @ es)"
proof -
  obtain p where p: "map (message_at (df_file f)) ps = map Some (concat p)"
    "ds = (if debug_no_network b then [] else numbered (session (df_packet_builder f)) n p)"
    using assms(1) by (auto simp: sends_messages_def)
  obtain q where q: "map (message_at (df_file f)) qs = map Some (concat q)"
    "es = (if debug_no_network b then [] else numbered (session (df_packet_builder f)) (n + length ps) q)"
    using assms(2) by (auto simp: sends_messages_def)
  have "length ps = length (concat p)" using p(1) by (metis length_map)
  then show ?thesis unfolding sends_messages_def by (intro exI [of _ "p @ q"]) (simp add: p q numbered_append)
qed

lemma msg_positions_message_at:
  assumes "ms = take n (messages_from bs pos)"
  shows "map (message_at bs) (msg_positions pos ms) = map Some ms"
  using msg_positions_at [OF assms] by (intro nth_equalityI) auto

text \<open>A turn on any file leaves the loop, faults at a short tail, moves on, or stays at a message that no packet can hold.\<close>

lemma any_turn:
  assumes "ds_inv f posns" and "ndebug b" and "pause_ok b e f" and "walked (df_file f) (df_file_pos f)"
  obtains (leaves) f' t' where "downstream_iteration b e t f = Inr (Break, f', [], t')" and "ds_inv f' posns" and "ds_same f f'"
      and "walked (df_file f) (df_file_pos f')" and "loop_ended e (df_file f) (df_file_pos f')"
  | (faults) "downstream_iteration b e t f = Inl Out_of_bounds" and "short_tail (df_file f) (df_file_pos f)"
  | (goes) f' evs t' ps where "downstream_iteration b e t f = Inr (Continue, f', evs, t')" and "ds_inv f' (posns @ ps)"
      and "ds_same f f'" and "pause_ok b e f'" and "walked (df_file f) (df_file_pos f')"
      and "sends_messages b f (Suc (length posns)) ps (datagrams evs)"
      and "df_file_pos f < df_file_pos f' \<or> df_file_pos f' = df_file_pos f \<and>
        (\<exists>m. message_at (df_file f) (df_file_pos f) = Some m \<and> ds_capacity f < length m)"
proof -
  let ?file = "df_file f" and ?pos = "df_file_pos f"
  let ?rest = "segment ?file ?pos (length ?file - ?pos)"
  note inv = ds_invD [OF assms(1)]
  show ?thesis
  proof (cases "?pos < length ?file \<and> \<not> stop_requested_at e t")
    case False
    show ?thesis
    proof (cases "?pos < length ?file")
      case True
      then have "loop_ended e ?file ?pos" using False by (auto simp: loop_ended_def)
      then show ?thesis using True False leaves [of f "Suc t"] assms(1,4) by (simp add: downstream_iteration_def)
    qed (use leaves [of f t] assms(1,4) in \<open>simp add: downstream_iteration_def loop_ended_def\<close>)
  next
    case run: True
    have rest: "length ?rest = length ?file - ?pos" by simp
    show ?thesis
    proof (cases rule: peek_timestamp_cases [of ?rest b])
      case 1
      then have "loop_ended e ?file ?pos" by (simp add: loop_ended_def)
      then show ?thesis using 1 run leaves [of f "Suc t"] assms(1,4) by (simp add: downstream_iteration_def subspan_def)
    next
      case 2
      then show ?thesis using run faults assms(2) by (simp add: downstream_iteration_def subspan_def short_tail_def)
    next
      case (3 ts)
      have room: "?pos + 13 \<le> length ?file" using 3(1) run rest by linarith
      show ?thesis
      proof (cases "should_skip (df_pacer f) ts")
        case True
        show ?thesis
        proof (cases "message_at ?file ?pos")
          case None
          define f' where "f' = f\<lparr>df_file_pos := fail_position ?file ?pos\<rparr>"
          have "downstream_iteration b e t f = Inr (Break, f', [], Suc t)"
            using run 3(2) True None by (simp add: downstream_iteration_def subspan_def skip_message_eq f'_def)
          moreover have "ds_inv f' posns" using assms(1) room by (simp add: ds_inv_def f'_def fail_position_def)
          moreover have "walked ?file (df_file_pos f')" using walk_fail [OF assms(4) None] by (simp add: f'_def)
          moreover have "loop_ended e ?file (df_file_pos f')" using assms(4) None by (auto simp: loop_ended_def f'_def)
          ultimately show ?thesis using leaves [of f' "Suc t"] by (simp add: f'_def ds_same_def)
        next
          case (Some m)
          define f' where "f' = f\<lparr>df_file_pos := ?pos + length m\<rparr>"
          note m = message_at_SomeD [OF Some]
          have "downstream_iteration b e t f = Inr (Continue, f', [], Suc t)"
            using run 3(2) True Some by (simp add: downstream_iteration_def subspan_def skip_message_eq f'_def)
          moreover have "ds_inv f' (posns @ [])" using assms(1) m(2) by (simp add: ds_inv_def f'_def)
          moreover have "walked ?file (df_file_pos f')" using walk_message [OF assms(4) Some] by (simp add: f'_def)
          moreover have "m \<noteq> []" using m(1) by (cases m) simp_all
          then have "?pos < df_file_pos f'" by (simp add: f'_def)
          moreover have "sends_messages b f (Suc (length posns)) [] (datagrams [])"
            unfolding sends_messages_def by (intro exI [of _ "[]"]) simp
          ultimately show ?thesis using goes [of f' "[]" "Suc t" "[]"] assms(3) by (simp add: f'_def ds_same_def pause_ok_def)
        qed
      next
        case False
        let ?ms = "fit (ds_capacity f) (messages_from ?file ?pos)"
        have "asserts_hold b f" using assms(2) by (simp add: asserts_hold_def admits_def)
        moreover have it: "downstream_iteration b e t f = andThen (downstream_build_packet b f) (\<lambda>f1.
            andThen (downstream_pause b e (Suc t) f1 ts) (\<lambda>(f2, evs2, t2).
            andThen (downstream_send_packet b e t2 f2) (\<lambda>(f3, evs3, t3).
            Inr (Continue, f3, evs2 @ evs3, t3))))"
          using run 3(2) False by (simp add: downstream_iteration_def subspan_def)
        ultimately obtain f' evs t' where turn: "downstream_iteration b e t f = Inr (Continue, f', evs, t')"
          "ds_inv f' (posns @ msg_positions ?pos ?ms)" "ds_same f f'" "pause_ok b e f'"
          "df_file_pos f' = next_position ?file (?pos + length (concat ?ms))"
          "datagrams evs = (if debug_no_network b then [] else [mold_packet (session (df_packet_builder f)) (df_sequence_number f) ?ms])"
          using packet_turn [OF assms(1) _ assms(3) 3(3,4) refl, of t, folded it] by metis
        have sent: "sends_messages b f (Suc (length posns)) (msg_positions ?pos ?ms) (datagrams evs)"
          unfolding sends_messages_def turn(6) ds_invD(4) [OF assms(1)]
          using msg_positions_message_at [OF fit_prefix, of ?file ?pos "ds_capacity f"] by (intro exI [of _ "[?ms]"]) simp
        have "?ms = take (length ?ms) (messages_from ?file ?pos)" by (rule fit_prefix)
        then have "walked ?file (?pos + length (concat ?ms))" using walked_messages [OF assms(4)] by metis
        then have walk: "walked ?file (df_file_pos f')" unfolding turn(5) by (rule walked_next)
        have "?pos < df_file_pos f' \<or> df_file_pos f' = ?pos \<and> (\<exists>m. message_at ?file ?pos = Some m \<and> ds_capacity f < length m)"
          unfolding turn(5) using packet_progress room by simp
        then show ?thesis using goes [OF turn(1-4) walk sent] by blast
      qed
    qed
  qed
qed

lemma replay_any:
  assumes "ds_inv f posns" and "ndebug b" and "pause_ok b e f" and "walked (df_file f) (df_file_pos f)"
  shows "downstream_replay fuel b e t f = Some (Inl err) \<longrightarrow> err = Out_of_bounds \<and> (\<exists>q. walked (df_file f) q \<and> short_tail (df_file f) q)"
    and "downstream_replay fuel b e t f = None \<longrightarrow> length (df_file f) - df_file_pos f < fuel \<longrightarrow>
      (\<exists>q m. walked (df_file f) q \<and> message_at (df_file f) q = Some m \<and> ds_capacity f < length m)"
  using assms
proof (induction fuel arbitrary: f posns t)
  case 0
  { case 1 show ?case by simp }
  { case 2 show ?case by simp }
next
  case (Suc fuel)
  { case 1
    then show ?case
    proof (cases rule: any_turn [where t = t])
      case (goes f' evs t' ps)
      note IH = Suc.IH(1) [OF goes(2) 1(2) goes(4)]
      show ?thesis using IH goes(1,3,5) by (auto simp: ds_same_def andThen_eq_Inl_iff)
    qed (use 1(4) in auto) }
  { case 2
    then show ?case
    proof (cases rule: any_turn [where t = t])
      case (goes f' evs t' ps)
      have same_file: "df_file f' = df_file f" using goes(3) by (simp add: ds_same_def)
      note IH = Suc.IH(2) [OF goes(2) 2(2) goes(4), unfolded same_file, OF goes(5), of t']
      show ?thesis
      proof (intro impI)
        assume none: "downstream_replay (Suc fuel) b e t f = None" and fuel: "length (df_file f) - df_file_pos f < Suc fuel"
        have none': "downstream_replay fuel b e t' f' = None" using none goes(1) by simp
        consider "df_file_pos f < df_file_pos f'" | m where "message_at (df_file f) (df_file_pos f) = Some m" "ds_capacity f < length m"
          using goes(7) by blast
        then show "\<exists>q m. walked (df_file f) q \<and> message_at (df_file f) q = Some m \<and> ds_capacity f < length m"
        proof cases
          case 1
          have "df_file_pos f' \<le> length (df_file f)" using ds_invD(2) [OF goes(2)] same_file by simp
          then have "length (df_file f) - df_file_pos f' < fuel" using fuel 1 by linarith
          then show ?thesis using IH none' ds_same_capacity [OF goes(3)] by simp
        qed (use 2(4) in blast)
      qed
    qed auto }
qed

lemma replay_any_sends:
  assumes "ds_inv f posns" and "ndebug b" and "pause_ok b e f" and "walked (df_file f) (df_file_pos f)"
    and "downstream_replay fuel b e t f = Some (Inr (f', evs, t'))"
  shows "\<exists>ps. ds_inv f' (posns @ ps) \<and> ds_same f f' \<and> sends_messages b f (Suc (length posns)) ps (datagrams evs) \<and>
    walked (df_file f) (df_file_pos f') \<and> loop_ended e (df_file f) (df_file_pos f')"
  using assms
proof (induction fuel arbitrary: f posns t evs)
  case (Suc fuel)
  show ?case
    using Suc.prems(1-4)
  proof (cases rule: any_turn [where t = t])
    case (leaves f1 t1)
    have "sends_messages b f (Suc (length posns)) [] (datagrams [])"
      unfolding sends_messages_def by (intro exI [of _ "[]"]) simp
    then show ?thesis using leaves Suc.prems(5) by (intro exI [of _ "[]"]) simp
  next
    case faults
    then show ?thesis using Suc.prems(5) by simp
  next
    case (goes f1 evs1 t1 ps1)
    obtain evs2 where r: "downstream_replay fuel b e t1 f1 = Some (Inr (f', evs2, t'))" "evs = evs1 @ evs2"
      using Suc.prems(5) goes(1) by (auto simp: andThen_eq_Inr_iff)
    have same: "df_file f1 = df_file f" "session (df_packet_builder f1) = session (df_packet_builder f)"
      using goes(3) by (simp_all add: ds_same_def pb_config_def)
    obtain ps2 where ps2: "ds_inv f' ((posns @ ps1) @ ps2)" "ds_same f1 f'"
      "sends_messages b f1 (Suc (length (posns @ ps1))) ps2 (datagrams evs2)"
      "walked (df_file f) (df_file_pos f')" "loop_ended e (df_file f) (df_file_pos f')"
      using Suc.IH [OF goes(2) Suc.prems(2) goes(4) _ r(1)] goes(5) unfolding same by blast
    have "sends_messages b f (Suc (length posns) + length ps1) ps2 (datagrams evs2)"
      using ps2(3) unfolding sends_messages_def same length_append add_Suc .
    from sends_messages_append [OF goes(6) this]
    have "sends_messages b f (Suc (length posns)) (ps1 @ ps2) (datagrams evs)" by (simp add: r(2))
    then show ?thesis using ps2 ds_same_trans [OF goes(3) ps2(2)] by (intro exI [of _ "ps1 @ ps2"]) simp
  qed
qed simp

text \<open>The end-of-session packets cannot fault when their deadline fits the clock.\<close>

lemma downstream_start_heartbeat: "downstream_start fuel b e t f = Some (Inr (f', evs, t')) \<Longrightarrow> \<not> hb_running (df_heartbeat f')"
  by (auto simp: downstream_start_def Let_def heartbeat_stop_def andThen_eq_Inr_iff split: option.splits sum.splits)

lemma downstream_feed_new_duration:
  "downstream_feed_new b s cfg pb_cfg bs rb = Inr f \<Longrightarrow> df_end_of_session_duration f = dc_end_of_session_duration cfg"
  by (auto simp: downstream_feed_new_def andThen_eq_Inr_iff Let_def split: if_splits)

lemma start_any:
  assumes "ds_inv f posns" and "ndebug b" and "pause_ok b e f" and "walked (df_file f) (df_file_pos f)"
    and "\<forall>u. fits_i64 (now_at e u + df_end_of_session_duration f)" and "downstream_start fuel b e t f = Some (Inl err)"
  shows "err = Out_of_bounds \<and> (\<exists>q. walked (df_file f) q \<and> short_tail (df_file f) q)"
proof -
  define f0 where "f0 = f\<lparr>df_heartbeat := heartbeat_start (df_heartbeat f)\<rparr>"
  have f0: "ds_inv f0 posns" "pause_ok b e f0" "walked (df_file f0) (df_file_pos f0)" "df_file f0 = df_file f"
    "df_end_of_session_duration f0 = df_end_of_session_duration f"
    using assms(1,3,4) by (simp_all add: f0_def ds_inv_def pause_ok_def heartbeat_start_def)
  show ?thesis
  proof (cases "downstream_replay fuel b e t f0")
    case None
    then show ?thesis using assms(6) by (simp add: downstream_start_def flip: f0_def)
  next
    case (Some r)
    show ?thesis
    proof (cases r)
      case (Inl err')
      then have "err' = err" using Some assms(6) by (simp add: downstream_start_def flip: f0_def)
      then show ?thesis using replay_any(1) [OF f0(1) assms(2) f0(2,3)] Some Inl f0(4) by metis
    next
      case (Inr x)
      obtain f1 evs1 t1 where x: "x = (f1, evs1, t1)" by (cases x)
      obtain ps where ps: "ds_inv f1 (posns @ ps)" "ds_same f0 f1"
        using replay_inv [OF f0(1) assms(2)] Some Inr x by blast
      define f2 where "f2 = f1\<lparr>df_heartbeat := heartbeat_stop (df_heartbeat f1)\<rparr>"
      have "pb_inv (df_packet_builder f2)" "df_end_of_session_duration f2 = df_end_of_session_duration f"
        using ds_invD(1) [OF ps(1)] ps(2) f0(5) by (simp_all add: f2_def ds_same_def)
      then have "downstream_end_of_session fuel b e t1 f2 \<noteq> Some (Inl err)"
        using downstream_end_of_session_eq [of f2 b e t1 fuel] assms(5)
        by (cases "debug_no_network b") (auto simp: downstream_end_of_session_def)
      then show ?thesis
        using Some Inr x assms(6) by (auto simp: downstream_start_def Let_def andThen_eq_Inl_iff simp flip: f0_def f2_def)
    qed
  qed
qed

section \<open>Properties\<close>

text \<open>
  Heartbeats. The packet a new \<open>Heartbeat\<close> sends decodes, on any host, to the session, the number it was
  given and a message count of 0. The number it is given is the feed's \<open>sent_sequence_number_\<close>: building a
  packet leaves it at the number of the first message of that packet, so a heartbeat between the build and the
  send does not announce messages that are not out yet; the send moves it past the packet.
\<close>

theorem heartbeat_announces_next:
  assumes "ds_inv f posns" and "asserts_hold b f" and "df_sent_sequence_number f = df_sequence_number f"
  shows "\<exists>f1 f2 evs2 t2 hb' d r. downstream_build_packet b f = Inr f1 \<and>
    downstream_send_packet b e t f1 = Inr (f2, evs2, t2) \<and>
    heartbeat_send b e t (df_heartbeat f1) (df_sent_sequence_number f1) =
      Inr (hb', Send (hb_mcast_group (df_heartbeat f1)) d r # (if r < 0 then [Logged_error] else []), Suc t) \<and>
    parse_header b' d = Inr \<lparr>hdr_session = session (df_packet_builder f1),
      hdr_sequence_number = word_of_nat (Suc (length posns)), hdr_message_count = heartbeat_msg_count\<rparr> \<and>
    df_sent_sequence_number f2 =
      word_of_nat (Suc (length posns) + length (fit (ds_capacity f) (messages_from (df_file f) (df_file_pos f))))"
proof -
  let ?ms = "fit (ds_capacity f) (messages_from (df_file f) (df_file_pos f))"
  obtain f1 where f1: "downstream_build_packet b f = Inr f1" "ds_inv f1 (posns @ msg_positions (df_file_pos f) ?ms)"
    "df_sent_sequence_number f1 = df_sent_sequence_number f"
    using build_packet_ok [OF assms(1,2) refl] by metis
  obtain f2 evs2 t2 where f2: "downstream_send_packet b e t f1 = Inr (f2, evs2, t2)" "df_sent_sequence_number f2 = df_sequence_number f1"
    using send_packet_ok [OF f1(2), of b e t] by metis
  have seq: "df_sent_sequence_number f1 = word_of_nat (Suc (length posns))"
    using f1(3) assms(3) ds_invD(4) [OF assms(1)] by simp
  obtain hb' where hb: "heartbeat_send b e t (df_heartbeat f1) (df_sent_sequence_number f1) =
      Inr (hb', Send (hb_mcast_group (df_heartbeat f1)) (heartbeat_packet (session (df_packet_builder f1)) (df_sent_sequence_number f1))
        (send_result_at e t) # (if send_result_at e t < 0 then [Logged_error] else []), Suc t)"
    using heartbeat_send_ok [OF ds_invD(8) [OF f1(2)]] by metis
  have "parse_header b' (heartbeat_packet (session (df_packet_builder f1)) (df_sent_sequence_number f1)) =
    Inr \<lparr>hdr_session = session (df_packet_builder f1), hdr_sequence_number = word_of_nat (Suc (length posns)), hdr_message_count = heartbeat_msg_count\<rparr>"
    using parse_header_of [OF session_length [OF ds_invD(1) [OF f1(2)]], of b' _ _ "[]"] by (simp add: heartbeat_packet_def seq)
  moreover have "df_sent_sequence_number f2 = word_of_nat (Suc (length posns) + length ?ms)"
    using f2(2) ds_invD(4) [OF f1(2)] by simp
  ultimately show ?thesis using f1(1) f2(1) hb by blast
qed

end
