(* ===== verification/Retransmission_Feed.thy ===== *)
theory Retransmission_Feed
  imports Downstream_Feed
begin

text \<open>
  \<open>src/include/imr/mold/retransmission/feed.h\<close>, \<open>src/src/mold/retransmission/feed.cpp\<close>: one worker of the
  retransmission service. A request is a MoldUDP64 header; the answer is one packet with as many of the
  requested messages as fit, read again from the mapped file at the position the ring buffer returns.

  The buffer belongs to the downstream feed and is only read here, so it is an argument of a request
  and, in the event loop, a function of the tick (\<open>we_buffer_at\<close>: the downstream thread keeps pushing
  while the worker runs). \<open>recv_result\<close> is
  what \<open>recvfrom\<close> delivers: an error, or a datagram of any length, of which the call stores the first
  20 bytes. \<open>epoll_result\<close> is what \<open>epoll_wait\<close> returns and stores. The \<open>for\<close> loop over the events runs
  to the return value converted to \<open>std::size_t\<close>, as in the code, also when that value was negative.
\<close>

unbundle bit_operations_syntax

subsection \<open>State, configuration, environment\<close>

record retransmission_config =
  rc_address :: bytes
  rc_port :: u16

record epoll_event =
  ev_events :: u32
  ev_fd :: int

record retransmission_feed =
  rf_socket_fd :: int
  rf_epoll_fd :: int
  rf_shutdown_fd :: int
  rf_epoll_events :: "epoll_event list"
  rf_recv_buffer :: bytes
  rf_packet_builder :: packet_builder
  rf_file :: bytes

record request_context =
  rq_client_address :: sockaddr_in
  rq_starting_sequence :: u64
  rq_msg_count :: u16
  rq_file_position :: nat

record retransmission_socket_env =
  rs_socket_ret :: int
  rs_epoll_create_ret :: int
  rs_reuseaddr_ret :: int
  rs_reuseport_ret :: int
  rs_inet_pton :: "bytes \<Rightarrow> int \<times> u32"
  rs_bind_ret :: int
  rs_ctl_socket_ret :: int
  rs_ctl_shutdown_ret :: int
  rs_errno :: int

datatype recv_result = Recv_error int | Recv_datagram bytes sockaddr_in

record epoll_result =
  ep_nfds :: int
  ep_errno :: int
  ep_events :: "epoll_event list"

record worker_env =
  we_env :: env
  we_epoll_at :: "nat \<Rightarrow> epoll_result"
  we_recv_at :: "nat \<Rightarrow> recv_result"
  we_buffer_at :: "nat \<Rightarrow> retransmission_buffer"

definition EINTR :: int where "EINTR = 4"
definition EAGAIN :: int where "EAGAIN = 11"
definition EWOULDBLOCK :: int where "EWOULDBLOCK = 11"
definition EPOLLIN :: u32 where "EPOLLIN = 1"

definition empty_event :: epoll_event where "empty_event = \<lparr>ev_events = 0, ev_fd = 0\<rparr>"

subsection \<open>Construction\<close>

definition retransmission_configure_socket ::
  "build \<Rightarrow> retransmission_socket_env \<Rightarrow> retransmission_config \<Rightarrow> unit res" where
  "retransmission_configure_socket b s cfg =
     (if debug_no_network b then Inr ()
      else if rs_reuseaddr_ret s < 0 \<or> rs_reuseport_ret s < 0 then Inl (System_error (rs_errno s))
      else let (ret, addr) = rs_inet_pton s (rc_address cfg) in
        if ret = 0 then Inl Invalid_argument
        else if ret < 0 then Inl (System_error (rs_errno s))
        else if rs_bind_ret s < 0 then Inl (System_error (rs_errno s))
        else if rs_ctl_socket_ret s < 0 then Inl (System_error (rs_errno s))
        else if rs_ctl_shutdown_ret s < 0 then Inl (System_error (rs_errno s))
        else Inr ())"

definition retransmission_feed_new ::
  "build \<Rightarrow> retransmission_socket_env \<Rightarrow> retransmission_config \<Rightarrow> packet_builder_config \<Rightarrow> bytes \<Rightarrow> int \<Rightarrow>
   retransmission_feed res" where
  "retransmission_feed_new b s cfg pb_cfg file shutdown_fd =
     (if rs_socket_ret s < 0 then Inl (System_error (rs_errno s))
      else if rs_epoll_create_ret s < 0 then Inl (System_error (rs_errno s))
      else andThen (packet_builder_new b pb_cfg) (\<lambda>pb.
        if shutdown_fd \<le> 0 then Inl Invalid_argument
        else andThen (retransmission_configure_socket b s cfg) (\<lambda>_.
          Inr \<lparr>rf_socket_fd = rs_socket_ret s, rf_epoll_fd = rs_epoll_create_ret s,
               rf_shutdown_fd = shutdown_fd, rf_epoll_events = [empty_event, empty_event],
               rf_recv_buffer = replicate header_length 0, rf_packet_builder = pb, rf_file = file\<rparr>)))"

subsection \<open>Serving a request\<close>

definition parse_request ::
  "build \<Rightarrow> retransmission_feed \<Rightarrow> retransmission_buffer \<Rightarrow> sockaddr_in \<Rightarrow> request_context option res" where
  "parse_request b rf rb client_addr =
     (if segment (rf_recv_buffer rf) 0 session_size \<noteq> session (rf_packet_builder rf) then Inr None
      else andThen (read_at_be b (rf_recv_buffer rf) sequence_number_offset) (\<lambda>starting_sequence.
        andThen (file_position_for rb starting_sequence) (\<lambda>file_pos.
          case file_pos of
            None \<Rightarrow> Inr None
          | Some pos \<Rightarrow>
              andThen (read_at_be b (rf_recv_buffer rf) message_count_offset) (\<lambda>msg_count.
              Inr (Some \<lparr>rq_client_address = client_addr, rq_starting_sequence = starting_sequence,
                         rq_msg_count = msg_count, rq_file_position = pos\<rparr>)))))"

fun retransmission_build_loop :: "build \<Rightarrow> bytes \<Rightarrow> packet_builder \<Rightarrow> nat \<Rightarrow> nat \<Rightarrow> packet_builder res" where
  "retransmission_build_loop b file pb file_pos 0 = Inr pb"
| "retransmission_build_loop b file pb file_pos (Suc n) =
     andThen (read_message b file file_pos) (\<lambda>(msg, file_pos').
       if msg = [] then Inr pb
       else andThen (try_add b pb msg) (\<lambda>(added, pb').
         if \<not> added then Inr pb' else retransmission_build_loop b file pb' file_pos' n))"

definition retransmission_build_packet ::
  "build \<Rightarrow> retransmission_feed \<Rightarrow> request_context \<Rightarrow> retransmission_feed res" where
  "retransmission_build_packet b rf ctx =
     andThen (reset b (rf_packet_builder rf) (rq_starting_sequence ctx)) (\<lambda>pb.
     andThen (retransmission_build_loop b (rf_file rf) pb (rq_file_position ctx) (unat (rq_msg_count ctx))) (\<lambda>pb'.
     Inr (rf\<lparr>rf_packet_builder := pb'\<rparr>)))"

definition retransmission_send_packet ::
  "build \<Rightarrow> env \<Rightarrow> nat \<Rightarrow> retransmission_feed \<Rightarrow> sockaddr_in \<Rightarrow> (retransmission_feed \<times> out_event list \<times> nat) res" where
  "retransmission_send_packet b e t rf client_addr =
     (if debug_no_network b then Inr (rf, [], t)
      else andThen (finalize b (rf_packet_builder rf)) (\<lambda>(msg, pb').
        let bytes_sent = send_result_at e t in
        Inr (rf\<lparr>rf_packet_builder := pb'\<rparr>,
             Send client_addr (packet_bytes pb' msg) bytes_sent #
               (if bytes_sent < 0 then [Logged_error] else []), Suc t)))"

definition handle_request ::
  "build \<Rightarrow> env \<Rightarrow> nat \<Rightarrow> retransmission_feed \<Rightarrow> retransmission_buffer \<Rightarrow> recv_result \<Rightarrow>
   (retransmission_feed \<times> out_event list \<times> nat) res" where
  "handle_request b e t rf rb recv =
     (case recv of
        Recv_error err \<Rightarrow> Inr (rf, if err \<noteq> EWOULDBLOCK then [Logged_error] else [], t)
      | Recv_datagram d client_addr \<Rightarrow>
          (let stored = take header_length d;
               rf1 = rf\<lparr>rf_recv_buffer := overwrite (rf_recv_buffer rf) 0 stored\<rparr> in
           if length stored \<noteq> header_length then Inr (rf1, [], t)
           else andThen (parse_request b rf1 rb client_addr) (\<lambda>req_ctx.
             case req_ctx of
               None \<Rightarrow> Inr (rf1, [], t)
             | Some ctx \<Rightarrow>
                 andThen (retransmission_build_packet b rf1 ctx) (\<lambda>rf2.
                 retransmission_send_packet b e t rf2 (rq_client_address ctx)))))"

subsection \<open>The event loop\<close>

function process_events ::
  "build \<Rightarrow> worker_env \<Rightarrow> nat \<Rightarrow> retransmission_feed \<Rightarrow> nat \<Rightarrow> nat \<Rightarrow>
   (bool \<times> retransmission_feed \<times> out_event list \<times> nat) res" where
  "process_events b w t rf i n =
     (if i < n then
        (if i < length (rf_epoll_events rf) then
           (let event = rf_epoll_events rf ! i in
            if ev_fd event = rf_shutdown_fd rf then Inr (True, rf, [], t)
            else andThen (if ev_events event AND EPOLLIN \<noteq> 0
                          then handle_request b (we_env w) (Suc t) rf (we_buffer_at w t) (we_recv_at w t)
                          else Inr (rf, [], t)) (\<lambda>(rf', evs, t').
                 andThen (process_events b w t' rf' (Suc i) n) (\<lambda>(stop, rf'', evs', t'').
                 Inr (stop, rf'', evs @ evs', t''))))
         else Inl Out_of_bounds)
      else Inr (False, rf, [], t))"
  by pat_completeness auto
termination
  by (relation "measure (\<lambda>(b, w, t, rf, i, n). n - i)") auto

declare process_events.simps [simp del]

definition store_events :: "epoll_event list \<Rightarrow> epoll_result \<Rightarrow> epoll_event list" where
  "store_events old r = overwrite old 0 (take (nat (ep_nfds r)) (ep_events r))"

definition retransmission_iteration ::
  "build \<Rightarrow> worker_env \<Rightarrow> nat \<Rightarrow> retransmission_feed \<Rightarrow>
   (bool \<times> retransmission_feed \<times> out_event list \<times> nat) res" where
  "retransmission_iteration b w t rf =
     (let r = we_epoll_at w t;
          rf1 = rf\<lparr>rf_epoll_events := store_events (rf_epoll_events rf) r\<rparr> in
      if ep_nfds r < 0 \<and> (ep_errno r = EINTR \<or> ep_errno r = EAGAIN) then Inr (False, rf1, [], Suc t)
      else andThen (process_events b w (Suc t) rf1 0 (unat (word_of_int (ep_nfds r) :: u64)))
        (\<lambda>(stop, rf2, evs, t2).
          Inr (stop, rf2, (if ep_nfds r < 0 then [Logged_error] else []) @ evs, t2)))"

fun retransmission_start ::
  "nat \<Rightarrow> build \<Rightarrow> worker_env \<Rightarrow> nat \<Rightarrow> retransmission_feed \<Rightarrow>
   (retransmission_feed \<times> out_event list \<times> nat) res option" where
  "retransmission_start 0 b w t rf = None"
| "retransmission_start (Suc fuel) b w t rf =
     (case retransmission_iteration b w t rf of
        Inl err \<Rightarrow> Some (Inl err)
      | Inr (True, rf', evs, t') \<Rightarrow> Some (Inr (rf', evs, t'))
      | Inr (False, rf', evs, t') \<Rightarrow>
          map_option (\<lambda>r. andThen r (\<lambda>(rf'', evs', t''). Inr (rf'', evs @ evs', t'')))
            (retransmission_start fuel b w t' rf'))"

subsection \<open>Effect of a request\<close>

definition rf_inv :: "retransmission_feed \<Rightarrow> bool" where
  "rf_inv rf \<longleftrightarrow>
     pb_inv (rf_packet_builder rf) \<and> length (rf_recv_buffer rf) = header_length \<and>
     length (rf_epoll_events rf) = 2"

definition rf_asserts_hold :: "build \<Rightarrow> retransmission_feed \<Rightarrow> nat \<Rightarrow> bool" where
  "rf_asserts_hold b rf pos \<longleftrightarrow>
     (\<forall>m \<in> set (messages_from (rf_file rf) pos). admits b (pb_config (rf_packet_builder rf)) m)"

text \<open>What stays the same over a request that is answered; the receive buffer and the packet under construction may change.\<close>

definition rf_same :: "retransmission_feed \<Rightarrow> retransmission_feed \<Rightarrow> bool" where
  "rf_same rf rf' \<longleftrightarrow>
     rf_file rf' = rf_file rf \<and> rf_socket_fd rf' = rf_socket_fd rf \<and> rf_epoll_fd rf' = rf_epoll_fd rf \<and>
     rf_shutdown_fd rf' = rf_shutdown_fd rf \<and> rf_epoll_events rf' = rf_epoll_events rf \<and>
     pb_config (rf_packet_builder rf') = pb_config (rf_packet_builder rf)"

definition retransmitted :: "retransmission_feed \<Rightarrow> nat \<Rightarrow> u16 \<Rightarrow> bytes list" where
  "retransmitted rf pos count =
     fit (pb_MTU (rf_packet_builder rf) - 20) (take (unat count) (messages_from (rf_file rf) pos))"

lemma retransmission_build_loop_fill:
  "retransmission_build_loop b file pb pos n = fill (try_add b) pb (take n (messages_from file pos))"
proof (induction n arbitrary: pb pos)
  case 0
  show ?case by simp
next
  case (Suc n)
  show ?case
  proof (cases "message_at file pos")
    case None
    then show ?thesis by (simp add: read_message_eq)
  next
    case (Some m)
    then have "read_message b file pos = Inr (m, pos + length m)" "m \<noteq> []"
      using message_at_SomeD(4) by (simp_all add: read_message_eq)
    with Some show ?thesis
      by (auto simp: messages_from_Some Suc.IH intro!: andThen_cong)
  qed
qed

lemma messages_from_at: "m \<in> set (messages_from bs pos) \<Longrightarrow> \<exists>q. message_at bs q = Some m"
proof (induction bs pos rule: messages_from.induct)
  case (1 bs pos)
  then show ?case by (cases "message_at bs pos") (auto simp: messages_from_Some)
qed

lemma retransmission_packet_ok:
  assumes "rf_inv rf" and "rf_asserts_hold b rf (rq_file_position ctx)" and "\<not> debug_no_network b"
  obtains rf' where "andThen (retransmission_build_packet b rf ctx)
      (\<lambda>rf2. retransmission_send_packet b e t rf2 addr) =
    Inr (rf', Send addr (mold_packet (session (rf_packet_builder rf)) (rq_starting_sequence ctx)
                (retransmitted rf (rq_file_position ctx) (rq_msg_count ctx))) (send_result_at e t) #
              (if send_result_at e t < 0 then [Logged_error] else []), Suc t)"
    and "rf_inv rf'" and "rf_same rf rf'"
proof -
  define ms where "ms = take (unat (rq_msg_count ctx)) (messages_from (rf_file rf) (rq_file_position ctx))"
  have pb: "pb_inv (rf_packet_builder rf)" using assms(1) by (simp add: rf_inv_def)
  have adm: "\<forall>m \<in> set ms. m \<noteq> [] \<and> admits b (pb_config (rf_packet_builder rf)) m"
  proof
    fix m assume "m \<in> set ms"
    then have m: "m \<in> set (messages_from (rf_file rf) (rq_file_position ctx))"
      unfolding ms_def using in_set_takeD by metis
    then obtain q where "message_at (rf_file rf) q = Some m" using messages_from_at by metis
    with m show "m \<noteq> [] \<and> admits b (pb_config (rf_packet_builder rf)) m"
      using assms(2) message_at_SomeD(4) by (auto simp: rf_asserts_hold_def)
  qed
  obtain pb' where "andThen (reset b (rf_packet_builder rf) (rq_starting_sequence ctx))
      (\<lambda>p. andThen (fill (try_add b) p ms) (packet_wire b)) =
      Inr (mold_packet (session (rf_packet_builder rf)) (rq_starting_sequence ctx) (fit (pb_MTU (rf_packet_builder rf) - 20) ms), pb')"
    and pb': "pb_inv pb'" "pb_config pb' = pb_config (rf_packet_builder rf)"
    using pb.assemble_ok [OF pb adm, of "rq_starting_sequence ctx"] by (auto simp: pb_config_def)
  then obtain p1 p2 vs where "reset b (rf_packet_builder rf) (rq_starting_sequence ctx) = Inr p1"
    "fill (try_add b) p1 ms = Inr p2" "finalize b p2 = Inr (vs, pb')"
    "packet_bytes pb' vs = mold_packet (session (rf_packet_builder rf)) (rq_starting_sequence ctx)
       (fit (pb_MTU (rf_packet_builder rf) - 20) ms)"
    by (auto simp: andThen_eq_Inr_iff packet_wire_def)
  then have "andThen (retransmission_build_packet b rf ctx)
      (\<lambda>rf2. retransmission_send_packet b e t rf2 addr) =
    Inr (rf\<lparr>rf_packet_builder := pb'\<rparr>, Send addr (mold_packet (session (rf_packet_builder rf)) (rq_starting_sequence ctx)
                (retransmitted rf (rq_file_position ctx) (rq_msg_count ctx))) (send_result_at e t) #
              (if send_result_at e t < 0 then [Logged_error] else []), Suc t)"
    using assms(3)
    by (simp add: retransmission_build_packet_def retransmission_send_packet_def
        retransmission_build_loop_fill retransmitted_def Let_def flip: ms_def)
  moreover have "rf_inv (rf\<lparr>rf_packet_builder := pb'\<rparr>)" "rf_same rf (rf\<lparr>rf_packet_builder := pb'\<rparr>)"
    using assms(1) pb' by (simp_all add: rf_inv_def rf_same_def)
  ultimately show ?thesis using that by blast
qed

text \<open>A received request, with its fields.\<close>

lemma header_exists:
  assumes "length h = 20"
  shows "\<exists>q c. h = header_of (segment h 0 10) q c"
proof -
  obtain q :: u64 where "be_bytes 8 (unat q) = segment h 10 8"
    using u64_field.get_total [where off = 10 and buf = h and b = undefined] assms by auto
  moreover obtain c :: u16 where "be_bytes 2 (unat c) = segment h 18 2"
    using u16_field.get_total [where off = 18 and buf = h and b = undefined] assms by auto
  ultimately show ?thesis using header_ofI [OF assms refl] by metis
qed

lemma parse_request_header:
  assumes "rf_recv_buffer rf = header_of s q c" and "length s = 10"
  shows "parse_request b rf rb addr =
    (if s \<noteq> session (rf_packet_builder rf) then Inr None
     else andThen (file_position_for rb q) (\<lambda>pos.
       Inr (map_option (\<lambda>p. \<lparr>rq_client_address = addr, rq_starting_sequence = q, rq_msg_count = c,
              rq_file_position = p\<rparr>) pos)))"
proof -
  have len: "length (header_of s q c) = 20" using assms(2) by simp
  have f: "segment (header_of s q c) 0 10 = s" "segment (header_of s q c) 10 8 = be_bytes 8 (unat q)"
    "segment (header_of s q c) 18 2 = be_bytes 2 (unat c)"
    using header_of_fields [OF assms(2), of q c "[]"] by simp_all
  have "read_at_be b (header_of s q c) 10 = Inr q" "read_at_be b (header_of s q c) 18 = Inr c"
    using len f u64_field.get_image u16_field.get_image by simp_all
  then show ?thesis
    unfolding parse_request_def assms(1) using f(1)
    by (auto intro!: andThen_cong split: option.split)
qed

lemma overwrite_all: "length ys = length xs \<Longrightarrow> overwrite xs 0 ys = ys"
  by (simp add: overwrite_def)

lemma handle_request_serves:
  assumes "rf_inv rf" and "rf_asserts_hold b rf pos" and "\<not> debug_no_network b"
    and "take 20 d = header_of (session (rf_packet_builder rf)) seq count"
    and "file_position_for rb seq = Inr (Some pos)"
  obtains rf' where "handle_request b e t rf rb (Recv_datagram d addr) =
      Inr (rf', Send addr (mold_packet (session (rf_packet_builder rf)) seq (retransmitted rf pos count)) (send_result_at e t) #
              (if send_result_at e t < 0 then [Logged_error] else []), Suc t)"
    and "rf_inv rf'" and "rf_same rf rf'"
proof -
  define rf1 where "rf1 = rf\<lparr>rf_recv_buffer := header_of (session (rf_packet_builder rf)) seq count\<rparr>"
  have sess: "length (session (rf_packet_builder rf)) = 10"
    using assms(1) session_length by (simp add: rf_inv_def)
  have rf1: "rf_inv rf1" "rf_asserts_hold b rf1 pos" "rf_same rf rf1" "session (rf_packet_builder rf1) = session (rf_packet_builder rf)"
    "retransmitted rf1 = retransmitted rf"
    using assms(1,2) sess
    by (simp_all add: rf1_def rf_inv_def rf_asserts_hold_def rf_same_def retransmitted_def fun_eq_iff)
  let ?ctx = "\<lparr>rq_client_address = addr, rq_starting_sequence = seq, rq_msg_count = count, rq_file_position = pos\<rparr>"
  have "parse_request b rf1 rb addr = Inr (Some ?ctx)"
    using parse_request_header [of rf1 _ seq count b rb addr] sess assms(5) by (simp add: rf1_def)
  moreover have "overwrite (rf_recv_buffer rf) 0 (take 20 d) = take 20 d"
    using assms(1,4) sess by (simp add: overwrite_all rf_inv_def)
  ultimately have "handle_request b e t rf rb (Recv_datagram d addr) =
      andThen (retransmission_build_packet b rf1 ?ctx) (\<lambda>rf2. retransmission_send_packet b e t rf2 addr)"
    using assms(4) sess by (simp add: handle_request_def Let_def rf1_def)
  moreover obtain rf' where "andThen (retransmission_build_packet b rf1 ?ctx) (\<lambda>rf2. retransmission_send_packet b e t rf2 addr) =
      Inr (rf', Send addr (mold_packet (session (rf_packet_builder rf1)) (rq_starting_sequence ?ctx)
          (retransmitted rf1 (rq_file_position ?ctx) (rq_msg_count ?ctx))) (send_result_at e t) #
              (if send_result_at e t < 0 then [Logged_error] else []), Suc t)"
    "rf_inv rf'" "rf_same rf1 rf'"
    using retransmission_packet_ok [of rf1 b ?ctx] rf1(1,2) assms(3) by (metis request_context.select_convs(4))
  ultimately show ?thesis using that rf1(3-5) by (simp add: rf_same_def)
qed

lemma handle_request_refused:
  assumes "rf_inv rf"
    and "length d < 20 \<or> take 10 d \<noteq> session (rf_packet_builder rf) \<or>
      (\<forall>seq count. take 20 d = header_of (session (rf_packet_builder rf)) seq count \<longrightarrow> file_position_for rb seq = Inr None)"
  shows "handle_request b e t rf rb (Recv_datagram d addr) =
    Inr (rf\<lparr>rf_recv_buffer := take 20 d @ drop (length (take 20 d)) (rf_recv_buffer rf)\<rparr>, [], t)"
proof (cases "length d < 20")
  case True
  then show ?thesis using assms(1) by (simp add: handle_request_def Let_def rf_inv_def overwrite_def)
next
  case False
  define h where "h = take 20 d"
  define rf1 where "rf1 = rf\<lparr>rf_recv_buffer := h\<rparr>"
  have len: "length h = 20" using False by (simp add: h_def)
  then obtain q c where h: "h = header_of (segment h 0 10) q c" using header_exists by blast
  have "segment h 0 10 = take 10 d" using False by (simp add: h_def segment_def min_def)
  then have "parse_request b rf1 rb addr = Inr None"
    using parse_request_header [of rf1 "segment h 0 10" q c b rb addr] h len assms(2) False
    by (auto simp: rf1_def h_def)
  moreover have "overwrite (rf_recv_buffer rf) 0 h = h"
    using assms(1) len by (simp add: overwrite_all rf_inv_def)
  ultimately have "handle_request b e t rf rb (Recv_datagram d addr) = Inr (rf1, [], t)"
    using len by (simp add: handle_request_def Let_def rf1_def flip: h_def)
  moreover have "take 20 d @ drop (length (take 20 d)) (rf_recv_buffer rf) = h"
    using assms(1) len by (simp add: rf_inv_def flip: h_def)
  ultimately show ?thesis by (simp add: rf1_def)
qed

lemma handle_request_silent:
  assumes "rf_inv rf"
    and "length d < 20 \<or> take 10 d \<noteq> session (rf_packet_builder rf) \<or>
      (\<forall>seq count. take 20 d = header_of (session (rf_packet_builder rf)) seq count \<longrightarrow> file_position_for rb seq = Inr None)"
  shows "\<exists>rf'. handle_request b e t rf rb (Recv_datagram d addr) = Inr (rf', [], t) \<and> rf_inv rf' \<and> rf_same rf rf'"
  using handle_request_refused [OF assms] assms(1) by (simp add: rf_inv_def rf_same_def)

subsection \<open>A worker never faults and stops on request\<close>

lemma rf_same_refl [simp]: "rf_same rf rf"
  by (simp add: rf_same_def)

lemma rf_same_trans: "rf_same r1 r2 \<Longrightarrow> rf_same r2 r3 \<Longrightarrow> rf_same r1 r3"
  by (simp add: rf_same_def)

lemma rf_same_asserts: "rf_same rf rf' \<Longrightarrow> rf_asserts_hold b rf' = rf_asserts_hold b rf"
  by (simp add: rf_same_def rf_asserts_hold_def fun_eq_iff)

text \<open>Any datagram, any error: the worker answers with at most one packet and keeps its invariant.\<close>

lemma handle_request_total:
  assumes "rf_inv rf" and "\<And>seq pos. file_position_for rb seq = Inr (Some pos) \<Longrightarrow> rf_asserts_hold b rf pos"
    and "\<not> debug_no_network b" and "rb_rep rb ps"
  shows "\<exists>rf' evs t'. handle_request b e t rf rb r = Inr (rf', evs, t') \<and> rf_inv rf' \<and> rf_same rf rf' \<and>
    length (datagrams evs) \<le> 1 \<and> t \<le> t'"
proof (cases r)
  case (Recv_error err)
  then show ?thesis using assms(1) by (simp add: handle_request_def)
next
  case (Recv_datagram d addr)
  show ?thesis
  proof (cases "\<exists>seq count pos. take 20 d = header_of (session (rf_packet_builder rf)) seq count \<and>
      file_position_for rb seq = Inr (Some pos)")
    case True
    then obtain seq count pos where "take 20 d = header_of (session (rf_packet_builder rf)) seq count"
      "file_position_for rb seq = Inr (Some pos)" by blast
    then obtain rf' where "handle_request b e t rf rb (Recv_datagram d addr) =
      Inr (rf', Send addr (mold_packet (session (rf_packet_builder rf)) seq (retransmitted rf pos count)) (send_result_at e t) #
              (if send_result_at e t < 0 then [Logged_error] else []), Suc t)" "rf_inv rf'" "rf_same rf rf'"
      using handle_request_serves [OF assms(1) assms(2) assms(3)] by metis
    then show ?thesis using Recv_datagram by simp
  next
    case False
    have "\<exists>x. file_position_for rb seq = Inr x" for seq using file_position_for_rep [OF assms(4)] by simp
    then have "file_position_for rb seq = Inr None"
      if "take 20 d = header_of (session (rf_packet_builder rf)) seq count" for seq count
      using False that by (metis option.exhaust)
    then show ?thesis using handle_request_silent [OF assms(1), of d rb b e t addr] Recv_datagram by fastforce
  qed
qed

text \<open>What the worker relies on: the operating system's calls behave as documented (an interrupted wait
  or at most \<open>MAX_EVENTS\<close> events, stored as counted) and the buffer it reads is one the downstream feed made.\<close>

definition epoll_documented :: "epoll_result \<Rightarrow> bool" where
  "epoll_documented r \<longleftrightarrow>
     ep_nfds r = - 1 \<and> (ep_errno r = EINTR \<or> ep_errno r = EAGAIN) \<or>
     0 \<le> ep_nfds r \<and> ep_nfds r \<le> 2 \<and> length (ep_events r) = nat (ep_nfds r)"

definition worker_ready :: "build \<Rightarrow> worker_env \<Rightarrow> retransmission_feed \<Rightarrow> bool" where
  "worker_ready b w rf \<longleftrightarrow>
     rf_inv rf \<and> \<not> debug_no_network b \<and>
     (\<forall>t seq pos. file_position_for (we_buffer_at w t) seq = Inr (Some pos) \<longrightarrow> rf_asserts_hold b rf pos) \<and>
     (\<forall>t. epoll_documented (we_epoll_at w t)) \<and> (\<forall>t. \<exists>ps. rb_rep (we_buffer_at w t) ps)"

definition shutdown_reported :: "epoll_result \<Rightarrow> int \<Rightarrow> bool" where
  "shutdown_reported r fd \<longleftrightarrow> 0 < ep_nfds r \<and> fd \<in> ev_fd ` set (ep_events r)"

lemma process_events_ok:
  assumes "worker_ready b w rf" and "i \<le> n" and "n \<le> 2"
  shows "\<exists>stop rf' evs t'. process_events b w t rf i n = Inr (stop, rf', evs, t') \<and> worker_ready b w rf' \<and>
    rf_same rf rf' \<and> t \<le> t' \<and> stop = (rf_shutdown_fd rf \<in> ev_fd ` set (segment (rf_epoll_events rf) i (n - i)))"
  using assms
proof (induction "n - i" arbitrary: i t rf)
  case 0
  then show ?case by (subst process_events.simps) (auto simp: segment_def)
next
  case (Suc k)
  let ?ev = "rf_epoll_events rf ! i"
  have i: "i < n" "i < length (rf_epoll_events rf)" using Suc.hyps(2) Suc.prems by (simp_all add: worker_ready_def rf_inv_def)
  have "Suc (n - Suc i) = n - i" using i(1) by simp
  then have seg: "segment (rf_epoll_events rf) i (n - i) = ?ev # segment (rf_epoll_events rf) (Suc i) (n - Suc i)"
    unfolding segment_def using i(2) by (metis Cons_nth_drop_Suc take_Suc_Cons)
  show ?case
  proof (cases "ev_fd ?ev = rf_shutdown_fd rf")
    case True
    then show ?thesis using i Suc.prems(1) by (subst process_events.simps) (auto simp: seg)
  next
    case False
    obtain rf1 evs1 t1 where h: "(if ev_events ?ev AND EPOLLIN \<noteq> 0
          then handle_request b (we_env w) (Suc t) rf (we_buffer_at w t) (we_recv_at w t)
          else Inr (rf, [], t)) = Inr (rf1, evs1, t1)" "rf_inv rf1" "rf_same rf rf1" "t \<le> t1"
      using Suc.prems(1) handle_request_total [of rf "we_buffer_at w t" b _ "we_env w" "Suc t" "we_recv_at w t"]
      by (cases "ev_events ?ev AND EPOLLIN \<noteq> 0") (auto simp: worker_ready_def dest: Suc_leD, metis Suc_leD)
    have k: "k = n - Suc i" using Suc.hyps(2) by simp
    have "worker_ready b w rf1" using Suc.prems(1) h(2,3) by (simp add: worker_ready_def rf_same_asserts)
    then obtain stop rf' evs t' where IH: "process_events b w t1 rf1 (Suc i) n = Inr (stop, rf', evs, t')"
      "worker_ready b w rf'" "rf_same rf1 rf'" "t1 \<le> t'"
      "stop = (rf_shutdown_fd rf1 \<in> ev_fd ` set (segment (rf_epoll_events rf1) (Suc i) (n - Suc i)))"
      using Suc.hyps(1) [of "Suc i" rf1 t1] k i(1) Suc.prems(3) by (metis Suc_leI)
    have "process_events b w t rf i n = Inr (stop, rf', evs1 @ evs, t')"
      using i False h(1) IH(1) by (subst process_events.simps) simp
    moreover have "stop = (rf_shutdown_fd rf \<in> ev_fd ` set (segment (rf_epoll_events rf) i (n - i)))"
      using IH(5) h(3) False by (auto simp: seg rf_same_def)
    ultimately show ?thesis using IH(2,4) h(4) rf_same_trans [OF h(3) IH(3)] by auto
  qed
qed

lemma unat_event_count:
  assumes "0 \<le> k" and "k \<le> 2"
  shows "unat (word_of_int k :: u64) = nat k"
proof -
  have "k = 0 \<or> k = 1 \<or> k = 2" using assms by auto
  then show ?thesis by auto
qed

lemma overwrite_two:
  assumes "length old = 2" and "length new \<le> 2"
  shows "segment (overwrite old 0 new) 0 (length new) = new" and "length (overwrite old 0 new) = 2"
  using assms by (simp_all add: segment_overwrite_same)

lemma iteration_ok:
  assumes "worker_ready b w rf"
  shows "\<exists>stop rf' evs t'. retransmission_iteration b w t rf = Inr (stop, rf', evs, t') \<and> worker_ready b w rf' \<and>
    rf_shutdown_fd rf' = rf_shutdown_fd rf \<and> t < t' \<and>
    stop = shutdown_reported (we_epoll_at w t) (rf_shutdown_fd rf)"
proof -
  let ?r = "we_epoll_at w t"
  define evs where "evs = take (nat (ep_nfds ?r)) (ep_events ?r)"
  define rf1 where "rf1 = rf\<lparr>rf_epoll_events := overwrite (rf_epoll_events rf) 0 evs\<rparr>"
  have doc: "epoll_documented ?r" and inv: "rf_inv rf" using assms by (simp_all add: worker_ready_def)
  have evs: "length evs \<le> 2" using doc by (auto simp: epoll_documented_def evs_def)
  have two: "segment (rf_epoll_events rf1) 0 (length evs) = evs" "length (rf_epoll_events rf1) = 2"
    using overwrite_two [OF _ evs] inv by (simp_all add: rf_inv_def rf1_def)
  have ready: "worker_ready b w rf1"
    using assms two(2) by (simp add: worker_ready_def rf_inv_def rf_asserts_hold_def rf1_def)
  show ?thesis
  proof (cases "ep_nfds ?r < 0")
    case True
    then have "ep_errno ?r = EINTR \<or> ep_errno ?r = EAGAIN" using doc by (auto simp: epoll_documented_def)
    then show ?thesis
      using True ready by (auto simp: retransmission_iteration_def store_events_def shutdown_reported_def evs_def rf1_def Let_def)
  next
    case False
    then have "0 \<le> ep_nfds ?r" "ep_nfds ?r \<le> 2" "length (ep_events ?r) = nat (ep_nfds ?r)"
      using doc by (auto simp: epoll_documented_def)
    then have n: "unat (word_of_int (ep_nfds ?r) :: u64) = length evs" "evs = ep_events ?r" "length evs = nat (ep_nfds ?r)"
      using unat_event_count by (simp_all add: evs_def)
    obtain stop rf' evs' t' where p: "process_events b w (Suc t) rf1 0 (length evs) = Inr (stop, rf', evs', t')"
      "worker_ready b w rf'" "rf_same rf1 rf'" "Suc t \<le> t'" "stop = (rf_shutdown_fd rf1 \<in> ev_fd ` set evs)"
      using process_events_ok [OF ready _ evs, of 0 "Suc t"] two(1) by auto
    have "retransmission_iteration b w t rf = Inr (stop, rf', evs', t')"
      using False n(1) p(1) by (simp add: retransmission_iteration_def store_events_def Let_def flip: evs_def rf1_def)
    moreover have "stop = shutdown_reported ?r (rf_shutdown_fd rf)"
      using p(5) n(2,3) by (cases "0 < ep_nfds ?r") (simp_all add: shutdown_reported_def rf1_def)
    moreover have "rf_shutdown_fd rf' = rf_shutdown_fd rf" using p(3) by (simp add: rf_same_def rf1_def)
    ultimately show ?thesis using p(2,4) by auto
  qed
qed

text \<open>The event descriptor is level triggered: once signalled, every later wait reports it.\<close>

lemma worker_stops:
  assumes "worker_ready b w rf" and "\<And>t. t0 \<le> t \<Longrightarrow> shutdown_reported (we_epoll_at w t) (rf_shutdown_fd rf)"
    and "t0 \<le> t + k"
  shows "\<exists>rf' evs t'. retransmission_start (Suc k) b w t rf = Some (Inr (rf', evs, t')) \<and> worker_ready b w rf'"
  using assms
proof (induction k arbitrary: t rf)
  case 0
  then show ?case using iteration_ok [OF "0.prems"(1), of t] by auto
next
  case (Suc k)
  obtain stop rf1 evs1 t1 where it: "retransmission_iteration b w t rf = Inr (stop, rf1, evs1, t1)"
    "worker_ready b w rf1" "rf_shutdown_fd rf1 = rf_shutdown_fd rf" "t < t1"
    using iteration_ok [OF Suc.prems(1), of t] by blast
  show ?case
  proof (cases stop)
    case True
    then show ?thesis using it by simp
  next
    case False
    have "t0 \<le> t1 + k" using Suc.prems(3) it(4) by simp
    then obtain rf' evs t' where "retransmission_start (Suc k) b w t1 rf1 = Some (Inr (rf', evs, t'))" "worker_ready b w rf'"
      using Suc.IH [OF it(2)] Suc.prems(2) unfolding it(3) by blast
    then show ?thesis
      using it(1) False by (subst retransmission_start.simps) (simp del: retransmission_start.simps)
  qed
qed

text \<open>A wait that fails for any other reason is reported, and then the loop runs over the event array up to an
  unsigned \<open>-1\<close>: it leaves at a shutdown event stored earlier, or runs past the end of the array.\<close>

lemma process_events_overrun:
  assumes "rf_inv rf" and "\<not> debug_no_network b"
    and "\<forall>t seq pos. file_position_for (we_buffer_at w t) seq = Inr (Some pos) \<longrightarrow> rf_asserts_hold b rf pos"
    and "\<forall>t. \<exists>ps. rb_rep (we_buffer_at w t) ps" and "i \<le> 2" and "2 < n"
  shows "if rf_shutdown_fd rf \<in> ev_fd ` set (drop i (rf_epoll_events rf))
    then \<exists>rf' evs t'. process_events b w t rf i n = Inr (True, rf', evs, t')
    else process_events b w t rf i n = Inl Out_of_bounds"
  using assms
proof (induction "2 - i" arbitrary: i t rf)
  case 0
  then show ?case by (subst process_events.simps) (simp add: rf_inv_def)
next
  case (Suc k)
  let ?ev = "rf_epoll_events rf ! i"
  have i: "i < n" "i < length (rf_epoll_events rf)" "k = 2 - Suc i" "Suc i \<le> 2" using Suc.hyps(2) Suc.prems by (simp_all add: rf_inv_def)
  have drop: "drop i (rf_epoll_events rf) = ?ev # drop (Suc i) (rf_epoll_events rf)" using i(2) by (simp add: Cons_nth_drop_Suc)
  show ?case
  proof (cases "ev_fd ?ev = rf_shutdown_fd rf")
    case True
    then show ?thesis using i by (subst process_events.simps) (auto simp: drop)
  next
    case False
    obtain rf1 evs1 t1 where h: "(if ev_events ?ev AND EPOLLIN \<noteq> 0
          then handle_request b (we_env w) (Suc t) rf (we_buffer_at w t) (we_recv_at w t)
          else Inr (rf, [], t)) = Inr (rf1, evs1, t1)" "rf_inv rf1" "rf_same rf rf1"
      using Suc.prems(1-4) handle_request_total [of rf "we_buffer_at w t" b _ "we_env w" "Suc t" "we_recv_at w t"]
      by (cases "ev_events ?ev AND EPOLLIN \<noteq> 0") (auto, metis)
    have "\<forall>t seq pos. file_position_for (we_buffer_at w t) seq = Inr (Some pos) \<longrightarrow> rf_asserts_hold b rf1 pos"
      using Suc.prems(3) h(3) by (simp add: rf_same_asserts)
    note IH = Suc.hyps(1) [OF i(3) h(2) Suc.prems(2) this Suc.prems(4) i(4) Suc.prems(6), of t1]
    have "process_events b w t rf i n = andThen (process_events b w t1 rf1 (Suc i) n) (\<lambda>(stop, rf'', evs', t''). Inr (stop, rf'', evs1 @ evs', t''))"
      using i False h(1) by (subst process_events.simps) simp
    then show ?thesis using IH h(3) False by (auto simp: drop rf_same_def split: if_splits)
  qed
qed

section \<open>Properties\<close>

text \<open>
  Any datagram is safe: the worker does not fault, keeps its invariant and its configuration, and
  answers with at most one packet, which goes to the sender of the request and fits the MTU.
\<close>

theorem request_safe:
  assumes "rf_inv rf" and "\<forall>seq pos. file_position_for rb seq = Inr (Some pos) \<longrightarrow> rf_asserts_hold b rf pos"
    and "\<not> debug_no_network b" and "rb_rep rb ps"
  shows "\<exists>rf' evs t'. handle_request b e t rf rb (Recv_datagram d addr) = Inr (rf', evs, t') \<and> rf_inv rf' \<and> rf_same rf rf' \<and>
    (evs = [] \<or> (\<exists>packet r. evs = Send addr packet r # (if r < 0 then [Logged_error] else []) \<and>
       length packet \<le> pb_MTU (rf_packet_builder rf)))"
proof (cases "\<exists>seq count pos. take 20 d = header_of (session (rf_packet_builder rf)) seq count \<and>
      file_position_for rb seq = Inr (Some pos)")
  case True
  then obtain seq count pos where req: "take 20 d = header_of (session (rf_packet_builder rf)) seq count"
    "file_position_for rb seq = Inr (Some pos)" by blast
  have inv: "pb_inv (rf_packet_builder rf)" using assms(1) by (simp add: rf_inv_def)
  have asserts: "rf_asserts_hold b rf pos" using assms(2) req(2) by blast
  obtain rf' where "handle_request b e t rf rb (Recv_datagram d addr) =
      Inr (rf', Send addr (mold_packet (session (rf_packet_builder rf)) seq (retransmitted rf pos count)) (send_result_at e t) #
              (if send_result_at e t < 0 then [Logged_error] else []), Suc t)" "rf_inv rf'" "rf_same rf rf'"
    using handle_request_serves [OF assms(1) asserts assms(3) req] by metis
  moreover have "length (mold_packet (session (rf_packet_builder rf)) seq (retransmitted rf pos count)) \<le> pb_MTU (rf_packet_builder rf)"
    unfolding length_mold_packet [OF session_length [OF inv]] retransmitted_def
    using fit_size [of "pb_MTU (rf_packet_builder rf) - 20"] pb_invD(2) [OF inv] by (metis add.commute le_diff_conv2)
  ultimately show ?thesis by blast
next
  case False
  have "\<exists>x. file_position_for rb seq = Inr x" for seq using file_position_for_rep [OF assms(4)] by simp
  then have "\<forall>seq count. take 20 d = header_of (session (rf_packet_builder rf)) seq count \<longrightarrow> file_position_for rb seq = Inr None"
    using False by (metis option.exhaust)
  then show ?thesis using handle_request_silent [OF assms(1)] by metis
qed

text \<open>
  C31. A request that is too short, is for another session, or asks for a message outside the window gets no
  answer: nothing is sent, and the worker is the one it was but for the first 20 bytes of the datagram, which are in the
  receive buffer. In particular the packet builder is untouched.
\<close>

theorem request_refused:
  assumes "rf_inv rf"
    and "length d < 20 \<or> take 10 d \<noteq> session (rf_packet_builder rf) \<or>
      (\<forall>seq count. take 20 d = header_of (session (rf_packet_builder rf)) seq count \<longrightarrow> file_position_for rb seq = Inr None)"
  shows "handle_request b e t rf rb (Recv_datagram d addr) =
    Inr (rf\<lparr>rf_recv_buffer := take 20 d @ drop (length (take 20 d)) (rf_recv_buffer rf)\<rparr>, [], t)"
  using handle_request_refused [OF assms] .

text \<open>
  C21. A worker's loop ends: with the operating system behaving as documented and the shutdown descriptor
  reported by every wait from tick \<open>t0\<close> on, \<open>retransmission::Feed::start\<close> returns without a fault, within
  \<open>t0 - t + 1\<close> turns, whatever it received before.
\<close>

theorem worker_stops_on_shutdown:
  assumes "worker_ready b w rf" and "\<forall>u. t0 \<le> u \<longrightarrow> shutdown_reported (we_epoll_at w u) (rf_shutdown_fd rf)"
  shows "\<exists>rf' evs t'. retransmission_start (Suc (t0 - t)) b w t rf = Some (Inr (rf', evs, t')) \<and> rf_inv rf'"
proof -
  have "t0 \<le> t + (t0 - t)" by simp
  then show ?thesis using worker_stops [OF assms(1), of t0 t "t0 - t"] assms(2) unfolding worker_ready_def by blast
qed

text \<open>
  C38. When \<open>epoll_wait\<close> fails for another reason than an interruption, the error is logged and the loop over the
  events runs anyway, up to -1 as an unsigned number, over the events that earlier waits have stored. When one of the two
  stored events is for the shutdown descriptor, the worker takes it for a shutdown; otherwise, as for a worker that has had
  requests only or nothing at all, the loop runs past the end of the event array. The conditions are those under which
  the requests it may serve on the way are safe (C21).
\<close>

theorem worker_epoll_failure:
  assumes "ep_nfds (we_epoll_at w t) = - 1" and "ep_errno (we_epoll_at w t) \<noteq> EINTR" and "ep_errno (we_epoll_at w t) \<noteq> EAGAIN"
    and "rf_inv rf" and "\<not> debug_no_network b"
    and "\<forall>t seq pos. file_position_for (we_buffer_at w t) seq = Inr (Some pos) \<longrightarrow> rf_asserts_hold b rf pos"
    and "\<forall>t. \<exists>ps. rb_rep (we_buffer_at w t) ps"
  shows "if rf_shutdown_fd rf \<in> ev_fd ` set (rf_epoll_events rf)
    then \<exists>rf' evs t'. retransmission_iteration b w t rf = Inr (True, rf', Logged_error # evs, t')
    else retransmission_iteration b w t rf = Inl Out_of_bounds"
proof -
  let ?n = "unat (word_of_int (- 1) :: u64)"
  have "2 < ?n" by (simp add: unsigned_minus_1_eq_mask mask_eq_exp_minus_1)
  from process_events_overrun [OF assms(4-7) _ this, of 0 "Suc t"]
  have "if rf_shutdown_fd rf \<in> ev_fd ` set (rf_epoll_events rf)
    then \<exists>rf' evs t'. process_events b w (Suc t) rf 0 ?n = Inr (True, rf', evs, t')
    else process_events b w (Suc t) rf 0 ?n = Inl Out_of_bounds" by simp
  moreover have "rf\<lparr>rf_epoll_events := store_events (rf_epoll_events rf) (we_epoll_at w t)\<rparr> = rf"
    using assms(1) by (simp add: store_events_def overwrite_def)
  ultimately show ?thesis using assms(1-3) by (auto simp: retransmission_iteration_def Let_def split: if_splits)
qed

end
