(* ===== verification/File_Descriptor.thy ===== *)
theory File_Descriptor
  imports Prelude
begin

text \<open>
  \<open>src/include/imr/util/file_descriptor.h\<close>, \<open>src/src/util/file_descriptor.cpp\<close>: the owning wrapper of a
  descriptor. The operating system is a table of open descriptors (\<open>k_open\<close>) and a flag that records a
  \<open>close\<close> of a descriptor that is not open, which is how a double close shows. Constructors that make a
  system call take its result as an argument.

  \<open>fd_step\<close> runs the operations on any number of objects in any order. The invariant is ownership: every
  open descriptor that was acquired is held by exactly one live object, so none is closed twice and none
  is left open when the objects are gone.
\<close>

record kernel =
  k_open :: "int set"
  k_bad_close :: bool

record file_descriptor =
  fd_value :: int

definition close_fd :: "int \<Rightarrow> kernel \<Rightarrow> kernel" where
  "close_fd fd k = (if fd \<in> k_open k then k\<lparr>k_open := k_open k - {fd}\<rparr> else k\<lparr>k_bad_close := True\<rparr>)"

text \<open>A system call that yields a descriptor: the table gains it when the result is not negative.\<close>

definition acquire :: "int \<Rightarrow> kernel \<Rightarrow> kernel" where
  "acquire ret k = (if ret < 0 then k else k\<lparr>k_open := insert ret (k_open k)\<rparr>)"

record path_env =
  pe_exists :: bool
  pe_is_directory :: bool
  pe_open_ret :: int
  pe_errno :: int

subsection \<open>The class\<close>

definition fd_default :: file_descriptor where
  "fd_default = \<lparr>fd_value = - 1\<rparr>"

definition fd_from_int :: "int \<Rightarrow> file_descriptor res" where
  "fd_from_int fd = (if fd < 0 then Inl Invalid_argument else Inr \<lparr>fd_value = fd\<rparr>)"

definition fd_from_path :: "path_env \<Rightarrow> kernel \<Rightarrow> file_descriptor res \<times> kernel" where
  "fd_from_path pe k =
     (if \<not> pe_exists pe \<or> pe_is_directory pe then (Inl Invalid_argument, k)
      else let fd = pe_open_ret pe; k' = acquire fd k in
        if fd < 0 then (Inl (System_error (pe_errno pe)), k')
        else (Inr \<lparr>fd_value = fd\<rparr>, k'))"

definition fd_from_syscall :: "int \<Rightarrow> int \<Rightarrow> kernel \<Rightarrow> file_descriptor res \<times> kernel" where
  "fd_from_syscall ret errno k =
     (let k' = acquire ret k in
      if ret < 0 then (Inl (System_error errno), k') else (Inr \<lparr>fd_value = ret\<rparr>, k'))"

definition fd_move_construct :: "file_descriptor \<Rightarrow> file_descriptor \<times> file_descriptor" where
  "fd_move_construct other = (\<lparr>fd_value = fd_value other\<rparr>, other\<lparr>fd_value := - 1\<rparr>)"

definition fd_cleanup :: "file_descriptor \<Rightarrow> kernel \<Rightarrow> kernel" where
  "fd_cleanup d k = (if 0 \<le> fd_value d then close_fd (fd_value d) k else k)"

text \<open>The first argument of \<open>fd_move_assign\<close> is whether the two references name the same object, \<open>this == &other\<close>.\<close>

definition fd_move_assign ::
  "bool \<Rightarrow> file_descriptor \<Rightarrow> file_descriptor \<Rightarrow> kernel \<Rightarrow> file_descriptor \<times> file_descriptor \<times> kernel" where
  "fd_move_assign same this other k =
     (if \<not> same
      then let k' = fd_cleanup this k in (this\<lparr>fd_value := fd_value other\<rparr>, other\<lparr>fd_value := - 1\<rparr>, k')
      else (this, other, k))"

definition fd_destroy :: "file_descriptor \<Rightarrow> kernel \<Rightarrow> kernel" where
  "fd_destroy d k = fd_cleanup d k"

definition fd_get :: "file_descriptor \<Rightarrow> int" where
  "fd_get d = fd_value d"

subsection \<open>Objects and their owner\<close>

record fd_world =
  fw_objects :: "nat \<Rightarrow> file_descriptor option"
  fw_kernel :: kernel
  fw_foreign :: "int set"

text \<open>\<open>fw_foreign\<close>: open descriptors that no object holds, such as one about to be wrapped. The operating
  system returns only descriptors that are not open. \<open>move_assign\<close> allows \<open>a = b\<close>, the assignment of an object to itself:
  \<open>std::exchange\<close> empties the source before the target is written, so the target is written last.\<close>

inductive fd_step :: "fd_world \<Rightarrow> fd_world \<Rightarrow> bool" where
  construct_default: "fw_objects w a = None \<Longrightarrow>
    fd_step w (w\<lparr>fw_objects := (fw_objects w)(a \<mapsto> fd_default)\<rparr>)"
| construct_int: "fw_objects w a = None \<Longrightarrow> fd \<in> fw_foreign w \<Longrightarrow> fd_from_int fd = Inr d \<Longrightarrow>
    fd_step w (w\<lparr>fw_objects := (fw_objects w)(a \<mapsto> d), fw_foreign := fw_foreign w - {fd}\<rparr>)"
| construct_path: "fw_objects w a = None \<Longrightarrow> pe_open_ret pe \<notin> k_open (fw_kernel w) \<Longrightarrow>
    fd_from_path pe (fw_kernel w) = (r, k) \<Longrightarrow>
    fd_step w (w\<lparr>fw_objects := (case r of Inl _ \<Rightarrow> fw_objects w | Inr d \<Rightarrow> (fw_objects w)(a \<mapsto> d)), fw_kernel := k\<rparr>)"
| construct_syscall: "fw_objects w a = None \<Longrightarrow> ret \<notin> k_open (fw_kernel w) \<Longrightarrow>
    fd_from_syscall ret err (fw_kernel w) = (r, k) \<Longrightarrow>
    fd_step w (w\<lparr>fw_objects := (case r of Inl _ \<Rightarrow> fw_objects w | Inr d \<Rightarrow> (fw_objects w)(a \<mapsto> d)), fw_kernel := k\<rparr>)"
| move_construct: "fw_objects w a = None \<Longrightarrow> fw_objects w b = Some other \<Longrightarrow>
    fd_move_construct other = (d, other') \<Longrightarrow>
    fd_step w (w\<lparr>fw_objects := (fw_objects w)(a \<mapsto> d, b \<mapsto> other')\<rparr>)"
| move_assign: "fw_objects w a = Some this \<Longrightarrow> fw_objects w b = Some other \<Longrightarrow>
    fd_move_assign (a = b) this other (fw_kernel w) = (this', other', k) \<Longrightarrow>
    fd_step w (w\<lparr>fw_objects := (fw_objects w)(b \<mapsto> other', a \<mapsto> this'), fw_kernel := k\<rparr>)"
| destroy: "fw_objects w a = Some d \<Longrightarrow>
    fd_step w (w\<lparr>fw_objects := (fw_objects w)(a := None), fw_kernel := fd_destroy d (fw_kernel w)\<rparr>)"

definition owns :: "fd_world \<Rightarrow> nat \<Rightarrow> int \<Rightarrow> bool" where
  "owns w a fd \<longleftrightarrow> 0 \<le> fd \<and> fw_objects w a = Some \<lparr>fd_value = fd\<rparr>"

definition fd_init :: "fd_world \<Rightarrow> bool" where
  "fd_init w \<longleftrightarrow> fw_objects w = (\<lambda>_. None) \<and> \<not> k_bad_close (fw_kernel w) \<and> k_open (fw_kernel w) = fw_foreign w"

text \<open>Ownership, over a relation \<open>own a fd\<close> between objects and descriptors.\<close>

definition ownership :: "(nat \<Rightarrow> int \<Rightarrow> bool) \<Rightarrow> int set \<Rightarrow> int set \<Rightarrow> bool" where
  "ownership own op fo \<longleftrightarrow>
     (\<forall>fd. fd \<in> op \<longleftrightarrow> fd \<in> fo \<or> (\<exists>a. own a fd)) \<and> (\<forall>a fd. own a fd \<longrightarrow> fd \<notin> fo) \<and>
     (\<forall>a b fd. own a fd \<longrightarrow> own b fd \<longrightarrow> a = b)"

lemma ownershipI:
  assumes "\<And>fd. fd \<in> op \<Longrightarrow> fd \<notin> fo \<Longrightarrow> \<exists>a. own a fd" and "\<And>fd. fd \<in> fo \<Longrightarrow> fd \<in> op"
    and "\<And>a fd. own a fd \<Longrightarrow> fd \<in> op \<and> fd \<notin> fo" and "\<And>a b fd. own a fd \<Longrightarrow> own b fd \<Longrightarrow> a = b"
  shows "ownership own op fo"
  using assms unfolding ownership_def by blast

lemma ownershipD:
  assumes "ownership own op fo"
  shows "fd \<in> op \<Longrightarrow> fd \<notin> fo \<Longrightarrow> \<exists>a. own a fd" and "fd \<in> fo \<Longrightarrow> fd \<in> op"
    and "own a fd \<Longrightarrow> fd \<in> op" and "own a fd \<Longrightarrow> fd \<notin> fo" and "own a fd \<Longrightarrow> own b fd \<Longrightarrow> a = b"
  using assms unfolding ownership_def by blast+

lemma ownership_add:
  assumes "ownership own op fo" and "\<And>fd. \<not> own a fd" and "fd0 \<notin> op \<or> fd0 \<in> fo"
    and "\<And>b fd. own' b fd \<longleftrightarrow> (if b = a then fd = fd0 else own b fd)"
  shows "ownership own' (insert fd0 op) (fo - {fd0})"
proof (rule ownershipI)
  have new: "own' a fd0" and old: "\<And>b fd. own b fd \<Longrightarrow> own' b fd" using assms(2,4) by auto
  note own = ownershipD [OF assms(1)]
  show "\<exists>b. own' b fd" if "fd \<in> insert fd0 op" "fd \<notin> fo - {fd0}" for fd
    using that new old own(1) by blast
  show "fd \<in> insert fd0 op" if "fd \<in> fo - {fd0}" for fd using that own(2) by blast
  have fresh: "\<not> own b fd0" for b using assms(3) own(3,4) by blast
  show "fd \<in> insert fd0 op \<and> fd \<notin> fo - {fd0}" if "own' b fd" for b fd
    using that own(3,4) by (auto simp: assms(4) split: if_splits)
  show "b = c" if "own' b fd" "own' c fd" for b c fd
    using that fresh own(5) by (auto simp: assms(4) split: if_splits)
qed

lemma ownership_remove:
  assumes "ownership own op fo" and "own a fd0" and "\<And>fd. own a fd \<Longrightarrow> fd = fd0"
    and "\<And>b fd. own' b fd \<longleftrightarrow> b \<noteq> a \<and> own b fd"
  shows "ownership own' (op - {fd0}) fo"
proof (rule ownershipI)
  note own = ownershipD [OF assms(1)]
  show "\<exists>b. own' b fd" if "fd \<in> op - {fd0}" "fd \<notin> fo" for fd
    using that own(1) [of fd] assms(3) [of fd] unfolding assms(4) by (metis DiffE insertI1)
  show "fd \<in> op - {fd0}" if "fd \<in> fo" for fd using that own(2) own(4) [OF assms(2)] by blast
  show "fd \<in> op - {fd0} \<and> fd \<notin> fo" if "own' b fd" for b fd
    using that own(3,4,5) assms(2) unfolding assms(4) by blast
  show "b = c" if "own' b fd" "own' c fd" for b c fd using that own(5) unfolding assms(4) by blast
qed

lemma ownership_move:
  assumes "ownership own op fo" and "\<And>fd. \<not> own a fd" and "a \<noteq> b"
    and "\<And>c fd. own' c fd \<longleftrightarrow> (if c = b then False else if c = a then own b fd else own c fd)"
  shows "ownership own' op fo"
proof (rule ownershipI)
  note own = ownershipD [OF assms(1)]
  show "\<exists>c. own' c fd" if fd: "fd \<in> op" "fd \<notin> fo" for fd
  proof -
    obtain c where c: "own c fd" using own(1) fd by blast
    then have "own' (if c = b then a else c) fd" using assms(2,3) unfolding assms(4) by auto
    then show ?thesis by blast
  qed
  show "fd \<in> op" if "fd \<in> fo" for fd using own(2) that .
  show "fd \<in> op \<and> fd \<notin> fo" if "own' c fd" for c fd
    using that own(3,4) by (auto simp: assms(4) split: if_splits)
  show "c = d" if "own' c fd" "own' d fd" for c d fd
    using that own(5) by (auto simp: assms(4) split: if_splits)
qed

definition fd_inv :: "fd_world \<Rightarrow> bool" where
  "fd_inv w \<longleftrightarrow> \<not> k_bad_close (fw_kernel w) \<and> ownership (owns w) (k_open (fw_kernel w)) (fw_foreign w)"

lemma owns_iff: "fw_objects w a = Some d \<Longrightarrow> owns w a fd \<longleftrightarrow> 0 \<le> fd \<and> fd_value d = fd"
  by (cases d) (auto simp: owns_def)

lemma owns_None: "fw_objects w a = None \<Longrightarrow> \<not> owns w a fd"
  by (simp add: owns_def)

lemma fd_inv_acquire:
  assumes "fd_inv w" and "fw_objects w a = None" and "ret \<notin> k_open (fw_kernel w)" and "0 \<le> ret"
  shows "fd_inv (w\<lparr>fw_objects := (fw_objects w)(a \<mapsto> \<lparr>fd_value = ret\<rparr>), fw_kernel := acquire ret (fw_kernel w)\<rparr>)"
    (is "fd_inv ?w")
proof -
  have "owns ?w b fd \<longleftrightarrow> (if b = a then fd = ret else owns w b fd)" for b fd
    using assms(4) by (auto simp: owns_def)
  moreover have "ret \<notin> fw_foreign w" using assms(1,3) ownershipD(2) by (auto simp: fd_inv_def)
  ultimately show ?thesis
    using ownership_add [of "owns w" "k_open (fw_kernel w)" "fw_foreign w" a ret "owns ?w"] assms owns_None [OF assms(2)]
    by (simp add: fd_inv_def acquire_def)
qed

lemma fd_inv_wrap:
  assumes "fd_inv w" and "fw_objects w a = None" and "fd \<in> fw_foreign w" and "0 \<le> fd"
  shows "fd_inv (w\<lparr>fw_objects := (fw_objects w)(a \<mapsto> \<lparr>fd_value = fd\<rparr>), fw_foreign := fw_foreign w - {fd}\<rparr>)"
    (is "fd_inv ?w")
proof -
  have "owns ?w b x \<longleftrightarrow> (if b = a then x = fd else owns w b x)" for b x
    using assms(4) by (auto simp: owns_def)
  moreover have "insert fd (k_open (fw_kernel w)) = k_open (fw_kernel w)"
    using assms(1,3) ownershipD(2) by (auto simp: fd_inv_def)
  ultimately show ?thesis
    using ownership_add [of "owns w" "k_open (fw_kernel w)" "fw_foreign w" a fd "owns ?w"] assms owns_None [OF assms(2)]
    by (simp add: fd_inv_def)
qed

text \<open>Closing what an object holds, and forgetting it.\<close>

lemma fd_inv_release:
  assumes "fd_inv w" and "fw_objects w a = Some d"
  shows "fd_inv (w\<lparr>fw_objects := (fw_objects w)(a := None), fw_kernel := fd_cleanup d (fw_kernel w)\<rparr>)" (is "fd_inv ?w")
proof -
  have o: "owns ?w b fd \<longleftrightarrow> b \<noteq> a \<and> owns w b fd" for b fd by (auto simp: owns_def)
  have own: "ownership (owns w) (k_open (fw_kernel w)) (fw_foreign w)" using assms(1) by (simp add: fd_inv_def)
  show ?thesis
  proof (cases "0 \<le> fd_value d")
    case True
    then have a: "owns w a (fd_value d)" "\<And>fd. owns w a fd \<Longrightarrow> fd = fd_value d"
      using assms(2) by (simp_all add: owns_iff)
    then have "fd_value d \<in> k_open (fw_kernel w)" using ownershipD(3) [OF own] by blast
    then show ?thesis
      using ownership_remove [OF own a o] assms(1) True by (simp add: fd_inv_def fd_cleanup_def close_fd_def)
  next
    case False
    then have "\<not> owns w a fd" for fd using assms(2) by (auto simp: owns_iff)
    then have "owns ?w b fd = owns w b fd" for b fd using o [of b fd] by (cases "b = a") auto
    then have "owns ?w = owns w" by (intro ext)
    then show ?thesis using assms(1) False by (simp add: fd_inv_def fd_cleanup_def)
  qed
qed

lemma fd_inv_transfer:
  assumes "fd_inv w" and "fw_objects w a = None" and "fw_objects w b = Some other"
  shows "fd_inv (w\<lparr>fw_objects := (fw_objects w)(a \<mapsto> \<lparr>fd_value = fd_value other\<rparr>, b \<mapsto> other\<lparr>fd_value := - 1\<rparr>)\<rparr>)"
    (is "fd_inv ?w")
proof -
  have ab: "a \<noteq> b" using assms(2,3) by auto
  have "owns ?w c fd \<longleftrightarrow> (if c = b then False else if c = a then owns w b fd else owns w c fd)" for c fd
    using ab assms(3) by (cases other) (auto simp: owns_def)
  then show ?thesis
    using ownership_move [of "owns w" _ _ a b "owns ?w"] assms(1) ab owns_None [OF assms(2)] by (simp add: fd_inv_def)
qed

lemma fd_inv_step:
  assumes "fd_inv w" and "fd_step w w'"
  shows "fd_inv w'"
  using assms(2,1)
proof (cases rule: fd_step.cases)
  case (construct_default a)
  then have "owns w' = owns w" by (auto simp: owns_def fd_default_def fun_eq_iff)
  then show ?thesis using assms(1) construct_default by (simp add: fd_inv_def)
next
  case (construct_int a fd d)
  then have "0 \<le> fd" "d = \<lparr>fd_value = fd\<rparr>" by (auto simp: fd_from_int_def split: if_splits)
  then show ?thesis using fd_inv_wrap [OF assms(1)] construct_int by simp
next
  case (construct_path a pe r k)
  then show ?thesis
    using fd_inv_acquire [OF assms(1) construct_path(2,3)] assms(1)
    by (auto simp: fd_from_path_def acquire_def Let_def split: if_splits)
next
  case (construct_syscall a ret err r k)
  then show ?thesis
    using fd_inv_acquire [OF assms(1) construct_syscall(2,3)] assms(1)
    by (auto simp: fd_from_syscall_def acquire_def Let_def split: if_splits)
next
  case (move_construct a b other d other')
  then show ?thesis
    using fd_inv_transfer [OF assms(1) move_construct(2,3)] by (simp add: fd_move_construct_def)
next
  case (move_assign a this b other this' other' k)
  show ?thesis
  proof (cases "a = b")
    case True
    then have "w' = w" using move_assign by (cases w) (auto simp: fd_move_assign_def fun_upd_idem)
    then show ?thesis using assms(1) by simp
  next
    case False
    define w1 where "w1 = w\<lparr>fw_objects := (fw_objects w)(a := None), fw_kernel := fd_cleanup this (fw_kernel w)\<rparr>"
    have "fd_inv w1" unfolding w1_def using fd_inv_release [OF assms(1) move_assign(2)] .
    moreover have "fw_objects w1 a = None" "fw_objects w1 b = Some other" using move_assign(3) False by (simp_all add: w1_def)
    ultimately have "fd_inv (w1\<lparr>fw_objects := (fw_objects w1)(a \<mapsto> \<lparr>fd_value = fd_value other\<rparr>, b \<mapsto> other\<lparr>fd_value := - 1\<rparr>)\<rparr>)"
      by (rule fd_inv_transfer)
    moreover have "this' = \<lparr>fd_value = fd_value other\<rparr>" "other' = other\<lparr>fd_value := - 1\<rparr>"
      "k = fd_cleanup this (fw_kernel w)"
      using move_assign(4) False by (cases this; simp add: fd_move_assign_def Let_def)+
    moreover have "w' = w1\<lparr>fw_objects := (fw_objects w1)(a \<mapsto> this', b \<mapsto> other')\<rparr>"
      using move_assign(1) calculation(4) False by (simp add: w1_def fun_upd_twist)
    ultimately show ?thesis by simp
  qed
next
  case (destroy a d)
  then show ?thesis using fd_inv_release [OF assms(1) destroy(2)] by (simp add: fd_destroy_def)
qed

lemma fd_inv_init: "fd_init w \<Longrightarrow> fd_inv w"
  by (simp add: fd_init_def fd_inv_def ownership_def owns_def)

interpretation fds: invariant_system fd_init fd_step fd_inv
  by standard (fact fd_inv_init, fact fd_inv_step)

section \<open>Properties\<close>

text \<open>
  C28. In every sequence of constructions, moves, move assignments (of an object to itself included) and destructions, on
  any number of objects: no descriptor is ever closed that is not open (so none is closed twice), no two objects hold the
  same descriptor, every descriptor an object holds is open, and the descriptors left open when all objects are gone are
  those nobody wrapped.
\<close>

theorem fd_ownership:
  assumes "reachable fd_init fd_step w"
  shows "\<not> k_bad_close (fw_kernel w) \<and> (\<forall>a b fd. owns w a fd \<and> owns w b fd \<longrightarrow> a = b) \<and>
    (\<forall>a fd. owns w a fd \<longrightarrow> fd \<in> k_open (fw_kernel w)) \<and>
    (fw_objects w = (\<lambda>_. None) \<longrightarrow> k_open (fw_kernel w) = fw_foreign w)"
proof -
  have inv: "\<not> k_bad_close (fw_kernel w)" "ownership (owns w) (k_open (fw_kernel w)) (fw_foreign w)"
    using fds.reachable_inv [OF assms] by (simp_all add: fd_inv_def)
  have "k_open (fw_kernel w) = fw_foreign w" if "fw_objects w = (\<lambda>_. None)"
    using ownershipD(1,2) [OF inv(2)] that by (auto simp: owns_def)
  then show ?thesis using inv ownershipD(3,5) [OF inv(2)] by blast
qed

text \<open>The witness: an object that wraps descriptor 3 is assigned to itself.\<close>

theorem fd_ownership_witness:
  "let w = \<lparr>fw_objects = [0 \<mapsto> \<lparr>fd_value = 3\<rparr>], fw_kernel = \<lparr>k_open = {0, 1, 2, 3}, k_bad_close = False\<rparr>, fw_foreign = {0, 1, 2}\<rparr>
   in fd_step w w \<and> owns w 0 3 \<and> \<not> k_bad_close (fw_kernel w)"
proof -
  let ?w = "\<lparr>fw_objects = (\<lambda>_. None), fw_kernel = \<lparr>k_open = {0, 1, 2}, k_bad_close = False\<rparr>, fw_foreign = {0, 1, 2}\<rparr>"
  let ?v = "\<lparr>fw_objects = [0 \<mapsto> \<lparr>fd_value = 3\<rparr>], fw_kernel = \<lparr>k_open = {0, 1, 2, 3}, k_bad_close = False\<rparr>, fw_foreign = {0, 1, 2}\<rparr>"
  have "reachable fd_init fd_step ?w" by (rule reachable.start) (simp add: fd_init_def)
  moreover have "fd_step ?w ?v"
    using fd_step.construct_syscall [of ?w 0 3 0 "Inr \<lparr>fd_value = 3\<rparr>" "\<lparr>k_open = {0, 1, 2, 3}, k_bad_close = False\<rparr>"]
    by (simp add: fd_from_syscall_def acquire_def insert_commute)
  ultimately have v: "reachable fd_init fd_step ?v" by (rule reachable.advance)
  moreover have self: "fd_step ?v ?v"
    using fd_step.move_assign [of ?v 0 "\<lparr>fd_value = 3\<rparr>" 0 "\<lparr>fd_value = 3\<rparr>"] by (simp add: fd_move_assign_def)
  ultimately have "reachable fd_init fd_step ?v" by (rule reachable.advance)
  from fd_ownership [OF this] show ?thesis using self by (simp add: Let_def owns_def)
qed

end
