(* ===== verification/Memory_Mapped_File.thy ===== *)
theory Memory_Mapped_File
  imports File_Descriptor
begin

text \<open>
  \<open>src/include/imr/util/memory_mapped_file.h\<close>, \<open>src/src/util/memory_mapped_file.cpp\<close>: the read-only mapping of
  the ITCH file. \<open>vm\<close> is the process as the operating system sees it: its descriptors and its mappings (an
  address and the bytes that can be read there). The results of \<open>open\<close>, \<open>file_size\<close>, \<open>mmap\<close> and \<open>madvise\<close> are
  fields of \<open>map_env\<close>.

  A constructor that throws does not run the destructor of its class, only those of the members built so
  far; \<open>mapped_new\<close> returns the state after that unwinding, so a leak shows as a mapping that is left.
\<close>

datatype pointer = Null | Map_failed | Addr nat

record vm =
  vm_kernel :: kernel
  vm_maps :: "nat \<Rightarrow> bytes option"
  vm_bad_unmap :: bool

record map_config =
  mc_mmap_flags :: int
  mc_madvise_flags :: int

record map_env =
  me_path :: path_env
  me_file_size :: "int + nat"
  me_content :: bytes
  me_mmap_ret :: pointer
  me_madvise_ret :: int
  me_errno :: int

record mapped_file =
  mf_fd :: file_descriptor
  mf_length :: nat
  mf_mapped_file :: pointer

text \<open>What \<open>mmap\<close> does when it succeeds, and \<open>munmap\<close> on a pointer the class holds.\<close>

definition map_pages :: "pointer \<Rightarrow> bytes \<Rightarrow> vm \<Rightarrow> vm" where
  "map_pages p bs v = (case p of Addr a \<Rightarrow> v\<lparr>vm_maps := (vm_maps v)(a \<mapsto> bs)\<rparr> | _ \<Rightarrow> v)"

definition unmap_pages :: "pointer \<Rightarrow> vm \<Rightarrow> vm" where
  "unmap_pages p v =
     (case p of
        Addr a \<Rightarrow> if vm_maps v a \<noteq> None then v\<lparr>vm_maps := (vm_maps v)(a := None)\<rparr> else v\<lparr>vm_bad_unmap := True\<rparr>
      | _ \<Rightarrow> v\<lparr>vm_bad_unmap := True\<rparr>)"

definition close_in :: "file_descriptor \<Rightarrow> vm \<Rightarrow> vm" where
  "close_in d v = v\<lparr>vm_kernel := fd_destroy d (vm_kernel v)\<rparr>"

subsection \<open>The class\<close>

definition mapped_new :: "map_config \<Rightarrow> map_env \<Rightarrow> vm \<Rightarrow> mapped_file res \<times> vm" where
  "mapped_new cfg me v =
     (case fd_from_path (me_path me) (vm_kernel v) of
        (Inl err, k) \<Rightarrow> (Inl err, v\<lparr>vm_kernel := k\<rparr>)
      | (Inr d, k) \<Rightarrow>
          (let v1 = v\<lparr>vm_kernel := k\<rparr> in
           case me_file_size me of
             Inl err \<Rightarrow> (Inl (System_error err), close_in d v1)
           | Inr len \<Rightarrow>
               (let mapped = me_mmap_ret me; v2 = map_pages mapped (take len (me_content me)) v1 in
                if mapped = Map_failed then (Inl (System_error (me_errno me)), close_in d v2)
                else if mc_madvise_flags cfg = 0
                then (Inr \<lparr>mf_fd = d, mf_length = len, mf_mapped_file = mapped\<rparr>, v2)
                else if me_madvise_ret me = - 1 then (Inl (System_error (me_errno me)), close_in d v2)
                else (Inr \<lparr>mf_fd = d, mf_length = len, mf_mapped_file = mapped\<rparr>, v2))))"

definition mapped_move_construct :: "mapped_file \<Rightarrow> mapped_file \<times> mapped_file" where
  "mapped_move_construct other =
     (case fd_move_construct (mf_fd other) of (d, other_fd) \<Rightarrow>
        (\<lparr>mf_fd = d, mf_length = mf_length other, mf_mapped_file = mf_mapped_file other\<rparr>,
         \<lparr>mf_fd = other_fd, mf_length = 0, mf_mapped_file = Null\<rparr>))"

definition mapped_cleanup :: "mapped_file \<Rightarrow> vm \<Rightarrow> vm" where
  "mapped_cleanup f v = (if mf_mapped_file f \<noteq> Null then unmap_pages (mf_mapped_file f) v else v)"

text \<open>As for descriptors, \<open>same\<close> is \<open>this == &other\<close>; the members of two objects are different objects.\<close>

definition mapped_move_assign :: "bool \<Rightarrow> mapped_file \<Rightarrow> mapped_file \<Rightarrow> vm \<Rightarrow> mapped_file \<times> mapped_file \<times> vm" where
  "mapped_move_assign same this other v =
     (if \<not> same
      then let v1 = mapped_cleanup this v in
        (case fd_move_assign False (mf_fd this) (mf_fd other) (vm_kernel v1) of (d, other_fd, k) \<Rightarrow>
          (\<lparr>mf_fd = d, mf_length = mf_length other, mf_mapped_file = mf_mapped_file other\<rparr>,
           \<lparr>mf_fd = other_fd, mf_length = 0, mf_mapped_file = Null\<rparr>, v1\<lparr>vm_kernel := k\<rparr>))
      else (this, other, v))"

definition mapped_destroy :: "mapped_file \<Rightarrow> vm \<Rightarrow> vm" where
  "mapped_destroy f v = close_in (mf_fd f) (mapped_cleanup f v)"

definition as_span :: "mapped_file \<Rightarrow> vm \<Rightarrow> bytes res" where
  "as_span f v =
     (if mf_length f = 0 then Inr []
      else case mf_mapped_file f of
        Addr a \<Rightarrow> (case vm_maps v a of
            Some bs \<Rightarrow> if mf_length f \<le> length bs then Inr (take (mf_length f) bs) else Inl Out_of_bounds
          | None \<Rightarrow> Inl Out_of_bounds)
      | _ \<Rightarrow> Inl Out_of_bounds)"

subsection \<open>Acquisition and release\<close>

text \<open>What the operating system promises: fresh descriptors, fresh addresses, the size of the file.\<close>

definition map_env_ok :: "map_env \<Rightarrow> vm \<Rightarrow> bool" where
  "map_env_ok me v \<longleftrightarrow>
     pe_open_ret (me_path me) \<notin> k_open (vm_kernel v) \<and>
     me_mmap_ret me \<noteq> Null \<and> (\<forall>a. me_mmap_ret me = Addr a \<longrightarrow> vm_maps v a = None) \<and>
     (\<forall>n. me_file_size me = Inr n \<longrightarrow> n = length (me_content me))"

text \<open>\<open>holds_file v0 f v\<close>: \<open>v\<close> is \<open>v0\<close> with exactly one descriptor and one mapping more, those of \<open>f\<close>.\<close>

definition holds_file :: "vm \<Rightarrow> mapped_file \<Rightarrow> bytes \<Rightarrow> vm \<Rightarrow> bool" where
  "holds_file v0 f bs v \<longleftrightarrow>
     (\<exists>fd a. 0 \<le> fd \<and> fd \<notin> k_open (vm_kernel v0) \<and> vm_maps v0 a = None \<and>
        f = \<lparr>mf_fd = \<lparr>fd_value = fd\<rparr>, mf_length = length bs, mf_mapped_file = Addr a\<rparr> \<and>
        v = v0\<lparr>vm_kernel := (vm_kernel v0)\<lparr>k_open := insert fd (k_open (vm_kernel v0))\<rparr>,
               vm_maps := (vm_maps v0)(a \<mapsto> bs)\<rparr>)"

lemma mapped_new_ok:
  assumes "map_env_ok me v" and "mapped_new cfg me v = (Inr f, v')"
  shows "holds_file v f (me_content me) v'"
proof -
  obtain d k where d: "fd_from_path (me_path me) (vm_kernel v) = (Inr d, k)"
    using assms(2) by (auto simp: mapped_new_def split: prod.splits sum.splits)
  then have fd: "d = \<lparr>fd_value = pe_open_ret (me_path me)\<rparr>" "0 \<le> pe_open_ret (me_path me)"
    "k = (vm_kernel v)\<lparr>k_open := insert (pe_open_ret (me_path me)) (k_open (vm_kernel v))\<rparr>"
    by (auto simp: fd_from_path_def acquire_def Let_def split: if_splits)
  obtain n where n: "me_file_size me = Inr n"
    using assms(2) d by (cases "me_file_size me") (simp_all add: mapped_new_def)
  then have len: "n = length (me_content me)" using assms(1) by (simp add: map_env_ok_def)
  obtain a where a: "me_mmap_ret me = Addr a"
    using assms d n by (cases "me_mmap_ret me") (simp_all add: mapped_new_def map_env_ok_def Let_def)
  then have "f = \<lparr>mf_fd = d, mf_length = n, mf_mapped_file = Addr a\<rparr>"
    "v' = v\<lparr>vm_kernel := k, vm_maps := (vm_maps v)(a \<mapsto> me_content me)\<rparr>"
    using assms(2) d n a len by (auto simp: mapped_new_def map_pages_def Let_def split: if_splits)
  moreover have "vm_maps v a = None" "pe_open_ret (me_path me) \<notin> k_open (vm_kernel v)"
    using assms(1) a by (simp_all add: map_env_ok_def)
  ultimately show ?thesis using fd len unfolding holds_file_def by blast
qed

lemma kernel_remove_insert:
  "fd \<notin> k_open k \<Longrightarrow> k\<lparr>k_open := k_open k - {fd}\<rparr> = k"
  by (cases k) auto

lemma maps_remove_insert: "m a = None \<Longrightarrow> m(a := None) = m"
  by auto

lemma mapped_destroy_restores:
  assumes "holds_file v0 f bs v"
  shows "mapped_destroy f v = v0"
proof -
  obtain fd a where *: "0 \<le> fd" "fd \<notin> k_open (vm_kernel v0)" "vm_maps v0 a = None"
    "f = \<lparr>mf_fd = \<lparr>fd_value = fd\<rparr>, mf_length = length bs, mf_mapped_file = Addr a\<rparr>"
    "v = v0\<lparr>vm_kernel := (vm_kernel v0)\<lparr>k_open := insert fd (k_open (vm_kernel v0))\<rparr>,
           vm_maps := (vm_maps v0)(a \<mapsto> bs)\<rparr>"
    using assms by (auto simp: holds_file_def)
  then show ?thesis
    by (simp add: mapped_destroy_def mapped_cleanup_def unmap_pages_def close_in_def fd_destroy_def fd_cleanup_def
        close_fd_def maps_remove_insert kernel_remove_insert)
qed

lemma as_span_holds: "holds_file v0 f bs v \<Longrightarrow> as_span f v = Inr bs"
  by (auto simp: holds_file_def as_span_def)

lemma mapped_new_fails:
  assumes "map_env_ok me v" and "mapped_new cfg me v = (Inl err, v')"
  shows "vm_kernel v' = vm_kernel v" and "vm_bad_unmap v' = vm_bad_unmap v"
    and "vm_maps v' = vm_maps v \<or> mc_madvise_flags cfg \<noteq> 0 \<and> me_madvise_ret me = - 1"
proof -
  let ?fd = "pe_open_ret (me_path me)"
  have "?fd \<notin> k_open (vm_kernel v)" using assms(1) by (simp add: map_env_ok_def)
  then have restore: "0 \<le> ?fd \<Longrightarrow> fd_destroy \<lparr>fd_value = ?fd\<rparr> (acquire ?fd (vm_kernel v)) = vm_kernel v"
    by (simp add: fd_destroy_def fd_cleanup_def close_fd_def acquire_def kernel_remove_insert)
  show "vm_kernel v' = vm_kernel v" "vm_bad_unmap v' = vm_bad_unmap v"
    "vm_maps v' = vm_maps v \<or> mc_madvise_flags cfg \<noteq> 0 \<and> me_madvise_ret me = - 1"
    using assms(2) restore
    by (auto simp: mapped_new_def fd_from_path_def Let_def close_in_def map_pages_def acquire_def
        split: if_splits sum.splits pointer.splits)
qed

text \<open>A moved mapping has one owner: destroying the source changes nothing.\<close>

lemma mapped_move_construct_ok:
  assumes "holds_file v0 f bs v" and "mapped_move_construct f = (g, f')"
  shows "holds_file v0 g bs v" and "mapped_destroy f' v = v" and "as_span f' v = Inr []"
  using assms
  by (auto simp: holds_file_def mapped_move_construct_def fd_move_construct_def mapped_destroy_def mapped_cleanup_def
      close_in_def fd_destroy_def fd_cleanup_def as_span_def)

lemma mapped_move_assign_ok:
  assumes "holds_file v0 g bs1 v1" and "holds_file v1 f bs2 v" and "mapped_move_assign False g f v = (g', f', v')"
  shows "holds_file v0 g' bs2 v'" and "mapped_destroy f' v' = v'"
proof -
  obtain fd1 a1 where g: "0 \<le> fd1" "fd1 \<notin> k_open (vm_kernel v0)" "vm_maps v0 a1 = None"
    "g = \<lparr>mf_fd = \<lparr>fd_value = fd1\<rparr>, mf_length = length bs1, mf_mapped_file = Addr a1\<rparr>"
    "v1 = v0\<lparr>vm_kernel := (vm_kernel v0)\<lparr>k_open := insert fd1 (k_open (vm_kernel v0))\<rparr>,
           vm_maps := (vm_maps v0)(a1 \<mapsto> bs1)\<rparr>"
    using assms(1) by (auto simp: holds_file_def)
  obtain fd2 a2 where f: "0 \<le> fd2" "fd2 \<notin> k_open (vm_kernel v1)" "vm_maps v1 a2 = None"
    "f = \<lparr>mf_fd = \<lparr>fd_value = fd2\<rparr>, mf_length = length bs2, mf_mapped_file = Addr a2\<rparr>"
    "v = v1\<lparr>vm_kernel := (vm_kernel v1)\<lparr>k_open := insert fd2 (k_open (vm_kernel v1))\<rparr>,
           vm_maps := (vm_maps v1)(a2 \<mapsto> bs2)\<rparr>"
    using assms(2) by (auto simp: holds_file_def)
  have ne: "fd2 \<noteq> fd1" "fd2 \<notin> k_open (vm_kernel v0)" "a2 \<noteq> a1" "vm_maps v0 a2 = None"
    using f(2,3) by (auto simp: g(5) split: if_splits)
  have sets: "insert fd2 (insert fd1 (k_open (vm_kernel v0))) - {fd1} = insert fd2 (k_open (vm_kernel v0))"
    using g(2) ne(1) by auto
  have maps: "((vm_maps v0)(a1 \<mapsto> bs1, a2 \<mapsto> bs2))(a1 := None) = (vm_maps v0)(a2 \<mapsto> bs2)"
    using g(3) ne(3) by (auto simp: fun_eq_iff)
  have vm: "vm_maps v = (vm_maps v0)(a1 \<mapsto> bs1, a2 \<mapsto> bs2)"
    "vm_kernel v = (vm_kernel v0)\<lparr>k_open := insert fd2 (insert fd1 (k_open (vm_kernel v0)))\<rparr>"
    by (simp_all add: f(5) g(5))
  have "vm_maps v a1 \<noteq> None" using vm(1) ne(3) by simp
  then have c: "mapped_cleanup g v = v\<lparr>vm_maps := (vm_maps v0)(a2 \<mapsto> bs2)\<rparr>"
    unfolding mapped_cleanup_def unmap_pages_def using maps vm(1) by (simp add: g(4) del: fun_upd_apply)
  have m: "fd_move_assign False \<lparr>fd_value = fd1\<rparr> \<lparr>fd_value = fd2\<rparr> (vm_kernel v) =
      (\<lparr>fd_value = fd2\<rparr>, \<lparr>fd_value = - 1\<rparr>, (vm_kernel v0)\<lparr>k_open := insert fd2 (k_open (vm_kernel v0))\<rparr>)"
    using g(1) sets by (simp add: fd_move_assign_def fd_cleanup_def close_fd_def vm(2))
  have v': "v' = v0\<lparr>vm_kernel := (vm_kernel v0)\<lparr>k_open := insert fd2 (k_open (vm_kernel v0))\<rparr>, vm_maps := (vm_maps v0)(a2 \<mapsto> bs2)\<rparr>"
    and g': "g' = \<lparr>mf_fd = \<lparr>fd_value = fd2\<rparr>, mf_length = length bs2, mf_mapped_file = Addr a2\<rparr>"
    and f': "f' = \<lparr>mf_fd = \<lparr>fd_value = - 1\<rparr>, mf_length = 0, mf_mapped_file = Null\<rparr>"
    using assms(3) m unfolding mapped_move_assign_def c by (auto simp: g(4,5) f(4,5))
  show "holds_file v0 g' bs2 v'" using f(1) ne(2,4) g' v' unfolding holds_file_def by blast
  show "mapped_destroy f' v' = v'"
    by (simp add: f' mapped_destroy_def mapped_cleanup_def close_in_def fd_destroy_def fd_cleanup_def)
qed

section \<open>Properties\<close>

definition sample_map_env :: map_env where
  "sample_map_env = \<lparr>me_path = \<lparr>pe_exists = True, pe_is_directory = False, pe_open_ret = 3, pe_errno = 0\<rparr>,
     me_file_size = Inr 2, me_content = [7, 8], me_mmap_ret = Addr 4096, me_madvise_ret = - 1, me_errno = 22\<rparr>"

definition sample_vm :: vm where
  "sample_vm = \<lparr>vm_kernel = \<lparr>k_open = {0, 1, 2}, k_bad_close = False\<rparr>, vm_maps = (\<lambda>_. None), vm_bad_unmap = False\<rparr>"

lemma sample_map_ok: "map_env_ok sample_map_env sample_vm"
  by (simp add: map_env_ok_def sample_map_env_def sample_vm_def)

text \<open>
  C29. A mapping that was built gives the bytes of the file, a move hands it over whole (the source is then
  empty and its destructor does nothing), and destroying it restores the descriptors and mappings of the
  process exactly.
\<close>

theorem mapped_file_lifecycle:
  assumes "map_env_ok me v" and "mapped_new cfg me v = (Inr f, v')"
  shows "as_span f v' = Inr (me_content me) \<and> mapped_destroy f v' = v \<and>
    (case mapped_move_construct f of (g, f') \<Rightarrow>
       as_span g v' = Inr (me_content me) \<and> mapped_destroy f' v' = v' \<and> mapped_destroy g v' = v)"
proof -
  have h: "holds_file v f (me_content me) v'" using mapped_new_ok [OF assms] .
  obtain g f' where m: "mapped_move_construct f = (g, f')" by fastforce
  note mv = mapped_move_construct_ok [OF h m]
  show ?thesis using as_span_holds [OF h] mapped_destroy_restores [OF h] as_span_holds [OF mv(1)]
      mapped_destroy_restores [OF mv(1)] mv(2) m by simp
qed

theorem mapped_file_lifecycle_witness:
  "\<exists>f v'. mapped_new \<lparr>mc_mmap_flags = 0, mc_madvise_flags = 0\<rparr> sample_map_env sample_vm = (Inr f, v') \<and>
    as_span f v' = Inr [7, 8] \<and> mapped_destroy f v' = sample_vm"
proof -
  obtain f v' where n: "mapped_new \<lparr>mc_mmap_flags = 0, mc_madvise_flags = 0\<rparr> sample_map_env sample_vm = (Inr f, v')"
    by (simp add: mapped_new_def fd_from_path_def sample_map_env_def acquire_def Let_def)
  then show ?thesis using mapped_file_lifecycle [OF sample_map_ok n] by (auto simp: sample_map_env_def)
qed

text \<open>
  When \<open>madvise\<close> fails the exception leaves the constructor with the mapping in place, and no object is
  left that could remove it.
\<close>

theorem mapped_file_madvise_leak:
  "\<exists>err v'. mapped_new \<lparr>mc_mmap_flags = 0, mc_madvise_flags = 3\<rparr> sample_map_env sample_vm = (Inl err, v') \<and>
    vm_maps sample_vm 4096 = None \<and> vm_maps v' 4096 = Some [7, 8]"
  by (simp add: mapped_new_def fd_from_path_def sample_map_env_def sample_vm_def acquire_def Let_def
      map_pages_def close_in_def)

end
