(* ===== verification/Server.thy ===== *)
theory Server
  imports Session Retransmission_Feed Memory_Mapped_File
begin

text \<open>
  \<open>src/src/mold/retransmission/feed_pool.cpp\<close> and \<open>src/src/server.cpp\<close>: the pool of retransmission workers and
  the server that owns the mapped file, the ring buffer, the downstream feed and the pool. The constructors
  are composed as the code composes them, with the unwinding of what was built when a later member
  throws, and the destruction of the members gives back what construction took. A worker builds its feed on its own thread, so an exception there does not reach the caller
  of the constructor: it ends the process. The life of a running server (threads, stop, destruction) is
  the theory \<open>Server_Life\<close>.
\<close>

subsection \<open>The pool\<close>

record feed_pool =
  fp_shutdown_fd :: file_descriptor
  fp_counter :: nat
  fp_num_feeds :: nat

record pool_env =
  pl_eventfd_ret :: int
  pl_thread_ok :: "nat \<Rightarrow> bool"
  pl_write_ret :: int
  pl_errno :: int

text \<open>The threads are created one by one; when one cannot be created the vector is destroyed, which joins the
  threads that run already. Nobody has signalled them, so that join does not return.\<close>

fun spawn_feeds :: "pool_env \<Rightarrow> nat \<Rightarrow> nat \<Rightarrow> unit res" where
  "spawn_feeds pl i 0 = Inr ()"
| "spawn_feeds pl i (Suc n) =
     (if pl_thread_ok pl i then spawn_feeds pl (Suc i) n
      else if i = 0 then Inl (System_error (pl_errno pl)) else Inl Deadlock)"

definition feed_pool_new :: "pool_env \<Rightarrow> nat \<Rightarrow> kernel \<Rightarrow> feed_pool res \<times> kernel" where
  "feed_pool_new pl num_feeds k =
     (case fd_from_syscall (pl_eventfd_ret pl) (pl_errno pl) k of
        (Inl err, k1) \<Rightarrow> (Inl err, k1)
      | (Inr d, k1) \<Rightarrow>
          (case spawn_feeds pl 0 num_feeds of
             Inl err \<Rightarrow> (Inl err, fd_destroy d k1)
           | Inr _ \<Rightarrow> (Inr \<lparr>fp_shutdown_fd = d, fp_counter = 0, fp_num_feeds = num_feeds\<rparr>, k1)))"

definition feed_pool_stop :: "pool_env \<Rightarrow> feed_pool \<Rightarrow> feed_pool res" where
  "feed_pool_stop pl p =
     (if pl_write_ret pl < 0 then Inl (System_error (pl_errno pl)) else Inr (p\<lparr>fp_counter := fp_counter p + 1\<rparr>))"

text \<open>The body of a worker thread. An exception that leaves it calls \<open>std::terminate\<close>.\<close>

definition thread_body :: "'a res \<Rightarrow> 'a res" where
  "thread_body r = (case r of Inl Invalid_argument \<Rightarrow> Inl Terminate | Inl (System_error _) \<Rightarrow> Inl Terminate | _ \<Rightarrow> r)"

text \<open>The two constructors on the table of descriptors: the members \<open>socket_\<close> and \<open>epoll_fd_\<close> are acquired before the
  rest is constructed, and released, last to first, when the rest throws.\<close>

definition downstream_feed_on ::
  "build \<Rightarrow> socket_env \<Rightarrow> downstream_config \<Rightarrow> packet_builder_config \<Rightarrow> bytes \<Rightarrow> retransmission_buffer \<Rightarrow> kernel \<Rightarrow>
   downstream_feed res \<times> kernel" where
  "downstream_feed_on b s cfg pb_cfg bs rb k =
     (case fd_from_syscall (socket_ret s) (errno s) k of
        (Inl err, k1) \<Rightarrow> (Inl err, k1)
      | (Inr socket, k1) \<Rightarrow>
          (case downstream_feed_new b s cfg pb_cfg bs rb of
             Inl err \<Rightarrow> (Inl err, fd_destroy socket k1)
           | Inr f \<Rightarrow> (Inr f, k1)))"

definition retransmission_feed_on ::
  "build \<Rightarrow> retransmission_socket_env \<Rightarrow> retransmission_config \<Rightarrow> packet_builder_config \<Rightarrow> bytes \<Rightarrow> int \<Rightarrow> kernel \<Rightarrow>
   retransmission_feed res \<times> kernel" where
  "retransmission_feed_on b s cfg pb_cfg bs shutdown_fd k =
     (case fd_from_syscall (rs_socket_ret s) (rs_errno s) k of
        (Inl err, k1) \<Rightarrow> (Inl err, k1)
      | (Inr socket, k1) \<Rightarrow>
          (case fd_from_syscall (rs_epoll_create_ret s) (rs_errno s) k1 of
             (Inl err, k2) \<Rightarrow> (Inl err, fd_destroy socket k2)
           | (Inr epoll_fd, k2) \<Rightarrow>
               (case retransmission_feed_new b s cfg pb_cfg bs shutdown_fd of
                  Inl err \<Rightarrow> (Inl err, fd_destroy socket (fd_destroy epoll_fd k2))
                | Inr rf \<Rightarrow> (Inr rf, k2))))"

text \<open>The thread owns its feed, and destroys it when \<open>start\<close> has returned.\<close>

definition pool_worker ::
  "nat \<Rightarrow> build \<Rightarrow> retransmission_socket_env \<Rightarrow> worker_env \<Rightarrow> nat \<Rightarrow> retransmission_config \<Rightarrow> packet_builder_config \<Rightarrow>
   bytes \<Rightarrow> feed_pool \<Rightarrow> kernel \<Rightarrow> ((retransmission_feed \<times> out_event list \<times> nat) res \<times> kernel) option" where
  "pool_worker fuel b s w t feed_cfg pb_cfg bs pool k =
     (case retransmission_feed_on b s feed_cfg pb_cfg bs (fd_get (fp_shutdown_fd pool)) k of
        (Inl err, k1) \<Rightarrow> Some (thread_body (Inl err), k1)
      | (Inr rf, k1) \<Rightarrow>
          map_option (\<lambda>r. (thread_body r,
              fd_destroy \<lparr>fd_value = rf_socket_fd rf\<rparr> (fd_destroy \<lparr>fd_value = rf_epoll_fd rf\<rparr> k1)))
            (retransmission_start fuel b w t rf))"

subsection \<open>The server\<close>

record server_config =
  sc_mapped_file :: map_config
  sc_packet_builder :: packet_builder_config
  sc_downstream :: downstream_config
  sc_buffer_size :: u64
  sc_retransmission :: retransmission_config
  sc_num_feeds :: nat

record server_env =
  se_map :: map_env
  se_socket :: socket_env
  se_pool :: pool_env

record server =
  sv_mapped_file :: mapped_file
  sv_downstream_feed :: downstream_feed
  sv_feeds :: feed_pool

definition default_buffer_size :: u64 where "default_buffer_size = push_bit 22 1"

text \<open>\<open>std::max(std::thread::hardware_concurrency() - 1, 1U)\<close>, on 32-bit unsigned integers.\<close>

definition default_num_feeds :: "u32 \<Rightarrow> u32" where
  "default_num_feeds hardware_concurrency = max (hardware_concurrency - 1) 1"

definition server_new :: "build \<Rightarrow> server_env \<Rightarrow> server_config \<Rightarrow> vm \<Rightarrow> server res \<times> vm" where
  "server_new b se cfg v =
     (case mapped_new (sc_mapped_file cfg) (se_map se) v of
        (Inl err, v1) \<Rightarrow> (Inl err, v1)
      | (Inr mf, v1) \<Rightarrow>
          (case andThen (retransmission_buffer_new (sc_buffer_size cfg)) (\<lambda>rb.
                andThen (as_span mf v1) (\<lambda>bs. Inr (rb, bs))) of
             Inl err \<Rightarrow> (Inl err, mapped_destroy mf v1)
           | Inr (rb, bs) \<Rightarrow>
               (case downstream_feed_on b (se_socket se) (sc_downstream cfg) (sc_packet_builder cfg) bs rb (vm_kernel v1) of
                  (Inl err, k2) \<Rightarrow> (Inl err, mapped_destroy mf (v1\<lparr>vm_kernel := k2\<rparr>))
                | (Inr feed, k2) \<Rightarrow>
                    (case feed_pool_new (se_pool se) (sc_num_feeds cfg) k2 of
                       (Inl err, k3) \<Rightarrow>
                         (Inl err, mapped_destroy mf (v1\<lparr>vm_kernel := fd_destroy \<lparr>fd_value = socket_ret (se_socket se)\<rparr> k3\<rparr>))
                     | (Inr pool, k3) \<Rightarrow>
                         (Inr \<lparr>sv_mapped_file = mf, sv_downstream_feed = feed, sv_feeds = pool\<rparr>, v1\<lparr>vm_kernel := k3\<rparr>)))))"

text \<open>\<open>make_server\<close> catches what derives from \<open>std::exception\<close>; the other errors of the model are not
  exceptions, and end the process or block it.\<close>

definition is_exception :: "error \<Rightarrow> bool" where
  "is_exception err \<longleftrightarrow> err = Invalid_argument \<or> (\<exists>n. err = System_error n)"

fun is_exception_code :: "error \<Rightarrow> bool" where
  "is_exception_code Invalid_argument = True"
| "is_exception_code (System_error n) = True"
| "is_exception_code _ = False"

lemma is_exception_code [code]: "is_exception err = is_exception_code err"
  by (cases err) (auto simp: is_exception_def)

definition make_server :: "build \<Rightarrow> server_env \<Rightarrow> server_config \<Rightarrow> vm \<Rightarrow> (error + server) res \<times> vm" where
  "make_server b se cfg v =
     (case server_new b se cfg v of
        (Inr sv, v') \<Rightarrow> (Inr (Inr sv), v')
      | (Inl err, v') \<Rightarrow> (if is_exception err then Inr (Inl err) else Inl err, v'))"

text \<open>
  The destruction of the members, last to first, after the body of \<open>~Server\<close> has stopped and joined the threads: the pool's
  event descriptor, the feed's socket and the mapped file. (The vector of threads comes before the descriptor and
  joins the workers, which is part of \<open>Server_Life\<close>.)
\<close>

definition server_destroy :: "server_env \<Rightarrow> server \<Rightarrow> vm \<Rightarrow> vm" where
  "server_destroy se sv v =
     (let k1 = fd_destroy (fp_shutdown_fd (sv_feeds sv)) (vm_kernel v);
          k2 = fd_destroy \<lparr>fd_value = socket_ret (se_socket se)\<rparr> k1
      in mapped_destroy (sv_mapped_file sv) (v\<lparr>vm_kernel := k2\<rparr>))"

subsection \<open>What construction establishes\<close>

definition server_cfg_ok :: "server_env \<Rightarrow> server_config \<Rightarrow> bool" where
  "server_cfg_ok se cfg \<longleftrightarrow>
     sockets_ok (se_socket se) (sc_downstream cfg) \<and> pb_cfg_ok (sc_packet_builder cfg) \<and> 0 < sc_buffer_size cfg \<and>
     length (me_content (se_map se)) + unat (sc_buffer_size cfg) + 1 < 2 ^ 64 \<and>
     0 \<le> pl_eventfd_ret (se_pool se) \<and> (\<forall>i. pl_thread_ok (se_pool se) i)"

lemma spawn_feeds_ok: "(\<And>i. pl_thread_ok pl i) \<Longrightarrow> spawn_feeds pl i n = Inr ()"
  by (induction n arbitrary: i) auto

lemma downstream_feed_on_eq:
  "downstream_feed_on b s cfg pb_cfg bs rb k =
     (case downstream_feed_new b s cfg pb_cfg bs rb of
        Inl err \<Rightarrow> (Inl err, if socket_ret s < 0 then k else fd_destroy \<lparr>fd_value = socket_ret s\<rparr> (acquire (socket_ret s) k))
      | Inr f \<Rightarrow> (Inr f, acquire (socket_ret s) k))"
  by (simp add: downstream_feed_on_def fd_from_syscall_def Let_def acquire_def downstream_feed_new_def split: sum.split)

lemma downstream_feed_new_socket: "downstream_feed_new b s cfg pb_cfg bs rb = Inr f \<Longrightarrow> 0 \<le> socket_ret s"
  by (auto simp: downstream_feed_new_def split: if_splits)

lemma server_new_parts:
  assumes "server_new b se cfg v = (Inr sv, v')"
  obtains mf v1 rb bs where "mapped_new (sc_mapped_file cfg) (se_map se) v = (Inr mf, v1)"
    and "retransmission_buffer_new (sc_buffer_size cfg) = Inr rb" and "as_span mf v1 = Inr bs"
    and "downstream_feed_new b (se_socket se) (sc_downstream cfg) (sc_packet_builder cfg) bs rb = Inr (sv_downstream_feed sv)"
    and "feed_pool_new (se_pool se) (sc_num_feeds cfg) (acquire (socket_ret (se_socket se)) (vm_kernel v1)) = (Inr (sv_feeds sv), vm_kernel v')"
    and "sv_mapped_file sv = mf" and "v' = v1\<lparr>vm_kernel := vm_kernel v'\<rparr>"
  using assms that
  by (auto simp: server_new_def downstream_feed_on_eq andThen_eq_Inr_iff split: prod.splits sum.splits)

lemma server_new_ok:
  assumes "server_cfg_ok se cfg" and "map_env_ok (se_map se) v"
    and "mapped_new (sc_mapped_file cfg) (se_map se) v = (Inr mf, v1)"
  obtains sv v' where "server_new b se cfg v = (Inr sv, v')" and "ds_inv (sv_downstream_feed sv) []"
    and "df_file (sv_downstream_feed sv) = me_content (se_map se)" and "df_file_pos (sv_downstream_feed sv) = 0"
    and "pb_config (df_packet_builder (sv_downstream_feed sv)) =
      (cfg_session (sc_packet_builder cfg), cfg_MTU (sc_packet_builder cfg) - 20, cfg_min_message_size (sc_packet_builder cfg))"
    and "df_pacer (sv_downstream_feed sv) = pacer_new (dc_pacer_cfg (sc_downstream cfg))"
    and "fd_get (fp_shutdown_fd (sv_feeds sv)) = pl_eventfd_ret (se_pool se)"
proof -
  note ok = assms(1) [unfolded server_cfg_ok_def]
  have span: "as_span mf v1 = Inr (me_content (se_map se))"
    using as_span_holds mapped_new_ok assms(2,3) by blast
  obtain rb where rb: "retransmission_buffer_new (sc_buffer_size cfg) = Inr rb" "rb_rep rb []" "rb_size rb = unat (sc_buffer_size cfg)"
    using retransmission_buffer_new_rep ok by blast
  obtain f where f: "downstream_feed_new b (se_socket se) (sc_downstream cfg) (sc_packet_builder cfg) (me_content (se_map se)) rb = Inr f"
    "ds_inv f []" "df_file f = me_content (se_map se)" "df_file_pos f = 0"
    "pb_config (df_packet_builder f) = (cfg_session (sc_packet_builder cfg), cfg_MTU (sc_packet_builder cfg) - 20, cfg_min_message_size (sc_packet_builder cfg))"
    "df_pacer f = pacer_new (dc_pacer_cfg (sc_downstream cfg))"
    using downstream_feed_new_ok [of "se_socket se" "sc_downstream cfg" "sc_packet_builder cfg" rb "me_content (se_map se)" b] ok rb(2,3)
    by metis
  have "spawn_feeds (se_pool se) 0 n = Inr ()" for n using spawn_feeds_ok ok by blast
  then show ?thesis
    using that assms(3) span rb(1) f ok
    by (simp add: server_new_def downstream_feed_on_eq feed_pool_new_def fd_from_syscall_def Let_def fd_get_def)
qed

subsection \<open>Failed construction leaves nothing behind\<close>

definition fds_fresh :: "server_env \<Rightarrow> vm \<Rightarrow> bool" where
  "fds_fresh se v \<longleftrightarrow>
     (let k = insert (pe_open_ret (me_path (se_map se))) (k_open (vm_kernel v)) in
      socket_ret (se_socket se) \<notin> k \<and> pl_eventfd_ret (se_pool se) \<notin> insert (socket_ret (se_socket se)) k)"

lemma release_acquired:
  assumes "fd \<notin> k_open k" and "0 \<le> fd"
  shows "fd_destroy \<lparr>fd_value = fd\<rparr> (acquire fd k) = k"
  using assms by (simp add: fd_destroy_def fd_cleanup_def close_fd_def acquire_def kernel_remove_insert)

lemma feed_pool_new_fails:
  assumes "feed_pool_new pl n k = (Inl err, k')" and "pl_eventfd_ret pl \<notin> k_open k"
  shows "k' = k"
proof (cases "pl_eventfd_ret pl < 0")
  case True
  then show ?thesis using assms(1) by (simp add: feed_pool_new_def fd_from_syscall_def acquire_def)
next
  case False
  then show ?thesis
    using assms(1) release_acquired [OF assms(2)]
    by (auto simp: feed_pool_new_def fd_from_syscall_def Let_def split: sum.splits)
qed

lemma holds_file_open:
  assumes "holds_file v mf bs v1" and "mapped_new cfg me v = (Inr mf, v1)"
  shows "k_open (vm_kernel v1) = insert (pe_open_ret (me_path me)) (k_open (vm_kernel v))"
proof -
  have "fd_value (mf_fd mf) = pe_open_ret (me_path me)"
    using assms(2) by (auto simp: mapped_new_def fd_from_path_def Let_def split: if_splits sum.splits)
  then show ?thesis using assms(1) by (auto simp: holds_file_def)
qed

lemma server_new_fails:
  assumes "map_env_ok (se_map se) v" and "fds_fresh se v" and "server_new b se cfg v = (Inl err, v')"
  shows "vm_kernel v' = vm_kernel v"
    and "vm_maps v' = vm_maps v \<or> mc_madvise_flags (sc_mapped_file cfg) \<noteq> 0 \<and> me_madvise_ret (se_map se) = - 1"
proof -
  obtain r v1 where m: "mapped_new (sc_mapped_file cfg) (se_map se) v = (r, v1)" by fastforce
  have "vm_kernel v' = vm_kernel v \<and>
    (vm_maps v' = vm_maps v \<or> mc_madvise_flags (sc_mapped_file cfg) \<noteq> 0 \<and> me_madvise_ret (se_map se) = - 1)"
  proof (cases r)
    case (Inl e)
    then have "v' = v1" using assms(3) m by (simp add: server_new_def)
    then show ?thesis using mapped_new_fails [OF assms(1)] m Inl by metis
  next
    case (Inr mf)
    have holds: "holds_file v mf (me_content (se_map se)) v1" using mapped_new_ok assms(1) m Inr by blast
    note restore = mapped_destroy_restores [OF holds]
    define res where "res = andThen (retransmission_buffer_new (sc_buffer_size cfg)) (\<lambda>rb. andThen (as_span mf v1) (\<lambda>bs. Inr (rb, bs)))"
    show ?thesis
    proof (cases res)
      case (Inl e)
      then show ?thesis using assms(3) m Inr restore by (simp add: server_new_def flip: res_def)
    next
      case (Inr x)
      obtain rb bs where x: "x = (rb, bs)" by (cases x)
      let ?s = "socket_ret (se_socket se)" and ?k = "vm_kernel v1"
      have fresh: "?s \<notin> k_open ?k" "0 \<le> ?s \<Longrightarrow> pl_eventfd_ret (se_pool se) \<notin> k_open (acquire ?s ?k)"
        using assms(2) holds_file_open [OF holds] m \<open>r = Inr mf\<close> by (auto simp: fds_fresh_def Let_def acquire_def)
      obtain r2 k2 where d: "downstream_feed_on b (se_socket se) (sc_downstream cfg) (sc_packet_builder cfg) bs rb ?k = (r2, k2)" by fastforce
      show ?thesis
      proof (cases r2)
        case (Inl e)
        then have "k2 = ?k" using d release_acquired [OF fresh(1)] by (auto simp: downstream_feed_on_eq split: sum.splits if_splits)
        then show ?thesis using assms(3) m Inr \<open>r = Inr mf\<close> x d Inl restore by (simp add: server_new_def flip: res_def)
      next
        case (Inr feed)
        then have s: "0 \<le> ?s" "k2 = acquire ?s ?k"
          using d downstream_feed_new_socket by (auto simp: downstream_feed_on_eq split: sum.splits)
        obtain k3 where k3: "feed_pool_new (se_pool se) (sc_num_feeds cfg) (acquire ?s ?k) = (Inl err, k3)"
          "v' = mapped_destroy mf (v1\<lparr>vm_kernel := fd_destroy \<lparr>fd_value = ?s\<rparr> k3\<rparr>)"
          using assms(3) m \<open>res = Inr x\<close> \<open>r = Inr mf\<close> x d Inr s(2)
          by (auto simp: server_new_def split: prod.splits sum.splits simp flip: res_def)
        then have "k3 = acquire ?s ?k" using feed_pool_new_fails fresh(2) s(1) by blast
        then have "v' = v" using k3(2) release_acquired [OF fresh(1) s(1)] restore by simp
        then show ?thesis by simp
      qed
    qed
  qed
  then show "vm_kernel v' = vm_kernel v"
    "vm_maps v' = vm_maps v \<or> mc_madvise_flags (sc_mapped_file cfg) \<noteq> 0 \<and> me_madvise_ret (se_map se) = - 1"
    by blast+
qed

lemma feed_pool_new_eventfd:
  "feed_pool_new pl n k = (Inr pool, k') \<Longrightarrow>
    fp_shutdown_fd pool = \<lparr>fd_value = pl_eventfd_ret pl\<rparr> \<and> 0 \<le> pl_eventfd_ret pl \<and> k' = acquire (pl_eventfd_ret pl) k"
  by (auto simp: feed_pool_new_def fd_from_syscall_def Let_def split: if_splits sum.splits)

lemma server_destroy_restores:
  assumes "map_env_ok (se_map se) v" and "fds_fresh se v" and "server_new b se cfg v = (Inr sv, v')"
  shows "server_destroy se sv v' = v"
proof -
  obtain mf v1 rb bs where m: "mapped_new (sc_mapped_file cfg) (se_map se) v = (Inr mf, v1)"
    and f: "downstream_feed_new b (se_socket se) (sc_downstream cfg) (sc_packet_builder cfg) bs rb = Inr (sv_downstream_feed sv)"
    and pool: "feed_pool_new (se_pool se) (sc_num_feeds cfg) (acquire (socket_ret (se_socket se)) (vm_kernel v1)) = (Inr (sv_feeds sv), vm_kernel v')"
    and sv: "sv_mapped_file sv = mf" "v' = v1\<lparr>vm_kernel := vm_kernel v'\<rparr>"
    by (rule server_new_parts [OF assms(3)])
  have holds: "holds_file v mf (me_content (se_map se)) v1" using mapped_new_ok assms(1) m by blast
  let ?s = "socket_ret (se_socket se)" and ?e = "pl_eventfd_ret (se_pool se)" and ?k3 = "vm_kernel v'"
  have s: "0 \<le> ?s" using downstream_feed_new_socket [OF f] .
  note e = feed_pool_new_eventfd [OF pool]
  have fresh: "?s \<notin> k_open (vm_kernel v1)" "?e \<notin> k_open (acquire ?s (vm_kernel v1))"
    using assms(2) holds_file_open [OF holds m] s by (auto simp: fds_fresh_def Let_def acquire_def)
  have "fd_destroy \<lparr>fd_value = ?e\<rparr> ?k3 = acquire ?s (vm_kernel v1)" using release_acquired [OF fresh(2)] e by simp
  then have "server_destroy se sv v' = mapped_destroy mf v1"
    using release_acquired [OF fresh(1) s] e sv(2) by (simp add: server_destroy_def sv(1))
  then show ?thesis using mapped_destroy_restores [OF holds] by simp
qed

section \<open>Properties\<close>

text \<open>
  A server that is built is ready: from a valid configuration and working system calls the constructor
  returns a server whose downstream feed stands at the start of the mapped bytes with an empty history,
  the configured session, MTU and pacing, and whose workers share the pool's event descriptor.
\<close>

theorem server_ready:
  assumes "server_cfg_ok se cfg" and "map_env_ok (se_map se) v"
    and "mapped_new (sc_mapped_file cfg) (se_map se) v = (Inr mf, v1)"
  shows "\<exists>sv v'. make_server b se cfg v = (Inr (Inr sv), v') \<and> ds_inv (sv_downstream_feed sv) [] \<and>
    df_file (sv_downstream_feed sv) = me_content (se_map se) \<and> df_file_pos (sv_downstream_feed sv) = 0 \<and>
    pb_config (df_packet_builder (sv_downstream_feed sv)) =
      (cfg_session (sc_packet_builder cfg), cfg_MTU (sc_packet_builder cfg) - 20, cfg_min_message_size (sc_packet_builder cfg)) \<and>
    df_pacer (sv_downstream_feed sv) = pacer_new (dc_pacer_cfg (sc_downstream cfg)) \<and>
    fd_get (fp_shutdown_fd (sv_feeds sv)) = pl_eventfd_ret (se_pool se)"
proof -
  obtain sv v' where sv: "server_new b se cfg v = (Inr sv, v')" "ds_inv (sv_downstream_feed sv) []"
    "df_file (sv_downstream_feed sv) = me_content (se_map se)" "df_file_pos (sv_downstream_feed sv) = 0"
    "pb_config (df_packet_builder (sv_downstream_feed sv)) =
      (cfg_session (sc_packet_builder cfg), cfg_MTU (sc_packet_builder cfg) - 20, cfg_min_message_size (sc_packet_builder cfg))"
    "df_pacer (sv_downstream_feed sv) = pacer_new (dc_pacer_cfg (sc_downstream cfg))"
    "fd_get (fp_shutdown_fd (sv_feeds sv)) = pl_eventfd_ret (se_pool se)"
    by (rule server_new_ok [OF assms])
  then show ?thesis by (intro exI [of _ sv] exI [of _ v']) (simp add: make_server_def)
qed

text \<open>
  C30. A server owns what it acquires: destroying a server that \<open>make_server\<close> built gives the process back as it was before, no
  descriptor and no mapping more or less; and a server that cannot be built has returned everything when
  \<open>make_server\<close> returns its error, but for the mapping when it was \<open>madvise\<close> that failed.
\<close>

theorem server_returns_resources:
  assumes "map_env_ok (se_map se) v" and "fds_fresh se v" and "make_server b se cfg v = (Inr r, v')"
  shows "case r of
      Inr sv \<Rightarrow> server_destroy se sv v' = v
    | Inl err \<Rightarrow> vm_kernel v' = vm_kernel v \<and>
        (vm_maps v' = vm_maps v \<or> mc_madvise_flags (sc_mapped_file cfg) \<noteq> 0 \<and> me_madvise_ret (se_map se) = - 1)"
proof (cases r)
  case (Inl err)
  then have "server_new b se cfg v = (Inl err, v')"
    using assms(3) by (auto simp: make_server_def split: prod.splits sum.splits if_splits)
  then show ?thesis using server_new_fails [OF assms(1,2)] Inl by simp
next
  case (Inr sv)
  then have "server_new b se cfg v = (Inr sv, v')"
    using assms(3) by (auto simp: make_server_def split: prod.splits sum.splits if_splits)
  then show ?thesis using server_destroy_restores [OF assms(1,2)] Inr by simp
qed

text \<open>
  A server that cannot be built leaves nothing behind: whatever member's constructor fails, every
  descriptor opened until then is closed again, and the file is unmapped, unless it was \<open>madvise\<close> that
  failed.
\<close>

theorem server_failure_clean:
  assumes "map_env_ok (se_map se) v" and "fds_fresh se v" and "make_server b se cfg v = (Inr (Inl err), v')"
  shows "vm_kernel v' = vm_kernel v \<and>
    (vm_maps v' = vm_maps v \<or> mc_madvise_flags (sc_mapped_file cfg) \<noteq> 0 \<and> me_madvise_ret (se_map se) = - 1)"
proof -
  have "server_new b se cfg v = (Inl err, v')"
    using assms(3) by (auto simp: make_server_def split: prod.splits sum.splits if_splits)
  then show ?thesis using server_new_fails [OF assms(1,2)] by blast
qed

text \<open>
  The default number of workers wraps around: on a system whose thread count is not known,
  \<open>hardware_concurrency()\<close> is 0 and the default is 4294967295 workers; with one or more threads it is one less,
  and at least one.
\<close>

theorem default_workers:
  "default_num_feeds n = (if n = 0 then 4294967295 else if n = 1 then 1 else n - 1)"
proof -
  have "default_num_feeds 0 = 4294967295" by code_simp
  moreover have "default_num_feeds n = n - 1" if "n \<noteq> 0" "n \<noteq> 1" for n
  proof -
    have "unat (n - 1) = unat n - 1" using that(1) by (rule unat_minus_one)
    moreover have "unat n \<noteq> 0" "unat n \<noteq> 1" using that by (simp_all add: word_unat_eq_iff)
    ultimately have "1 \<le> n - 1" by (simp add: word_le_nat_alt)
    then show ?thesis by (simp add: default_num_feeds_def max_def)
  qed
  moreover have "default_num_feeds 1 = 1" by (simp add: default_num_feeds_def)
  ultimately show ?thesis by simp
qed

text \<open>An address the worker's constructor rejects ends the process; the caller of the server's constructor
  never sees the exception. A worker that comes to its end has closed its socket and its epoll descriptor.\<close>

lemma worker_exception_terminates:
  assumes "retransmission_feed_new b s feed_cfg pb_cfg bs (fd_get (fp_shutdown_fd pool)) = Inl Invalid_argument"
    and "0 \<le> rs_socket_ret s" and "0 \<le> rs_epoll_create_ret s"
  shows "\<exists>k'. pool_worker fuel b s w t feed_cfg pb_cfg bs pool k = Some (Inl Terminate, k')"
  using assms by (simp add: pool_worker_def retransmission_feed_on_def fd_from_syscall_def Let_def thread_body_def)

lemma retransmission_feed_on_eq:
  assumes "rs_socket_ret s \<notin> k_open k" and "rs_epoll_create_ret s \<notin> insert (rs_socket_ret s) (k_open k)"
  shows "retransmission_feed_on b s cfg pb_cfg bs fd k =
    (case retransmission_feed_new b s cfg pb_cfg bs fd of
       Inl err \<Rightarrow> (Inl err, k)
     | Inr rf \<Rightarrow> (Inr rf, acquire (rs_epoll_create_ret s) (acquire (rs_socket_ret s) k)))"
proof (cases "rs_socket_ret s < 0 \<or> rs_epoll_create_ret s < 0")
  case True
  then show ?thesis using release_acquired [OF assms(1)]
    by (auto simp: retransmission_feed_on_def retransmission_feed_new_def fd_from_syscall_def Let_def) (simp_all add: acquire_def)
next
  case False
  have "rs_epoll_create_ret s \<notin> k_open (acquire (rs_socket_ret s) k)" using assms(2) False by (simp add: acquire_def)
  then show ?thesis using False release_acquired [OF assms(1)] release_acquired [of "rs_epoll_create_ret s" "acquire (rs_socket_ret s) k"]
    by (simp add: retransmission_feed_on_def fd_from_syscall_def Let_def split: sum.split)
qed

lemma pool_worker_returns_fds:
  assumes "rs_socket_ret s \<notin> k_open k" and "rs_epoll_create_ret s \<notin> insert (rs_socket_ret s) (k_open k)"
    and "pool_worker fuel b s w t feed_cfg pb_cfg bs pool k = Some (r, k')"
  shows "k' = k"
proof (cases "retransmission_feed_new b s feed_cfg pb_cfg bs (fd_get (fp_shutdown_fd pool))")
  case (Inl err)
  then show ?thesis using assms(3) by (simp add: pool_worker_def retransmission_feed_on_eq [OF assms(1,2)])
next
  case (Inr rf)
  have rf: "rf_socket_fd rf = rs_socket_ret s" "rf_epoll_fd rf = rs_epoll_create_ret s" "0 \<le> rs_socket_ret s" "0 \<le> rs_epoll_create_ret s"
    using Inr by (auto simp: retransmission_feed_new_def andThen_eq_Inr_iff split: if_splits)
  have "rs_epoll_create_ret s \<notin> k_open (acquire (rs_socket_ret s) k)" using assms(2) rf(3) by (simp add: acquire_def)
  then show ?thesis using assms(3) Inr release_acquired [OF assms(1) rf(3)] release_acquired [OF _ rf(4)]
    by (auto simp: pool_worker_def retransmission_feed_on_eq [OF assms(1,2)] rf(1,2))
qed

end
