(* ===== verification/Delivery.thy ===== *)
theory Delivery
  imports Server
begin

text \<open>
  From the constructor to the receiver. The lemmas put the components together: a feed built on a file of
  framed messages is ready to replay it, the receiver decodes what the feed sends, and a worker that
  shares the file and the ring buffer answers a request with the very messages the feed has numbered.
\<close>

subsection \<open>What a successful constructor says of its arguments\<close>

lemma packet_builder_new_inv: "packet_builder_new b cfg = Inr pb \<Longrightarrow> pb_cfg_ok cfg"
  by (simp add: packet_builder_new_def pb_cfg_ok_def split: if_splits)

lemma downstream_configure_socket_inv:
  "0 \<le> socket_ret s \<Longrightarrow> downstream_configure_socket s cfg = Inr a \<Longrightarrow> sockets_ok s cfg"
  by (auto simp: downstream_configure_socket_def sockets_ok_def split: if_splits prod.splits)

lemma downstream_feed_new_inv:
  assumes "downstream_feed_new b s cfg pb_cfg bs rb = Inr f"
  shows "sockets_ok s cfg" and "pb_cfg_ok pb_cfg"
  using assms packet_builder_new_inv downstream_configure_socket_inv
  by (fastforce simp: downstream_feed_new_def andThen_eq_Inr_iff split: if_splits)+

lemma retransmission_buffer_new_inv: "retransmission_buffer_new n = Inr rb \<Longrightarrow> rb_rep rb [] \<and> rb_size rb = unat n"
proof -
  assume *: "retransmission_buffer_new n = Inr rb"
  then have "n \<noteq> 0" by (auto simp: retransmission_buffer_new_def Let_def)
  then have "0 < n" by (simp add: word_neq_0_conv)
  then show ?thesis using retransmission_buffer_new_rep * by (metis sum.inject(2))
qed

subsection \<open>A new feed on a file of framed messages\<close>

text \<open>What the configuration and the environment have to be for a replay of \<open>bodies\<close>.\<close>

definition playable :: "build \<Rightarrow> env \<Rightarrow> downstream_config \<Rightarrow> packet_builder_config \<Rightarrow> bytes list \<Rightarrow> u64 \<Rightarrow> bool" where
  "playable b e cfg pb_cfg bodies n \<longleftrightarrow>
     (\<forall>body \<in> set bodies. 11 \<le> length body \<and> length body < 65536 \<and> length body + 22 \<le> cfg_MTU pb_cfg \<and>
        (ndebug b \<or> cfg_min_message_size pb_cfg \<le> length body + 2)) \<and>
     length (concat (map frame bodies)) + unat n + 1 < 2 ^ 64 \<and> native b = Little \<and> \<not> debug_no_network b \<and>
     (\<forall>t. \<not> stop_requested_at e t) \<and> (debug_no_sleep b \<or> paced e (pacer_new (dc_pacer_cfg cfg)))"

definition early :: "downstream_config \<Rightarrow> bytes \<Rightarrow> bool" where
  "early cfg m \<longleftrightarrow> msg_timestamp m < cfg_skip_before (dc_pacer_cfg cfg)"

lemma new_feed_ready:
  assumes "downstream_feed_new b s cfg pb_cfg (concat (map frame bodies)) rb = Inr f"
    and "retransmission_buffer_new n = Inr rb" and "playable b e cfg pb_cfg bodies n"
  shows "replay_ready b e f []" and "messages_from (df_file f) (df_file_pos f) = map frame bodies"
    and "ds_capacity f = cfg_MTU pb_cfg - 20" and "session (df_packet_builder f) = cfg_session pb_cfg"
    and "skips f = early cfg" and "length (cfg_session pb_cfg) = 10"
    and "df_file f = concat (map frame bodies)" and "df_retransmission_buffer f = rb"
    and "df_end_of_session_duration f = dc_end_of_session_duration cfg" and "20 \<le> cfg_MTU pb_cfg"
proof -
  let ?bs = "concat (map frame bodies)"
  note pl = assms(3) [unfolded playable_def]
  have ok: "sockets_ok s cfg" "pb_cfg_ok pb_cfg" using downstream_feed_new_inv [OF assms(1)] by auto
  have rb: "rb_rep rb []" "rb_size rb = unat n" using retransmission_buffer_new_inv [OF assms(2)] by auto
  have fit: "length ?bs + rb_size rb + 1 < 2 ^ 64" using pl rb(2) by simp
  obtain f' where "downstream_feed_new b s cfg pb_cfg ?bs rb = Inr f'" "ds_inv f' []" "df_file f' = ?bs" "df_file_pos f' = 0"
    "pb_config (df_packet_builder f') = (cfg_session pb_cfg, cfg_MTU pb_cfg - 20, cfg_min_message_size pb_cfg)"
    "df_pacer f' = pacer_new (dc_pacer_cfg cfg)" "df_end_of_session_duration f' = dc_end_of_session_duration cfg"
    using downstream_feed_new_ok [OF ok rb(1) fit] by metis
  with assms(1) have f: "ds_inv f []" "df_file f = ?bs" "df_file_pos f = 0"
    "pb_config (df_packet_builder f) = (cfg_session pb_cfg, cfg_MTU pb_cfg - 20, cfg_min_message_size pb_cfg)"
    "df_pacer f = pacer_new (dc_pacer_cfg cfg)" "df_end_of_session_duration f = dc_end_of_session_duration cfg" by auto
  show ms: "messages_from (df_file f) (df_file_pos f) = map frame bodies"
    unfolding f(2,3) using messages_from_frames [of bodies "[]"] pl by auto
  show cap: "ds_capacity f = cfg_MTU pb_cfg - 20" and "session (df_packet_builder f) = cfg_session pb_cfg"
    using f(4) by (simp_all add: ds_capacity_def pb_config_def)
  show "skips f = early cfg" using f(5) by (simp add: skips_def early_def pacer_new_def fun_eq_iff)
  have "asserts_hold b f" unfolding asserts_hold_def ms f(4) using pl by (auto simp: admits_def length_frame)
  moreover have "well_framed f"
    unfolding well_framed_def Let_def ms cap using pl f(2,3) by (auto simp: length_frame)
  moreover have "pause_ok b e f" using pl f(5) by (simp add: pause_ok_def)
  ultimately show "replay_ready b e f []" using f(1) pl by (simp add: replay_ready_def)
  show "length (cfg_session pb_cfg) = 10" "20 \<le> cfg_MTU pb_cfg" using ok(2) by (simp_all add: pb_cfg_ok_def)
  show "df_file f = ?bs" "df_end_of_session_duration f = dc_end_of_session_duration cfg" using f by simp_all
  show "df_retransmission_buffer f = rb"
    using assms(1) by (auto simp: downstream_feed_new_def andThen_eq_Inr_iff split: if_splits)
qed

lemma packet_message_count:
  assumes "p \<in> set (plan skip cap ms)" and "\<forall>m \<in> set ms. 1 \<le> length m" and "cap < 65536"
  shows "length p < 65536"
proof -
  have "length (concat p) \<le> cap" "set p \<subseteq> set ms" using plan_packet [OF assms(1)] by auto
  then have "1 * length p \<le> cap" using length_concat_ge [of p 1] assms(2) by (meson le_trans subsetD)
  then show ?thesis using assms(3) by simp
qed

lemma receive_plan:
  assumes "length sess = 10" and "\<forall>body \<in> set bodies. length body < 65536" and "cap < 65536"
  shows "map (receive_packet b) (numbered sess n (plan skip cap (map frame bodies))) =
    map Inr (decoded sess n (plan skip cap (map frame bodies)))"
proof (rule receive_numbered [OF assms(1)], intro ballI conjI)
  fix p assume p: "p \<in> set (plan skip cap (map frame bodies))"
  show "p \<noteq> []" using plan_packet [OF p] by simp
  show "length p < 65536" using packet_message_count [OF p] assms(3) by (simp add: length_frame)
  show "\<exists>body. m = frame body \<and> length body < 65536" if "m \<in> set p" for m
  proof -
    have "m \<in> frame ` set bodies" using plan_packet [OF p] that by auto
    then show ?thesis using assms(2) by blast
  qed
qed

text \<open>A reply holds a non-empty prefix of the messages asked for, and the receiver gets their bodies.\<close>

lemma receive_fit:
  assumes "length sess = 10" and "\<forall>body \<in> set bodies. length body < 65536" and "bodies \<noteq> []"
    and "length (frame (hd bodies)) \<le> cap" and "0 < c" and "c < 65536"
  shows "\<exists>k. 1 \<le> k \<and> k \<le> c \<and> receive_packet b (mold_packet sess q (fit cap (take c (map frame bodies)))) =
    Inr (\<lparr>hdr_session = sess, hdr_sequence_number = q, hdr_message_count = word_of_nat k\<rparr>, take k bodies)"
proof -
  define fits where "fits = fit cap (take c (map frame bodies))"
  define k where "k = length fits"
  have k: "k \<le> c" using fit_length_le [of cap "take c (map frame bodies)"] by (simp add: k_def fits_def)
  have "fits = take k (take c (map frame bodies))" unfolding k_def fits_def by (rule fit_prefix)
  also have "\<dots> = map frame (take k bodies)" using k by (simp add: min_absorb1 take_map)
  finally have pfx: "fits = map frame (take k bodies)" .
  have nonempty: "fits \<noteq> []" unfolding fits_def using assms(3-5) by (intro fit_nonempty) (simp_all add: hd_take hd_map)
  then have k1: "1 \<le> k" by (simp add: k_def Suc_le_eq)
  have len: "length (take k bodies) = k" using pfx by (metis k_def length_map)
  have ne: "take k bodies \<noteq> []" using nonempty pfx by (metis list.map_disc_iff)
  have "\<forall>body \<in> set (take k bodies). length body < 65536" using assms(2) in_set_takeD by metis
  then have "receive_packet b (mold_packet sess q fits) =
      Inr (\<lparr>hdr_session = sess, hdr_sequence_number = q, hdr_message_count = word_of_nat k\<rparr>, take k bodies)"
    using receive_mold_packet [OF assms(1) _ _ ne, of b q] len k assms(6) unfolding pfx by simp
  then show ?thesis using k k1 fits_def by blast
qed

subsection \<open>Retransmission of what was replayed\<close>

lemma messages_from_position:
  assumes "ms = messages_from bs p" and "i < length ms"
  shows "messages_from bs (msg_positions p ms ! i) = drop i ms"
  using messages_from_drop [of "take i ms" i bs p] assms by (simp add: nth_msg_positions)

lemma replay_positions_skips_first:
  assumes "well_framed f" and "skips_first (skips f) (messages_from (df_file f) (df_file_pos f))"
  obtains p where "replay_positions f = msg_positions p (dropWhile (skips f) (messages_from (df_file f) (df_file_pos f)))"
    and "messages_from (df_file f) p = dropWhile (skips f) (messages_from (df_file f) (df_file_pos f))"
    and "concat (replay_plan f) = dropWhile (skips f) (messages_from (df_file f) (df_file_pos f))"
proof -
  let ?ms = "messages_from (df_file f) (df_file_pos f)"
  let ?p = "df_file_pos f + length (concat (takeWhile (skips f) ?ms))"
  have len: "\<forall>m \<in> set ?ms. length m \<le> ds_capacity f" using well_framedD(2) [OF assms(1)] by blast
  have "messages_from (df_file f) ?p = drop (length (takeWhile (skips f) ?ms)) ?ms"
    by (rule messages_from_drop) (rule takeWhile_eq_take)
  then have "messages_from (df_file f) ?p = dropWhile (skips f) ?ms" by (simp only: dropWhile_eq_drop)
  moreover have "replay_positions f = msg_positions ?p (dropWhile (skips f) ?ms)"
    unfolding replay_positions_def by (rule plan_positions_skips_first [OF len assms(2)])
  moreover have "concat (replay_plan f) = dropWhile (skips f) ?ms"
    unfolding replay_plan_def by (rule plan_skips_first [OF len assms(2)])
  ultimately show ?thesis by (intro that)
qed

lemma retransmission_of_replayed:
  assumes "rb_rep rb posns" and "msg_positions p ms = posns @ later" and "ms = messages_from (rf_file rf) p"
    and "1 \<le> s" and "s \<le> length posns" and "length posns < s + rb_size rb"
    and "rf_inv rf" and "\<forall>m \<in> set ms. admits b (pb_config (rf_packet_builder rf)) m" and "\<not> debug_no_network b"
    and "take 20 d = header_of (session (rf_packet_builder rf)) (word_of_nat s) count"
  shows "\<exists>rf'. handle_request b e t rf rb (Recv_datagram d addr) =
    Inr (rf', Send addr (mold_packet (session (rf_packet_builder rf)) (word_of_nat s)
        (fit (pb_MTU (rf_packet_builder rf) - 20) (take (unat count) (drop (s - 1) ms)))) (send_result_at e t) #
        (if send_result_at e t < 0 then [Logged_error] else []), Suc t) \<and> rf_inv rf'"
proof -
  let ?pos = "msg_positions p ms ! (s - 1)"
  have "s < 2 ^ 64" using rb_repD(2) [OF assms(1)] assms(5) by simp
  moreover have "?pos = posns ! (s - 1)" using assms(4,5) by (simp add: assms(2) nth_append less_le_trans [OF diff_less])
  ultimately have pos: "file_position_for rb (word_of_nat s) = Inr (Some ?pos)"
    using rb.recorded_is_found [OF assms(1,4)] assms(5,6) by simp
  have "length posns \<le> length ms" using arg_cong [OF assms(2), of length] by simp
  then have ms: "messages_from (rf_file rf) ?pos = drop (s - 1) ms"
    using messages_from_position [OF assms(3)] assms(4,5) by simp
  then have "rf_asserts_hold b rf ?pos"
    using assms(8) set_drop_subset [of "s - 1" ms] by (auto simp: rf_asserts_hold_def)
  then obtain rf' where "handle_request b e t rf rb (Recv_datagram d addr) =
      Inr (rf', Send addr (mold_packet (session (rf_packet_builder rf)) (word_of_nat s) (retransmitted rf ?pos count)) (send_result_at e t) #
              (if send_result_at e t < 0 then [Logged_error] else []), Suc t)" "rf_inv rf'"
    using handle_request_serves [OF assms(7) _ assms(9,10) pos] by metis
  then show ?thesis using ms by (simp add: retransmitted_def)
qed

subsection \<open>A new feed on any file\<close>

lemma new_feed_numbers:
  assumes "downstream_feed_new b s cfg pb_cfg bs rb = Inr f"
  shows "df_sequence_number f = 1" and "df_sent_sequence_number f = 1"
  using assms by (auto simp: downstream_feed_new_def andThen_eq_Inr_iff split: if_splits)

lemma new_feed_inv:
  assumes "downstream_feed_new b s cfg pb_cfg bs rb = Inr f" and "retransmission_buffer_new n = Inr rb"
    and "length bs + unat n + 1 < 2 ^ 64"
  shows "ds_inv f []" and "df_file f = bs" and "df_file_pos f = 0" and "pb_MTU (df_packet_builder f) = cfg_MTU pb_cfg"
    and "df_pacer f = pacer_new (dc_pacer_cfg cfg)"
    and "pb_config (df_packet_builder f) = (cfg_session pb_cfg, cfg_MTU pb_cfg - 20, cfg_min_message_size pb_cfg)"
proof -
  have ok: "sockets_ok s cfg" "pb_cfg_ok pb_cfg" using downstream_feed_new_inv [OF assms(1)] by auto
  have rb: "rb_rep rb []" "rb_size rb = unat n" using retransmission_buffer_new_inv [OF assms(2)] by auto
  obtain f' where "downstream_feed_new b s cfg pb_cfg bs rb = Inr f'" "ds_inv f' []" "df_file f' = bs" "df_file_pos f' = 0"
    "pb_config (df_packet_builder f') = (cfg_session pb_cfg, cfg_MTU pb_cfg - 20, cfg_min_message_size pb_cfg)"
    "df_pacer f' = pacer_new (dc_pacer_cfg cfg)"
    using downstream_feed_new_ok [OF ok rb(1), of bs b] assms(3) unfolding rb(2) by metis
  with assms(1) have f: "ds_inv f []" "df_file f = bs" "df_file_pos f = 0" "df_pacer f = pacer_new (dc_pacer_cfg cfg)"
    "pb_config (df_packet_builder f) = (cfg_session pb_cfg, cfg_MTU pb_cfg - 20, cfg_min_message_size pb_cfg)"
    by auto
  then have "pb_MTU (df_packet_builder f) - 20 = cfg_MTU pb_cfg - 20" by (simp add: pb_config_def)
  then have "pb_MTU (df_packet_builder f) = cfg_MTU pb_cfg"
    using pb_invD(2) [OF ds_invD(1) [OF f(1)]] ok(2) unfolding pb_cfg_ok_def by linarith
  with f show "ds_inv f []" "df_file f = bs" "df_file_pos f = 0" "pb_MTU (df_packet_builder f) = cfg_MTU pb_cfg"
    "df_pacer f = pacer_new (dc_pacer_cfg cfg)"
    "pb_config (df_packet_builder f) = (cfg_session pb_cfg, cfg_MTU pb_cfg - 20, cfg_min_message_size pb_cfg)" by simp_all
qed

end
