(* ===== verification/Samples.thy ===== *)
theory Samples
  imports Delivery
begin

text \<open>
  Concrete values at which the theorems are applied: a debug build on a little-endian host, a file of two
  messages, a ring of four slots, an environment that never stops the feed and whose clock jumps ahead
  after the replay, and a retransmission worker on the same file.
\<close>

definition sample_build :: build where
  "sample_build = \<lparr>ndebug = False, native = Little, debug_no_network = False, debug_no_sleep = False\<rparr>"

definition release_build :: build where
  "release_build = sample_build\<lparr>ndebug := True\<rparr>"

definition sample_env :: env where
  "sample_env = \<lparr>stop_requested_at = (\<lambda>_. False), now_at = (\<lambda>t. if t \<le> 1000 then 0 else 1000000000000),
     send_result_at = (\<lambda>_. 48)\<rparr>"

definition stopped_env :: env where
  "stopped_env = sample_env\<lparr>stop_requested_at := (\<lambda>t. 5 \<le> t)\<rparr>"

definition sample_session :: bytes where "sample_session = replicate 10 65"

definition sample_bodies :: "bytes list" where
  "sample_bodies = [replicate 12 1, replicate 12 2]"

definition sample_pb_cfg :: packet_builder_config where
  "sample_pb_cfg = default_packet_builder_config sample_session"

definition sample_cfg :: downstream_config where
  "sample_cfg = (default_downstream_config [] 5000)\<lparr>dc_pacer_cfg := \<lparr>cfg_playback_speed = Finite 1, cfg_skip_before = 0\<rparr>\<rparr>"

definition sample_sockets :: socket_env where
  "sample_sockets = \<lparr>socket_ret = 3, reuseaddr_ret = 0, ttl_ret = 0, loop_ret = 0, multicast_if_ret = 0,
     inet_pton = (\<lambda>_. (1, 0)), errno = 0\<rparr>"

definition sample_address :: sockaddr_in where
  "sample_address = \<lparr>sin_family = AF_INET, sin_port = 1, sin_addr = 2\<rparr>"

definition sample_rb :: retransmission_buffer where
  "sample_rb = \<lparr>rb_buffer = replicate 4 empty_record, rb_mask = 3, rb_use_mask = True, rb_write_seq = 0\<rparr>"

lemmas sample_defs = sample_build_def sample_env_def sample_session_def sample_bodies_def sample_pb_cfg_def sample_cfg_def
  sample_sockets_def default_packet_builder_config_def default_downstream_config_def default_min_message_size_def

lemma sample_rb_new: "retransmission_buffer_new 4 = Inr sample_rb"
  by (simp add: retransmission_buffer_new_def sample_rb_def Let_def)

lemma sample_paced: "paced sample_env (pacer_new (dc_pacer_cfg sample_cfg))"
  by (simp add: paced_def pacer_new_def sample_env_def sample_cfg_def)

lemma sample_playable: "playable sample_build sample_env sample_cfg sample_pb_cfg sample_bodies 4"
  using sample_paced by (simp add: playable_def length_frame) (simp add: sample_defs length_frame)

lemma sample_ok: "sockets_ok sample_sockets sample_cfg" "pb_cfg_ok sample_pb_cfg"
  by (simp_all add: sockets_ok_def pb_cfg_ok_def sample_defs)

lemma sample_feed_new:
  "\<exists>f. downstream_feed_new sample_build sample_sockets sample_cfg sample_pb_cfg (concat (map frame sample_bodies)) sample_rb = Inr f"
proof -
  have rb: "rb_rep sample_rb []" "rb_size sample_rb = 4"
    using retransmission_buffer_new_inv [OF sample_rb_new] by simp_all
  have "length (concat (map frame sample_bodies)) + rb_size sample_rb + 1 < 2 ^ 64"
    unfolding rb(2) by (simp add: sample_bodies_def length_frame)
  then show ?thesis using downstream_feed_new_ok [OF sample_ok rb(1)] by metis
qed

definition sample_feed :: downstream_feed where
  "sample_feed = projr (downstream_feed_new sample_build sample_sockets sample_cfg sample_pb_cfg (concat (map frame sample_bodies)) sample_rb)"

lemma sample_feed: "downstream_feed_new sample_build sample_sockets sample_cfg sample_pb_cfg (concat (map frame sample_bodies)) sample_rb = Inr sample_feed"
  using sample_feed_new by (auto simp: sample_feed_def)

lemmas sample_feed_ready = new_feed_ready [OF sample_feed sample_rb_new sample_playable]

lemma sample_not_early: "\<not> early sample_cfg m"
  by (simp add: early_def msg_timestamp_def sample_cfg_def)

lemma sample_skips_first: "skips_first (early sample_cfg) ms"
  by (simp add: skips_first_def sample_not_early)

lemma sample_clock: "clock_passes sample_env 100 (dc_end_of_session_duration sample_cfg)"
  unfolding clock_passes_def
  by (intro exI [of _ 1001]) (simp add: sample_env_def sample_cfg_def default_downstream_config_def)

subsection \<open>A worker on the same file\<close>

definition sample_socket_env :: retransmission_socket_env where
  "sample_socket_env = \<lparr>rs_socket_ret = 6, rs_epoll_create_ret = 7, rs_reuseaddr_ret = 0, rs_reuseport_ret = 0,
     rs_inet_pton = (\<lambda>_. (1, 0)), rs_bind_ret = 0, rs_ctl_socket_ret = 0, rs_ctl_shutdown_ret = 0, rs_errno = 0\<rparr>"

definition sample_worker :: "bytes \<Rightarrow> retransmission_feed" where
  "sample_worker bs = projr (retransmission_feed_new sample_build sample_socket_env \<lparr>rc_address = [], rc_port = 5001\<rparr> sample_pb_cfg bs 5)"

lemma sample_worker_new:
  obtains pb where "packet_builder_new sample_build sample_pb_cfg = Inr pb" and "pb_inv pb"
    and "session pb = sample_session" and "pb_MTU pb = 1472" and "pb_min_message_size pb = 14"
    and "sample_worker bs = \<lparr>rf_socket_fd = 6, rf_epoll_fd = 7, rf_shutdown_fd = 5, rf_epoll_events = [empty_event, empty_event],
      rf_recv_buffer = replicate 20 0, rf_packet_builder = pb, rf_file = bs\<rparr>"
proof -
  obtain pb where pb: "packet_builder_new sample_build sample_pb_cfg = Inr pb" "pb_inv pb" "session pb = cfg_session sample_pb_cfg"
    "pb_MTU pb = cfg_MTU sample_pb_cfg" "pb_min_message_size pb = cfg_min_message_size sample_pb_cfg"
    using packet_builder_new_ok [of sample_pb_cfg sample_build] sample_ok(2) by (metis pb_cfg_ok_def)
  show ?thesis
    by (rule that [OF pb(1,2)]) (use pb in \<open>simp_all add: sample_worker_def retransmission_feed_new_def
        retransmission_configure_socket_def sample_socket_env_def sample_build_def sample_pb_cfg_def
        default_packet_builder_config_def default_min_message_size_def\<close>)
qed

lemma sample_worker_fields:
  "rf_inv (sample_worker bs)" "rf_file (sample_worker bs) = bs" "session (rf_packet_builder (sample_worker bs)) = sample_session"
  "pb_config (rf_packet_builder (sample_worker bs)) = (sample_session, 1452, 14)" "rf_shutdown_fd (sample_worker bs) = 5"
  "rf_epoll_events (sample_worker bs) = [empty_event, empty_event]" "pb_MTU (rf_packet_builder (sample_worker bs)) = 1472"
  by (rule sample_worker_new [of bs]; simp add: rf_inv_def pb_config_def)+

subsection \<open>Further instances\<close>

lemma sample_feed_inv: "ds_inv sample_feed []" "asserts_hold sample_build sample_feed"
  using replay_readyD(1,2) [OF sample_feed_ready(1)] .

text \<open>A ring that holds the first message of the sample file.\<close>

lemma sample_ring:
  obtains rb where "push_all sample_rb 0 [0] = Inr rb" and "rb_rep rb [0]"
proof -
  have pre: "0 < (4 :: u64)" "length [0 :: nat] + unat (4 :: u64) < 2 ^ 64" by simp_all
  show ?thesis
    using new_push_all [OF pre] sample_rb_new that by (metis sum.inject(2))
qed

lemma sample_ring_positions:
  assumes "rb_rep rb [0]" and "file_position_for rb seq = Inr (Some pos)"
  shows "pos = 0"
  using assms(2) unfolding file_position_for_rep [OF assms(1)]
  by (auto simp: window_lookup_def split: if_splits)

lemma sample_worker_asserts: "rf_asserts_hold sample_build (sample_worker (concat (map frame sample_bodies))) 0"
proof -
  have "messages_from (concat (map frame sample_bodies)) 0 = map frame sample_bodies"
    using messages_from_frames [of sample_bodies "[]"] by (simp add: sample_bodies_def)
  then show ?thesis
    unfolding rf_asserts_hold_def sample_worker_fields by (auto simp: admits_def sample_bodies_def length_frame)
qed

definition shutdown_env :: worker_env where
  "shutdown_env = \<lparr>we_env = sample_env, we_epoll_at = (\<lambda>_. \<lparr>ep_nfds = 1, ep_errno = 0, ep_events = [\<lparr>ev_events = 1, ev_fd = 5\<rparr>]\<rparr>),
     we_recv_at = (\<lambda>_. Recv_error 11), we_buffer_at = (\<lambda>_. sample_rb)\<rparr>"

lemma shutdown_env_ready: "worker_ready sample_build shutdown_env (sample_worker bs)"
proof -
  have rb: "rb_rep sample_rb []" using retransmission_buffer_new_inv [OF sample_rb_new] by simp
  have "file_position_for sample_rb seq \<noteq> Inr (Some pos)" for seq pos
    unfolding file_position_for_rep [OF rb] by (auto simp: window_lookup_def)
  then show ?thesis
    using rb sample_worker_fields(1) [of bs]
    by (auto simp: worker_ready_def shutdown_env_def epoll_documented_def sample_build_def)
qed

definition broken_epoll_env :: worker_env where
  "broken_epoll_env = shutdown_env\<lparr>we_epoll_at := (\<lambda>_. \<lparr>ep_nfds = - 1, ep_errno = 9, ep_events = []\<rparr>)\<rparr>"

text \<open>A release build on a file that ends in the middle of a message.\<close>

definition ragged_file :: bytes where
  "ragged_file = concat (map frame sample_bodies) @ [0, 9, 1]"

definition ragged_feed :: downstream_feed where
  "ragged_feed = projr (downstream_feed_new release_build sample_sockets sample_cfg sample_pb_cfg ragged_file sample_rb)"

lemma ragged_feed: "downstream_feed_new release_build sample_sockets sample_cfg sample_pb_cfg ragged_file sample_rb = Inr ragged_feed"
proof -
  have rb: "rb_rep sample_rb []" "rb_size sample_rb = 4" using retransmission_buffer_new_inv [OF sample_rb_new] by simp_all
  have "length ragged_file + rb_size sample_rb + 1 < 2 ^ 64" unfolding rb(2) by (simp add: ragged_file_def sample_bodies_def length_frame)
  then have "\<exists>f. downstream_feed_new release_build sample_sockets sample_cfg sample_pb_cfg ragged_file sample_rb = Inr f"
    using downstream_feed_new_ok [OF sample_ok rb(1)] by metis
  then show ?thesis by (auto simp: ragged_feed_def)
qed

lemma ragged_file_length: "length ragged_file = 31" "length ragged_file + unat (4 :: u64) + 1 < 2 ^ 64"
  by (simp_all add: ragged_file_def sample_bodies_def length_frame)

lemma ragged_messages:
  "message_at ragged_file 0 = Some (frame (replicate 12 1))" "message_at ragged_file 14 = Some (frame (replicate 12 2))"
  "message_at ragged_file 28 = None" "message_at ragged_file 30 = None"
  by code_simp+

lemma ragged_walked: "walked ragged_file q \<Longrightarrow> q \<in> {0, 14, 28, 30}"
  by (induction rule: walked.induct) (auto simp: ragged_messages length_frame fail_position_def ragged_file_length)

lemma ragged_sound: "\<not> (walked ragged_file q \<and> short_tail ragged_file q)"
  "walked ragged_file q \<Longrightarrow> message_at ragged_file q = Some m \<Longrightarrow> length m = 14"
  "walked ragged_file q \<Longrightarrow> message_at ragged_file q = None \<Longrightarrow> 28 \<le> q"
  using ragged_walked [of q] by (auto simp: short_tail_def ragged_file_length ragged_messages length_frame)

lemma ragged_ended: "loop_ended sample_env ragged_file p \<Longrightarrow> 23 < p"
  by (auto simp: loop_ended_def sample_env_def fail_position_def ragged_file_length dest: ragged_sound(3))

lemma release_build_release: "ndebug release_build" "\<not> debug_no_network release_build"
  by (simp_all add: release_build_def sample_build_def)

text \<open>A feed whose only message does not fit its packets.\<close>

definition small_pb_cfg :: packet_builder_config where
  "small_pb_cfg = \<lparr>cfg_session = sample_session, cfg_MTU = 30, cfg_min_message_size = 14\<rparr>"

definition small_feed :: downstream_feed where
  "small_feed = projr (downstream_feed_new sample_build sample_sockets sample_cfg small_pb_cfg (frame (replicate 12 1)) sample_rb)"

lemma small_feed:
  "downstream_feed_new sample_build sample_sockets sample_cfg small_pb_cfg (frame (replicate 12 1)) sample_rb = Inr small_feed"
proof -
  have rb: "rb_rep sample_rb []" "rb_size sample_rb = 4"
    using retransmission_buffer_new_inv [OF sample_rb_new] by simp_all
  have "pb_cfg_ok small_pb_cfg" by (simp add: pb_cfg_ok_def small_pb_cfg_def sample_session_def)
  moreover have "length (frame (replicate 12 1)) + rb_size sample_rb + 1 < 2 ^ 64" unfolding rb(2) by (simp add: length_frame)
  ultimately have "\<exists>f. downstream_feed_new sample_build sample_sockets sample_cfg small_pb_cfg (frame (replicate 12 1)) sample_rb = Inr f"
    using downstream_feed_new_ok [OF sample_ok(1) _ rb(1)] by metis
  then show ?thesis by (auto simp: small_feed_def)
qed

lemma small_feed_oversized: "oversized sample_build sample_env small_feed [] (frame (replicate 12 1))"
proof -
  have len: "length (frame (replicate 12 1)) + unat (4 :: u64) + 1 < 2 ^ 64" by (simp add: length_frame)
  note f = new_feed_inv [OF small_feed sample_rb_new len]
  have ms: "message_at (frame (replicate 12 1)) 0 = Some (frame (replicate 12 1))"
    using message_at_frame [of "replicate 12 1" "[]" "[]"] by simp
  have "messages_from (frame (replicate 12 1)) 0 = [frame (replicate 12 1)]"
    using messages_from_frames [of "[replicate 12 1]" "[]"] by simp
  then have "asserts_hold sample_build small_feed"
    unfolding asserts_hold_def f(2,3,6) by (simp add: admits_def small_pb_cfg_def length_frame)
  moreover have "pause_ok sample_build sample_env small_feed" using sample_paced f(5) by (simp add: pause_ok_def)
  moreover have "ds_capacity small_feed = 10" using f(4) by (simp add: ds_capacity_def small_pb_cfg_def)
  moreover have "\<not> skips small_feed m" for m
    using sample_not_early [of m] f(5) by (simp add: skips_def early_def pacer_new_def)
  ultimately show ?thesis
    using f(1-3) ms by (simp add: oversized_def length_frame sample_build_def sample_env_def)
qed

subsection \<open>Server configurations\<close>

definition sample_server_env :: server_env where
  "sample_server_env = \<lparr>se_map = sample_map_env, se_socket = sample_sockets\<lparr>socket_ret := 4\<rparr>,
     se_pool = \<lparr>pl_eventfd_ret = 5, pl_thread_ok = (\<lambda>_. True), pl_write_ret = 8, pl_errno = 0\<rparr>\<rparr>"

definition sample_server_cfg :: server_config where
  "sample_server_cfg = \<lparr>sc_mapped_file = \<lparr>mc_mmap_flags = 0, mc_madvise_flags = 0\<rparr>, sc_packet_builder = sample_pb_cfg,
     sc_downstream = sample_cfg, sc_buffer_size = 4, sc_retransmission = \<lparr>rc_address = [], rc_port = 5001\<rparr>, sc_num_feeds = 2\<rparr>"

lemma sample_server_ok: "server_cfg_ok sample_server_env sample_server_cfg" "map_env_ok (se_map sample_server_env) sample_vm"
  "fds_fresh sample_server_env sample_vm"
  using sample_ok sample_map_ok
  by (simp_all add: server_cfg_ok_def sample_server_env_def sample_server_cfg_def sockets_ok_def sample_map_env_def
      fds_fresh_def sample_vm_def)

lemma sample_mapped:
  "\<exists>mf v1. mapped_new (sc_mapped_file sample_server_cfg) (se_map sample_server_env) sample_vm = (Inr mf, v1)"
  by (simp add: mapped_new_def fd_from_path_def sample_map_env_def acquire_def Let_def sample_server_cfg_def sample_server_env_def)

end
