(* ===== verification/Feed_Threads.thy ===== *)
theory Feed_Threads
  imports Session
begin

text \<open>
  The two threads of a running \<open>downstream::Feed\<close>: the thread that called \<open>start\<close> and the heartbeat thread it
  creates (\<open>src/src/mold/downstream/feed.cpp\<close>, \<open>src/src/mold/downstream/heartbeat.cpp\<close>). They share the feed: the heartbeat
  reads \<open>sent_sequence_number_\<close> and sends on the same socket. Here both are split into the pieces between which
  the other can run, and interleaved in any order (\<open>tstep\<close>).

  The pieces of the feed thread are the head of the loop (\<open>loop_head\<close>), the building of a packet, the pause,
  the first half of \<open>send_packet\<close> (\<open>send_store\<close>: the header is finished and the sequence number stored), the
  \<open>sendmsg\<close> (\<open>send_transmit\<close>), the two halves of \<open>Heartbeat::stop\<close>, and the turns of the end-of-session loop; those
  of the heartbeat thread are the test of its stop token, the load, the write into its packet, the \<open>sendto\<close> and
  the sleep. \<open>hb_running\<close> is the stop token of the heartbeat: it is cleared by \<open>request_stop\<close>, and the join waits for
  \<open>H_exited\<close>.

  \<open>sent_sequence_number_\<close> is the one variable the threads share without a lock. Its accesses are atomic and relaxed, so a
  load returns some value that was stored, never one older than the thread has seen; here it returns the last one.

  \<open>th_wire\<close> is what both threads have done to the outside so far, in order, each event with the program point
  that caused it; \<open>th_stored\<close> lists the values \<open>sent_sequence_number_\<close> has had. Neither is program state. An error of
  either thread ends the process (\<open>P_fault\<close>).

  The lemmas show that the pieces put together are the operations of \<open>Downstream_Feed\<close> and \<open>Heartbeat\<close>, that the
  feed's part of the wire does not depend on the interleaving, that no heartbeat follows an end-of-session
  packet, which number a heartbeat may carry, and that the two threads cannot block each other.
\<close>

subsection \<open>Pieces of the feed thread\<close>

datatype head = Leave | Again | Build int

definition loop_head :: "build \<Rightarrow> env \<Rightarrow> nat \<Rightarrow> downstream_feed \<Rightarrow> (head \<times> downstream_feed \<times> nat) res" where
  "loop_head b e t f =
     (if \<not> df_file_pos f < length (df_file f) then Inr (Leave, f, t)
      else if stop_requested_at e t then Inr (Leave, f, Suc t)
      else andThen (subspan (df_file f) (df_file_pos f) (length (df_file f) - df_file_pos f)) (\<lambda>rest.
        andThen (peek_timestamp b rest) (\<lambda>timestamp.
          case timestamp of
            None \<Rightarrow> Inr (Leave, f, Suc t)
          | Some ts \<Rightarrow>
              if should_skip (df_pacer f) ts then
                andThen (skip_message b (df_file f) (df_file_pos f)) (\<lambda>(ok, pos').
                Inr (if ok then Again else Leave, f\<lparr>df_file_pos := pos'\<rparr>, Suc t))
              else Inr (Build ts, f, Suc t))))"

definition send_store :: "build \<Rightarrow> downstream_feed \<Rightarrow> (iovec list \<times> downstream_feed) res" where
  "send_store b f =
     andThen (finalize b (df_packet_builder f)) (\<lambda>(packet, pb').
     Inr (packet, f\<lparr>df_packet_builder := pb', df_sent_sequence_number := df_sequence_number f\<rparr>))"

definition send_transmit :: "build \<Rightarrow> env \<Rightarrow> nat \<Rightarrow> downstream_feed \<Rightarrow> iovec list \<Rightarrow> out_event list \<times> nat" where
  "send_transmit b e t f packet =
     (if debug_no_network b then ([], t)
      else let bytes_sent = send_result_at e t in
        (Send (df_mcast_group f) (packet_bytes (df_packet_builder f) packet) bytes_sent #
           (if bytes_sent < 0 then [Logged_error] else []), Suc t))"

definition eos_begin :: "build \<Rightarrow> env \<Rightarrow> nat \<Rightarrow> downstream_feed \<Rightarrow> (bytes \<times> int) res" where
  "eos_begin b e t f =
     andThen (write_at_range b (replicate header_length 0) session_offset (session (df_packet_builder f))) (\<lambda>p1.
     andThen (write_at_be b p1 sequence_number_offset (df_sequence_number f)) (\<lambda>p2.
     andThen (write_at_be b p2 message_count_offset end_of_session_msg_count) (\<lambda>packet.
     andThen (checked_i64 (now_at e t + df_end_of_session_duration f)) (\<lambda>finish.
     Inr (packet, finish)))))"

definition eos_turn :: "build \<Rightarrow> env \<Rightarrow> nat \<Rightarrow> downstream_feed \<Rightarrow> bytes \<Rightarrow> int \<Rightarrow> out_event list option \<times> nat" where
  "eos_turn b e t f packet finish =
     (if stop_requested_at e t then (None, Suc t)
      else if \<not> finish > now_at e (Suc t) then (None, Suc (Suc t))
      else let bytes_sent = send_result_at e (Suc (Suc t)) in
        (Some (Send (df_mcast_group f) packet bytes_sent #
           (if bytes_sent < 0 then [Logged_error]
            else if bytes_sent < int (length packet) then [Logged_error] else []) @
           (if debug_no_sleep b then [] else [Slept (heartbeat_period (df_heartbeat f))])), Suc (Suc (Suc t))))"

subsection \<open>The two threads\<close>

datatype origin = Data | Heart | Eos

datatype feed_pc =
    P_begin
  | P_loop
  | P_build int
  | P_built int
  | P_paused
  | P_stored "iovec list"
  | P_leave
  | P_joining
  | P_eos
  | P_eos_loop bytes int
  | P_done
  | P_fault error

datatype heartbeat_pc = H_none | H_check | H_load | H_loaded u64 | H_written | H_sleep | H_exited

record threads =
  th_feed :: downstream_feed
  th_pc :: feed_pc
  th_tick :: nat
  th_hb_pc :: heartbeat_pc
  th_hb_tick :: nat
  th_wire :: "(origin \<times> out_event) list"
  th_stored :: "u64 list"

definition threads_init :: "downstream_feed \<Rightarrow> nat \<Rightarrow> threads \<Rightarrow> bool" where
  "threads_init f t s \<longleftrightarrow>
     s = \<lparr>th_feed = f, th_pc = P_begin, th_tick = t, th_hb_pc = H_none, th_hb_tick = th_hb_tick s, th_wire = [],
          th_stored = [df_sent_sequence_number f]\<rparr>"

definition emit :: "origin \<Rightarrow> out_event list \<Rightarrow> threads \<Rightarrow> threads" where
  "emit src evs s = s\<lparr>th_wire := th_wire s @ map (Pair src) evs\<rparr>"

text \<open>One piece of the feed thread; \<open>None\<close> when it has ended or waits in the join.\<close>

definition feed_step :: "build \<Rightarrow> env \<Rightarrow> threads \<Rightarrow> threads option" where
  "feed_step b e s =
     (let f = th_feed s; t = th_tick s in
      case th_pc s of
        P_begin \<Rightarrow> Some (s\<lparr>th_feed := f\<lparr>df_heartbeat := heartbeat_start (df_heartbeat f)\<rparr>, th_hb_pc := H_check, th_pc := P_loop\<rparr>)
      | P_loop \<Rightarrow>
          (case loop_head b e t f of
             Inl err \<Rightarrow> Some (s\<lparr>th_pc := P_fault err\<rparr>)
           | Inr (h, f', t') \<Rightarrow> Some (s\<lparr>th_feed := f', th_tick := t',
               th_pc := (case h of Leave \<Rightarrow> P_leave | Again \<Rightarrow> P_loop | Build ts \<Rightarrow> P_build ts)\<rparr>))
      | P_build ts \<Rightarrow>
          (case downstream_build_packet b f of
             Inl err \<Rightarrow> Some (s\<lparr>th_pc := P_fault err\<rparr>)
           | Inr f' \<Rightarrow> Some (s\<lparr>th_feed := f', th_pc := P_built ts\<rparr>))
      | P_built ts \<Rightarrow>
          (case downstream_pause b e t f ts of
             Inl err \<Rightarrow> Some (s\<lparr>th_pc := P_fault err\<rparr>)
           | Inr (f', evs, t') \<Rightarrow> Some (emit Data evs (s\<lparr>th_feed := f', th_tick := t', th_pc := P_paused\<rparr>)))
      | P_paused \<Rightarrow>
          (case send_store b f of
             Inl err \<Rightarrow> Some (s\<lparr>th_pc := P_fault err\<rparr>)
           | Inr (packet, f') \<Rightarrow> Some (s\<lparr>th_feed := f', th_pc := P_stored packet,
               th_stored := th_stored s @ [df_sent_sequence_number f']\<rparr>))
      | P_stored packet \<Rightarrow>
          (case send_transmit b e t f packet of (evs, t') \<Rightarrow>
             Some (emit Data evs (s\<lparr>th_tick := t', th_pc := P_loop\<rparr>)))
      | P_leave \<Rightarrow> Some (s\<lparr>th_feed := f\<lparr>df_heartbeat := heartbeat_stop (df_heartbeat f)\<rparr>, th_pc := P_joining\<rparr>)
      | P_joining \<Rightarrow> if th_hb_pc s = H_exited then Some (s\<lparr>th_pc := P_eos\<rparr>) else None
      | P_eos \<Rightarrow>
          if debug_no_network b then Some (s\<lparr>th_pc := P_done\<rparr>)
          else (case eos_begin b e t f of
             Inl err \<Rightarrow> Some (s\<lparr>th_pc := P_fault err\<rparr>)
           | Inr (packet, finish) \<Rightarrow> Some (s\<lparr>th_tick := Suc t, th_pc := P_eos_loop packet finish\<rparr>))
      | P_eos_loop packet finish \<Rightarrow>
          (case eos_turn b e t f packet finish of
             (None, t') \<Rightarrow> Some (s\<lparr>th_tick := t', th_pc := P_done\<rparr>)
           | (Some evs, t') \<Rightarrow> Some (emit Eos evs (s\<lparr>th_tick := t'\<rparr>)))
      | P_done \<Rightarrow> None
      | P_fault err \<Rightarrow> None)"

text \<open>One piece of the heartbeat thread. \<open>eh\<close> gives the results of its sends.\<close>

definition heartbeat_step :: "build \<Rightarrow> env \<Rightarrow> threads \<Rightarrow> threads option" where
  "heartbeat_step b eh s =
     (let f = th_feed s; hb = df_heartbeat f in
      case th_hb_pc s of
        H_none \<Rightarrow> None
      | H_check \<Rightarrow> Some (s\<lparr>th_hb_pc := (if hb_running hb then H_load else H_exited)\<rparr>)
      | H_load \<Rightarrow> Some (s\<lparr>th_hb_pc := H_loaded (df_sent_sequence_number f)\<rparr>)
      | H_loaded seq \<Rightarrow>
          (case write_at_be b (hb_packet hb) sequence_number_offset seq of
             Inl err \<Rightarrow> Some (s\<lparr>th_pc := P_fault err\<rparr>)
           | Inr packet \<Rightarrow> Some (s\<lparr>th_feed := f\<lparr>df_heartbeat := hb\<lparr>hb_packet := packet\<rparr>\<rparr>, th_hb_pc := H_written\<rparr>))
      | H_written \<Rightarrow>
          (let r = send_result_at eh (th_hb_tick s) in
           Some (emit Heart (Send (hb_mcast_group hb) (hb_packet hb) r # (if r < 0 then [Logged_error] else []))
             (s\<lparr>th_hb_tick := Suc (th_hb_tick s), th_hb_pc := H_sleep\<rparr>)))
      | H_sleep \<Rightarrow> Some (emit Heart [Slept (hb_period hb)] (s\<lparr>th_hb_pc := H_check\<rparr>))
      | H_exited \<Rightarrow> None)"

definition faulted :: "threads \<Rightarrow> bool" where
  "faulted s \<longleftrightarrow> (\<exists>err. th_pc s = P_fault err)"

inductive tstep :: "build \<Rightarrow> env \<Rightarrow> env \<Rightarrow> threads \<Rightarrow> threads \<Rightarrow> bool" for b e eh where
  feed: "feed_step b e s = Some s' \<Longrightarrow> tstep b e eh s s'"
| heartbeat: "heartbeat_step b eh s = Some s' \<Longrightarrow> \<not> faulted s \<Longrightarrow> tstep b e eh s s'"

abbreviation feed_events :: "threads \<Rightarrow> out_event list" where
  "feed_events s \<equiv> map snd (filter (\<lambda>x. fst x \<noteq> Heart) (th_wire s))"

subsection \<open>The pieces are the operations\<close>

lemma downstream_send_packet_pieces:
  "downstream_send_packet b e t f =
     andThen (send_store b f) (\<lambda>(packet, f'). case send_transmit b e t f' packet of (evs, t') \<Rightarrow> Inr (f', evs, t'))"
  by (auto simp: downstream_send_packet_def send_store_def send_transmit_def andThen_assoc Let_def
      intro!: arg_cong [where f = "andThen _"])

lemma downstream_iteration_pieces:
  "downstream_iteration b e t f =
     andThen (loop_head b e t f) (\<lambda>(h, f', t').
       case h of
         Leave \<Rightarrow> Inr (Break, f', [], t')
       | Again \<Rightarrow> Inr (Continue, f', [], t')
       | Build ts \<Rightarrow>
           andThen (downstream_build_packet b f') (\<lambda>f1.
           andThen (downstream_pause b e t' f1 ts) (\<lambda>(f2, evs2, t2).
           andThen (downstream_send_packet b e t2 f2) (\<lambda>(f3, evs3, t3).
           Inr (Continue, f3, evs2 @ evs3, t3)))))"
  by (auto simp: downstream_iteration_def loop_head_def andThen_assoc split: option.split prod.split
      intro!: arg_cong [where f = "andThen _"] ext)

lemma downstream_end_of_session_pieces:
  "downstream_end_of_session fuel b e t f =
     (if debug_no_network b then Some (Inr ([], t))
      else case eos_begin b e t f of
        Inl err \<Rightarrow> Some (Inl err)
      | Inr (packet, finish) \<Rightarrow>
          map_option Inr (end_of_session_loop fuel b e (Suc t) (df_mcast_group f) packet finish (heartbeat_period (df_heartbeat f))))"
  by (simp add: downstream_end_of_session_def eos_begin_def)

lemma end_of_session_loop_turn:
  "end_of_session_loop (Suc fuel) b e t (df_mcast_group f) packet finish (heartbeat_period (df_heartbeat f)) =
     (case eos_turn b e t f packet finish of
        (None, t') \<Rightarrow> Some ([], t')
      | (Some evs, t') \<Rightarrow> map_option (\<lambda>(evs', t''). (evs @ evs', t''))
          (end_of_session_loop fuel b e t' (df_mcast_group f) packet finish (heartbeat_period (df_heartbeat f))))"
  by (simp add: eos_turn_def Let_def)

lemma heartbeat_send_pieces:
  assumes "th_hb_pc s = H_load" and "heartbeat_send b eh (th_hb_tick s) (df_heartbeat (th_feed s)) (df_sent_sequence_number (th_feed s)) =
      Inr (hb', evs, t')"
  obtains s1 s2 s3 where "heartbeat_step b eh s = Some s1" and "heartbeat_step b eh s1 = Some s2" and "heartbeat_step b eh s2 = Some s3"
    and "s3 = s\<lparr>th_feed := (th_feed s)\<lparr>df_heartbeat := hb'\<rparr>, th_hb_tick := t', th_hb_pc := H_sleep,
      th_wire := th_wire s @ map (Pair Heart) evs\<rparr>"
  using assms
  by (cases "write_at_be b (hb_packet (df_heartbeat (th_feed s))) sequence_number_offset (df_sent_sequence_number (th_feed s))")
    (auto simp: heartbeat_step_def heartbeat_send_def Let_def emit_def)

subsection \<open>The feed does not look at the heartbeat\<close>

text \<open>The heartbeat object is a member of the feed, but no piece of the replay reads or writes it.\<close>

definition map_res :: "('a \<Rightarrow> 'b) \<Rightarrow> 'a res \<Rightarrow> 'b res" where
  "map_res g r = andThen r (\<lambda>x. Inr (g x))"

lemma map_res_simps [simp]: "map_res g (Inl err) = Inl err" "map_res g (Inr x) = Inr (g x)"
  by (simp_all add: map_res_def)

lemma map_res_andThen: "map_res g (andThen m k) = andThen m (\<lambda>x. map_res g (k x))"
  by (simp add: map_res_def andThen_assoc)

lemma heartbeat_update_commute:
  "f\<lparr>df_heartbeat := h, df_file_pos := p\<rparr> = f\<lparr>df_file_pos := p, df_heartbeat := h\<rparr>"
  "f\<lparr>df_heartbeat := h, df_packet_builder := pb\<rparr> = f\<lparr>df_packet_builder := pb, df_heartbeat := h\<rparr>"
  "f\<lparr>df_heartbeat := h, df_retransmission_buffer := rb\<rparr> = f\<lparr>df_retransmission_buffer := rb, df_heartbeat := h\<rparr>"
  "f\<lparr>df_heartbeat := h, df_sequence_number := n\<rparr> = f\<lparr>df_sequence_number := n, df_heartbeat := h\<rparr>"
  "f\<lparr>df_heartbeat := h, df_sent_sequence_number := n\<rparr> = f\<lparr>df_sent_sequence_number := n, df_heartbeat := h\<rparr>"
  "f\<lparr>df_heartbeat := h, df_pacer := pc\<rparr> = f\<lparr>df_pacer := pc, df_heartbeat := h\<rparr>"
  by (cases f, simp)+

lemma downstream_build_loop_frame:
  "downstream_build_loop b (f\<lparr>df_heartbeat := h\<rparr>) = map_res (\<lambda>f'. f'\<lparr>df_heartbeat := h\<rparr>) (downstream_build_loop b f)"
proof (induction b f rule: downstream_build_loop.induct)
  case (1 b f)
  show ?case
  proof (cases "df_file_pos f < length (df_file f)")
    case True
    note IH = "1.IH" [OF True refl]
    show ?thesis
      by (subst (1 2) downstream_build_loop.simps)
        (use True in \<open>auto simp: map_res_andThen Let_def heartbeat_update_commute IH intro!: andThen_cong\<close>)
  next
    case False
    then show ?thesis by (subst (1 2) downstream_build_loop.simps) simp
  qed
qed

lemma downstream_build_packet_frame:
  "downstream_build_packet b (f\<lparr>df_heartbeat := h\<rparr>) = map_res (\<lambda>f'. f'\<lparr>df_heartbeat := h\<rparr>) (downstream_build_packet b f)"
  by (auto simp: downstream_build_packet_def map_res_andThen heartbeat_update_commute downstream_build_loop_frame
      intro!: andThen_cong)

lemma loop_head_frame:
  "loop_head b e t (f\<lparr>df_heartbeat := h\<rparr>) = map_res (\<lambda>(x, f', t'). (x, f'\<lparr>df_heartbeat := h\<rparr>, t')) (loop_head b e t f)"
  by (auto simp: loop_head_def map_res_andThen heartbeat_update_commute intro!: andThen_cong split: option.split)

lemma downstream_pause_frame:
  "downstream_pause b e t (f\<lparr>df_heartbeat := h\<rparr>) ts =
     map_res (\<lambda>(f', evs, t'). (f'\<lparr>df_heartbeat := h\<rparr>, evs, t')) (downstream_pause b e t f ts)"
  by (auto simp: downstream_pause_def map_res_andThen heartbeat_update_commute intro!: andThen_cong)

lemma send_store_frame:
  "send_store b (f\<lparr>df_heartbeat := h\<rparr>) = map_res (\<lambda>(packet, f'). (packet, f'\<lparr>df_heartbeat := h\<rparr>)) (send_store b f)"
  by (auto simp: send_store_def map_res_andThen heartbeat_update_commute intro!: andThen_cong)

lemma send_transmit_frame [simp]: "send_transmit b e t (f\<lparr>df_heartbeat := h\<rparr>) packet = send_transmit b e t f packet"
  by (simp add: send_transmit_def)

lemma eos_begin_frame [simp]: "eos_begin b e t (f\<lparr>df_heartbeat := h\<rparr>) = eos_begin b e t f"
  by (simp add: eos_begin_def)

lemma eos_begin_packet:
  assumes "pb_inv (df_packet_builder f)" and "eos_begin b e t f = Inr (packet, finish)"
  shows "packet = eos_packet f"
  using assms(2) unfolding eos_begin_def eos_header_written [OF assms(1)] by (auto simp: andThen_eq_Inr_iff)

lemma eos_turn_frame:
  "hb_period h = hb_period (df_heartbeat f) \<Longrightarrow> eos_turn b e t (f\<lparr>df_heartbeat := h\<rparr>) packet finish = eos_turn b e t f packet finish"
  by (simp add: eos_turn_def heartbeat_period_def)

subsection \<open>The feed's part of a run is a sequential run\<close>

inductive replay_run :: "build \<Rightarrow> env \<Rightarrow> nat \<Rightarrow> downstream_feed \<Rightarrow> downstream_feed \<Rightarrow> out_event list \<Rightarrow> nat \<Rightarrow> bool"
  for b e t f where
  begin_run: "replay_run b e t f f [] t"
| turn: "replay_run b e t f f1 evs1 t1 \<Longrightarrow> downstream_iteration b e t1 f1 = Inr (Continue, f2, evs2, t2) \<Longrightarrow>
    replay_run b e t f f2 (evs1 @ evs2) t2"

lemma replay_run_extends:
  assumes "replay_run b e t f f1 evs1 t1" and "downstream_replay fuel b e t1 f1 = Some r"
  shows "\<exists>fuel'. downstream_replay fuel' b e t f = Some (map_res (\<lambda>(f', evs', t'). (f', evs1 @ evs', t')) r)"
  using assms
proof (induction arbitrary: fuel r rule: replay_run.induct)
  case begin_run
  then show ?case by (cases r) auto
next
  case (turn f1 evs1 t1 f2 evs2 t2)
  have "downstream_replay (Suc fuel) b e t1 f1 = Some (map_res (\<lambda>(f', evs', t'). (f', evs2 @ evs', t')) r)"
    using turn.hyps(2) turn.prems by (simp add: map_res_def split_def)
  then show ?case using turn.IH by (cases r) fastforce+
qed

lemma replay_run_rest:
  assumes "replay_run b e t f f1 evs1 t1" and "downstream_replay fuel b e t f = Some r"
  shows "\<exists>fuel' r'. downstream_replay fuel' b e t1 f1 = Some r'"
  using assms
proof (induction rule: replay_run.induct)
  case begin_run
  then show ?case by blast
next
  case (turn f1 evs1 t1 f2 evs2 t2)
  then obtain fuel' r' where "downstream_replay fuel' b e t1 f1 = Some r'" by blast
  then show ?case using turn.hyps(2) by (cases fuel') auto
qed

text \<open>What is left of the turn of the loop a state of the feed thread is in.\<close>

function (sequential) finish_turn :: "build \<Rightarrow> env \<Rightarrow> feed_pc \<Rightarrow> nat \<Rightarrow> downstream_feed \<Rightarrow> (control \<times> downstream_feed \<times> out_event list \<times> nat) res" where
  "finish_turn b e (P_build ts) t f =
     andThen (downstream_build_packet b f) (\<lambda>f1. finish_turn b e (P_built ts) t f1)"
| "finish_turn b e (P_built ts) t f =
     andThen (downstream_pause b e t f ts) (\<lambda>(f2, evs2, t2).
     map_res (\<lambda>(c, f3, evs3, t3). (c, f3, evs2 @ evs3, t3)) (finish_turn b e P_paused t2 f2))"
| "finish_turn b e P_paused t f =
     andThen (send_store b f) (\<lambda>(packet, f'). finish_turn b e (P_stored packet) t f')"
| "finish_turn b e (P_stored packet) t f =
     (case send_transmit b e t f packet of (evs, t') \<Rightarrow> Inr (Continue, f, evs, t'))"
| "finish_turn b e pc t f = downstream_iteration b e t f"
  by pat_completeness auto
termination
  by (relation "measure (\<lambda>(b, e, pc, t, f). case pc of P_build ts \<Rightarrow> 3 | P_built ts \<Rightarrow> 2 | P_paused \<Rightarrow> 1 | _ \<Rightarrow> 0)") auto

declare finish_turn.simps [simp del]

lemma finish_turn_P_loop: "finish_turn b e P_loop t f = downstream_iteration b e t f"
  by (simp add: finish_turn.simps)

lemma finish_turn_loop:
  "finish_turn b e P_loop t f =
     andThen (loop_head b e t f) (\<lambda>(h, f', t').
       case h of
         Leave \<Rightarrow> Inr (Break, f', [], t')
       | Again \<Rightarrow> Inr (Continue, f', [], t')
       | Build ts \<Rightarrow> finish_turn b e (P_build ts) t' f')"
  unfolding finish_turn.simps
  by (subst downstream_iteration_pieces)
    (auto simp: downstream_send_packet_pieces andThen_assoc map_res_def intro!: andThen_cong split: head.split prod.split)

definition prepend :: "out_event list \<Rightarrow> (control \<times> downstream_feed \<times> out_event list \<times> nat) res \<Rightarrow>
    (control \<times> downstream_feed \<times> out_event list \<times> nat) res" where
  "prepend evs = map_res (\<lambda>(c, f, evs', t). (c, f, evs @ evs', t))"

lemma prepend_simps [simp]:
  "prepend evs (Inl err) = Inl err" "prepend evs (Inr (c, f, evs', t)) = Inr (c, f, evs @ evs', t)"
  "prepend [] r = r" "prepend evs (prepend evs' r) = prepend (evs @ evs') r"
  by (cases r; auto simp: prepend_def map_res_def)+

definition in_turn :: "build \<Rightarrow> env \<Rightarrow> nat \<Rightarrow> downstream_feed \<Rightarrow> feed_pc \<Rightarrow> downstream_feed \<Rightarrow> out_event list \<Rightarrow> nat \<Rightarrow> bool" where
  "in_turn b e t0 f0 pc f evs t \<longleftrightarrow>
     (\<exists>f1 t1 evs1 evs2. replay_run b e t0 f0 f1 evs1 t1 \<and> evs = evs1 @ evs2 \<and>
        downstream_iteration b e t1 f1 = prepend evs2 (finish_turn b e pc t f))"

lemma in_turn_begin: "in_turn b e t f P_loop f [] t"
  unfolding in_turn_def using replay_run.begin_run by (fastforce simp: finish_turn_P_loop)

lemma in_turn_move:
  assumes "in_turn b e t0 f0 pc f evs t" and "finish_turn b e pc t f = prepend evs' (finish_turn b e pc' t' f')"
  shows "in_turn b e t0 f0 pc' f' (evs @ evs') t'"
  using assms unfolding in_turn_def by (metis append_assoc prepend_simps(4))

lemma in_turn_continue:
  assumes "in_turn b e t0 f0 pc f evs t" and "finish_turn b e pc t f = Inr (Continue, f', evs', t')"
  shows "in_turn b e t0 f0 P_loop f' (evs @ evs') t'"
proof -
  obtain f1 t1 evs1 evs2 where run: "replay_run b e t0 f0 f1 evs1 t1" "evs = evs1 @ evs2"
    "downstream_iteration b e t1 f1 = Inr (Continue, f', evs2 @ evs', t')"
    using assms by (auto simp: in_turn_def)
  have "replay_run b e t0 f0 f' (evs @ evs') t'" using replay_run.turn [OF run(1,3)] run(2) by simp
  then show ?thesis unfolding in_turn_def finish_turn_P_loop by (metis append_Nil2 prepend_simps(3))
qed

lemma in_turn_break:
  assumes "in_turn b e t0 f0 pc f evs t" and "finish_turn b e pc t f = Inr (Break, f', [], t')"
  shows "\<exists>fuel. downstream_replay fuel b e t0 f0 = Some (Inr (f', evs, t'))"
proof -
  obtain f1 t1 evs1 evs2 where run: "replay_run b e t0 f0 f1 evs1 t1" "evs = evs1 @ evs2"
    "downstream_iteration b e t1 f1 = Inr (Break, f', evs2, t')"
    using assms by (auto simp: in_turn_def)
  have "downstream_replay 1 b e t1 f1 = Some (Inr (f', evs2, t'))" using run(3) by simp
  then show ?thesis using replay_run_extends [OF run(1)] run(2) by fastforce
qed

lemma in_turn_fault:
  assumes "in_turn b e t0 (f0\<lparr>df_heartbeat := heartbeat_start (df_heartbeat f0)\<rparr>) pc f evs t" and "finish_turn b e pc t f = Inl err"
  shows "\<exists>fuel. downstream_start fuel b e t0 f0 = Some (Inl err)"
proof -
  let ?f = "f0\<lparr>df_heartbeat := heartbeat_start (df_heartbeat f0)\<rparr>"
  obtain f1 t1 evs1 where run: "replay_run b e t0 ?f f1 evs1 t1" "downstream_iteration b e t1 f1 = Inl err"
    using assms by (auto simp: in_turn_def)
  have "downstream_replay 1 b e t1 f1 = Some (Inl err)" using run(2) by simp
  then obtain fuel where "downstream_replay fuel b e t0 ?f = Some (Inl err)"
    using replay_run_extends [OF run(1)] by fastforce
  then have "downstream_start fuel b e t0 f0 = Some (Inl err)" by (simp add: downstream_start_def)
  then show ?thesis by blast
qed

text \<open>\<open>refines\<close>: the feed as its thread sees it (\<open>v\<close>, with the heartbeat object it started with) and the events it caused
  are those of a sequential run of \<open>downstream_start\<close> that has come to the same point.\<close>

definition eos_so_far ::
  "build \<Rightarrow> env \<Rightarrow> nat \<Rightarrow> downstream_feed \<Rightarrow> bytes \<Rightarrow> int \<Rightarrow> out_event list \<Rightarrow> nat \<Rightarrow> bool" where
  "eos_so_far b e t1 f packet finish evs t \<longleftrightarrow>
     (\<forall>fuel evs' t'. end_of_session_loop fuel b e t (df_mcast_group f) packet finish (heartbeat_period (df_heartbeat f)) = Some (evs', t') \<longrightarrow>
        (\<exists>fuel'. end_of_session_loop fuel' b e t1 (df_mcast_group f) packet finish (heartbeat_period (df_heartbeat f)) = Some (evs @ evs', t'))) \<and>
     (\<forall>fuel r. end_of_session_loop fuel b e t1 (df_mcast_group f) packet finish (heartbeat_period (df_heartbeat f)) = Some r \<longrightarrow>
        (\<exists>fuel' r'. end_of_session_loop fuel' b e t (df_mcast_group f) packet finish (heartbeat_period (df_heartbeat f)) = Some r'))"

definition refines :: "build \<Rightarrow> env \<Rightarrow> nat \<Rightarrow> downstream_feed \<Rightarrow> threads \<Rightarrow> bool" where
  "refines b e t0 f0 s \<longleftrightarrow>
     (let h = heartbeat_start (df_heartbeat f0); v = (th_feed s)\<lparr>df_heartbeat := h\<rparr>; f = f0\<lparr>df_heartbeat := h\<rparr> in
      case th_pc s of
        P_begin \<Rightarrow> th_feed s = f0 \<and> th_tick s = t0 \<and> feed_events s = []
      | P_leave \<Rightarrow> \<exists>fuel. downstream_replay fuel b e t0 f = Some (Inr (v, feed_events s, th_tick s))
      | P_joining \<Rightarrow> \<exists>fuel. downstream_replay fuel b e t0 f = Some (Inr (v, feed_events s, th_tick s))
      | P_eos \<Rightarrow> \<exists>fuel. downstream_replay fuel b e t0 f = Some (Inr (v, feed_events s, th_tick s))
      | P_eos_loop packet finish \<Rightarrow>
          \<exists>fuel evs1 evs2 t1. downstream_replay fuel b e t0 f = Some (Inr (v, evs1, t1)) \<and> \<not> debug_no_network b \<and>
            eos_begin b e t1 v = Inr (packet, finish) \<and> feed_events s = evs1 @ evs2 \<and>
            eos_so_far b e (Suc t1) v packet finish evs2 (th_tick s)
      | P_done \<Rightarrow> \<exists>fuel. downstream_start fuel b e t0 f0 =
          Some (Inr (v\<lparr>df_heartbeat := heartbeat_stop h\<rparr>, feed_events s, th_tick s))
      | P_fault err \<Rightarrow> \<exists>fuel. downstream_start fuel b e t0 f0 = Some (Inl err)
      | pc \<Rightarrow> in_turn b e t0 f pc v (feed_events s) (th_tick s))"

lemma emit_fields [simp]:
  "th_feed (emit src evs s) = th_feed s" "th_pc (emit src evs s) = th_pc s" "th_tick (emit src evs s) = th_tick s"
  "th_hb_pc (emit src evs s) = th_hb_pc s" "th_stored (emit src evs s) = th_stored s"
  "th_wire (emit src evs s) = th_wire s @ map (Pair src) evs"
  by (simp_all add: emit_def)

lemma filter_origin [simp]:
  "src \<noteq> Heart \<Longrightarrow> filter (\<lambda>x. fst x \<noteq> Heart) (map (Pair src) evs) = map (Pair src) evs"
  "filter (\<lambda>x. fst x \<noteq> Heart) (map (Pair Heart) evs) = []"
  by (induction evs) auto

lemma refines_loop:
  assumes "refines b e t0 f0 s" and "th_pc s = P_loop" and "feed_step b e s = Some s'"
  shows "refines b e t0 f0 s'"
proof -
  define h where "h = heartbeat_start (df_heartbeat f0)"
  have t: "in_turn b e t0 (f0\<lparr>df_heartbeat := h\<rparr>) P_loop ((th_feed s)\<lparr>df_heartbeat := h\<rparr>) (feed_events s) (th_tick s)"
    using assms(1,2) by (simp add: refines_def Let_def h_def)
  show ?thesis
  proof (cases "loop_head b e (th_tick s) (th_feed s)")
    case (Inl err)
    then have "finish_turn b e P_loop (th_tick s) ((th_feed s)\<lparr>df_heartbeat := h\<rparr>) = Inl err"
      by (simp add: finish_turn_loop loop_head_frame)
    then show ?thesis
      using in_turn_fault [OF t [unfolded h_def]] assms(2,3) Inl
      by (auto simp: refines_def feed_step_def Let_def h_def)
  next
    case (Inr r)
    obtain x f' t' where r: "r = (x, f', t')" by (cases r)
    have s': "s' = s\<lparr>th_feed := f', th_tick := t', th_pc := (case x of Leave \<Rightarrow> P_leave | Again \<Rightarrow> P_loop | Build ts \<Rightarrow> P_build ts)\<rparr>"
      using assms(2,3) Inr r by (simp add: feed_step_def)
    have fin: "finish_turn b e P_loop (th_tick s) ((th_feed s)\<lparr>df_heartbeat := h\<rparr>) =
      (case x of Leave \<Rightarrow> Inr (Break, f'\<lparr>df_heartbeat := h\<rparr>, [], t') | Again \<Rightarrow> Inr (Continue, f'\<lparr>df_heartbeat := h\<rparr>, [], t')
       | Build ts \<Rightarrow> finish_turn b e (P_build ts) t' (f'\<lparr>df_heartbeat := h\<rparr>))"
      using Inr r by (simp only: finish_turn_loop) (simp add: loop_head_frame)
    show ?thesis
    proof (cases x)
      case Leave
      then show ?thesis using in_turn_break [OF t] fin s' by (simp add: refines_def Let_def h_def)
    next
      case Again
      then show ?thesis using in_turn_continue [OF t] fin s' by (simp add: refines_def Let_def h_def)
    next
      case (Build ts)
      then show ?thesis using in_turn_move [OF t, of "[]"] fin s' by (simp add: refines_def Let_def h_def)
    qed
  qed
qed

lemma prepend_eq: "map_res (\<lambda>(c, f, evs', t). (c, f, evs @ evs', t)) r = prepend evs r"
  by (simp add: prepend_def)

lemma downstream_pause_silent: "downstream_pause b e t f ts = Inr (f', evs, t') \<Longrightarrow> datagrams evs = []"
  by (auto simp: downstream_pause_def andThen_eq_Inr_iff split: if_splits)

lemma packet_step_cases:
  assumes "feed_step b e s = Some s'" and "th_pc s = P_paused \<or> (\<exists>ts. th_pc s = P_build ts \<or> th_pc s = P_built ts)"
  obtains err where "th_pc s' = P_fault err"
      and "\<And>h. finish_turn b e (th_pc s) (th_tick s) ((th_feed s)\<lparr>df_heartbeat := h\<rparr>) = Inl err"
  | evs where "th_wire s' = th_wire s @ map (Pair Data) evs" and "datagrams evs = []" and "\<exists>ts. th_pc s' = P_built ts \<or> th_pc s' = P_paused \<or> (\<exists>p. th_pc s' = P_stored p)"
      and "\<And>h. finish_turn b e (th_pc s) (th_tick s) ((th_feed s)\<lparr>df_heartbeat := h\<rparr>) =
        prepend evs (finish_turn b e (th_pc s') (th_tick s') ((th_feed s')\<lparr>df_heartbeat := h\<rparr>))"
proof -
  consider "th_pc s = P_paused" | ts where "th_pc s = P_build ts" | ts where "th_pc s = P_built ts" using assms(2) by blast
  then show ?thesis
  proof cases
    case 1
    with assms(1) that(1) that(2) [of "[]"] show ?thesis
      by (cases "send_store b (th_feed s)") (auto simp: feed_step_def finish_turn.simps(3) send_store_frame)
  next
    case 2
    with assms(1) that(1) that(2) [of "[]"] show ?thesis
      by (cases "downstream_build_packet b (th_feed s)") (auto simp: feed_step_def finish_turn.simps(1) downstream_build_packet_frame)
  next
    case 3
    with assms(1) that(1) that(2) show ?thesis
      by (cases "downstream_pause b e (th_tick s) (th_feed s) ts")
        (auto simp: feed_step_def finish_turn.simps(2) downstream_pause_frame prepend_eq downstream_pause_silent)
  qed
qed

lemma refines_packet:
  assumes "refines b e t0 f0 s" and "th_pc s = P_paused \<or> (\<exists>ts. th_pc s = P_build ts \<or> th_pc s = P_built ts)"
    and "feed_step b e s = Some s'"
  shows "refines b e t0 f0 s'"
proof -
  define h where "h = heartbeat_start (df_heartbeat f0)"
  have t: "in_turn b e t0 (f0\<lparr>df_heartbeat := h\<rparr>) (th_pc s) ((th_feed s)\<lparr>df_heartbeat := h\<rparr>) (feed_events s) (th_tick s)"
    using assms(1,2) by (auto simp: refines_def Let_def h_def)
  show ?thesis
  proof (rule packet_step_cases [OF assms(3,2)])
    fix err assume "th_pc s' = P_fault err"
      and "\<And>h. finish_turn b e (th_pc s) (th_tick s) ((th_feed s)\<lparr>df_heartbeat := h\<rparr>) = Inl err"
    then show ?thesis using in_turn_fault [OF t [unfolded h_def]] by (simp add: refines_def Let_def h_def)
  next
    fix evs assume evs: "th_wire s' = th_wire s @ map (Pair Data) evs"
      and pc: "\<exists>ts. th_pc s' = P_built ts \<or> th_pc s' = P_paused \<or> (\<exists>p. th_pc s' = P_stored p)"
      and "\<And>h. finish_turn b e (th_pc s) (th_tick s) ((th_feed s)\<lparr>df_heartbeat := h\<rparr>) =
        prepend evs (finish_turn b e (th_pc s') (th_tick s') ((th_feed s')\<lparr>df_heartbeat := h\<rparr>))"
    then show ?thesis using in_turn_move [OF t] by (auto simp: refines_def Let_def h_def comp_def)
  qed
qed

lemma refines_transmit:
  assumes "refines b e t0 f0 s" and "th_pc s = P_stored packet" and "feed_step b e s = Some s'"
  shows "refines b e t0 f0 s'"
proof -
  define h where "h = heartbeat_start (df_heartbeat f0)"
  obtain evs t' where tr: "send_transmit b e (th_tick s) (th_feed s) packet = (evs, t')" by fastforce
  have t: "in_turn b e t0 (f0\<lparr>df_heartbeat := h\<rparr>) (P_stored packet) ((th_feed s)\<lparr>df_heartbeat := h\<rparr>) (feed_events s) (th_tick s)"
    using assms(1,2) by (simp add: refines_def Let_def h_def)
  have "in_turn b e t0 (f0\<lparr>df_heartbeat := h\<rparr>) P_loop ((th_feed s)\<lparr>df_heartbeat := h\<rparr>) (feed_events s @ evs) t'"
    by (rule in_turn_continue [OF t]) (simp add: finish_turn.simps tr)
  then show ?thesis using assms(2,3) tr by (auto simp: feed_step_def refines_def Let_def h_def comp_def)
qed

lemma refines_leave:
  assumes "refines b e t0 f0 s" and "th_pc s \<in> {P_begin, P_leave, P_joining}" and "feed_step b e s = Some s'"
  shows "refines b e t0 f0 s'"
proof -
  consider "th_pc s = P_begin" | "th_pc s = P_leave" | "th_pc s = P_joining" using assms(2) by blast
  then show ?thesis
  proof cases
    case 1
    then show ?thesis using assms(1,3) in_turn_begin by (auto simp: refines_def Let_def feed_step_def)
  qed (use assms(1,3) in \<open>auto simp: refines_def Let_def feed_step_def split: if_splits\<close>)
qed

lemma downstream_start_after:
  assumes "downstream_replay fuel b e t0 (f0\<lparr>df_heartbeat := heartbeat_start (df_heartbeat f0)\<rparr>) = Some (Inr (v, evs, t))"
    and "df_heartbeat v = h"
    and "downstream_end_of_session fuel' b e t (v\<lparr>df_heartbeat := heartbeat_stop h\<rparr>) = Some r"
  shows "\<exists>fuel. downstream_start fuel b e t0 f0 =
    Some (map_res (\<lambda>(evs', t'). (v\<lparr>df_heartbeat := heartbeat_stop h\<rparr>, evs @ evs', t')) r)"
proof -
  let ?n = "max fuel fuel'"
  have "downstream_replay ?n b e t0 (f0\<lparr>df_heartbeat := heartbeat_start (df_heartbeat f0)\<rparr>) = Some (Inr (v, evs, t))"
    using downstream_replay_mono [OF assms(1)] by simp
  moreover have "downstream_end_of_session ?n b e t (v\<lparr>df_heartbeat := heartbeat_stop h\<rparr>) = Some r"
    using assms(3) end_of_session_loop_mono [of fuel' _ _ _ _ _ _ _ _ ?n]
    by (auto simp: downstream_end_of_session_pieces split: if_splits sum.splits)
  ultimately have "downstream_start ?n b e t0 f0 =
    Some (map_res (\<lambda>(evs', t'). (v\<lparr>df_heartbeat := heartbeat_stop h\<rparr>, evs @ evs', t')) r)"
    using assms(2) by (simp add: downstream_start_def Let_def map_res_def split_def)
  then show ?thesis by blast
qed

lemma heartbeat_period_simps [simp]:
  "heartbeat_period (heartbeat_stop h) = heartbeat_period h" "heartbeat_period (heartbeat_start h) = heartbeat_period h"
  "hb_period (heartbeat_start h) = hb_period h"
  by (simp_all add: heartbeat_period_def heartbeat_stop_def heartbeat_start_def)

lemma refines_eos:
  assumes "refines b e t0 f0 s" and "th_pc s = P_eos" and "feed_step b e s = Some s'"
  shows "refines b e t0 f0 s'"
proof -
  define h where "h = heartbeat_start (df_heartbeat f0)"
  define v where "v = (th_feed s)\<lparr>df_heartbeat := h\<rparr>"
  obtain fuel where run: "downstream_replay fuel b e t0 (f0\<lparr>df_heartbeat := h\<rparr>) = Some (Inr (v, feed_events s, th_tick s))"
    using assms(1,2) by (auto simp: refines_def Let_def h_def v_def)
  have v: "df_heartbeat v = h" by (simp add: v_def)
  note start = downstream_start_after [OF run [unfolded h_def] v [unfolded h_def], folded h_def]
  show ?thesis
  proof (cases "debug_no_network b")
    case True
    then have "\<exists>fuel. downstream_start fuel b e t0 f0 = Some (Inr (v\<lparr>df_heartbeat := heartbeat_stop h\<rparr>, feed_events s, th_tick s))"
      using start [of 0 "Inr ([], th_tick s)"] by (simp add: downstream_end_of_session_pieces)
    then show ?thesis using True assms(2,3) by (auto simp: refines_def Let_def feed_step_def h_def v_def)
  next
    case net: False
    show ?thesis
    proof (cases "eos_begin b e (th_tick s) (th_feed s)")
      case (Inl err)
      then have "\<exists>fuel. downstream_start fuel b e t0 f0 = Some (Inl err)"
        using net start [of 0 "Inl err"] by (simp add: downstream_end_of_session_pieces v_def)
      then show ?thesis using net Inl assms(2,3) by (auto simp: refines_def Let_def feed_step_def)
    next
      case (Inr r)
      obtain packet finish where r: "r = (packet, finish)" by (cases r)
      have s': "s' = s\<lparr>th_tick := Suc (th_tick s), th_pc := P_eos_loop packet finish\<rparr>"
        using net Inr r assms(2,3) by (simp add: feed_step_def)
      have "eos_so_far b e (Suc (th_tick s)) v packet finish [] (Suc (th_tick s))" by (auto simp: eos_so_far_def)
      moreover have "eos_begin b e (th_tick s) v = Inr (packet, finish)" using Inr r by (simp add: v_def)
      ultimately have "\<exists>fuel evs1 evs2 t1. downstream_replay fuel b e t0 (f0\<lparr>df_heartbeat := h\<rparr>) = Some (Inr (v, evs1, t1)) \<and>
          \<not> debug_no_network b \<and> eos_begin b e t1 v = Inr (packet, finish) \<and> feed_events s' = evs1 @ evs2 \<and>
          eos_so_far b e (Suc t1) v packet finish evs2 (th_tick s')"
        using run net unfolding s' by (intro exI conjI) (assumption | simp)+
      then show ?thesis using s' by (simp add: refines_def Let_def h_def v_def)
    qed
  qed
qed

lemma eos_so_far_turn:
  assumes "eos_so_far b e t1 f packet finish evs t" and "eos_turn b e t f packet finish = (Some evs', t')"
  shows "eos_so_far b e t1 f packet finish (evs @ evs') t'"
  unfolding eos_so_far_def
proof (intro conjI allI impI)
  let ?loop = "\<lambda>fuel u. end_of_session_loop fuel b e u (df_mcast_group f) packet finish (heartbeat_period (df_heartbeat f))"
  fix fuel
  {
    fix evs'' t'' assume "?loop fuel t' = Some (evs'', t'')"
    then have "?loop (Suc fuel) t = Some (evs' @ evs'', t'')"
      using assms(2) by (simp only: end_of_session_loop_turn) simp
    then show "\<exists>fuel'. ?loop fuel' t1 = Some ((evs @ evs') @ evs'', t'')"
      using assms(1) unfolding eos_so_far_def append_assoc by blast
  next
    fix r assume "?loop fuel t1 = Some r"
    then obtain k r' where k: "?loop k t = Some r'" using assms(1) unfolding eos_so_far_def by blast
    then obtain k' where "k = Suc k'" by (cases k) auto
    with k assms(2) show "\<exists>fuel' r'. ?loop fuel' t' = Some r'" by (simp only: end_of_session_loop_turn) auto
  }
qed

lemma refines_eos_loop:
  assumes "refines b e t0 f0 s" and "th_pc s = P_eos_loop packet finish" and "feed_step b e s = Some s'"
    and "hb_period (df_heartbeat (th_feed s)) = hb_period (df_heartbeat f0)"
  shows "refines b e t0 f0 s'"
proof -
  define h where "h = heartbeat_start (df_heartbeat f0)"
  define v where "v = (th_feed s)\<lparr>df_heartbeat := h\<rparr>"
  obtain fuel evs1 evs2 t1 where run: "downstream_replay fuel b e t0 (f0\<lparr>df_heartbeat := h\<rparr>) = Some (Inr (v, evs1, t1))"
    "\<not> debug_no_network b" "eos_begin b e t1 v = Inr (packet, finish)" "feed_events s = evs1 @ evs2"
    "eos_so_far b e (Suc t1) v packet finish evs2 (th_tick s)"
    using assms(1,2) by (auto simp: refines_def Let_def h_def v_def)
  have v: "df_heartbeat v = h" by (simp add: v_def)
  have turn: "eos_turn b e (th_tick s) v packet finish = eos_turn b e (th_tick s) (th_feed s) packet finish"
    unfolding v_def by (rule eos_turn_frame) (simp add: h_def assms(4))
  obtain r t' where et: "eos_turn b e (th_tick s) v packet finish = (r, t')" by fastforce
  show ?thesis
  proof (cases r)
    case None
    then have "end_of_session_loop 1 b e (th_tick s) (df_mcast_group v) packet finish (heartbeat_period (df_heartbeat v)) = Some ([], t')"
      using et end_of_session_loop_turn [of 0 b e "th_tick s" v] by simp
    then obtain fuel' where "end_of_session_loop fuel' b e (Suc t1) (df_mcast_group v) packet finish (heartbeat_period (df_heartbeat v)) = Some (evs2, t')"
      using run(5) unfolding eos_so_far_def by (metis append_Nil2)
    then have "downstream_end_of_session fuel' b e t1 (v\<lparr>df_heartbeat := heartbeat_stop h\<rparr>) = Some (Inr (evs2, t'))"
      using run(2,3) v by (simp add: downstream_end_of_session_pieces)
    then have "\<exists>fuel. downstream_start fuel b e t0 f0 = Some (Inr (v\<lparr>df_heartbeat := heartbeat_stop h\<rparr>, feed_events s, t'))"
      using downstream_start_after [OF run(1) [unfolded h_def] v [unfolded h_def], folded h_def] run(4) by fastforce
    moreover have "s' = s\<lparr>th_tick := t', th_pc := P_done\<rparr>"
      using None et [unfolded turn] assms(2,3) by (simp add: feed_step_def)
    ultimately show ?thesis by (simp add: refines_def Let_def h_def v_def)
  next
    case (Some evs)
    then have "eos_so_far b e (Suc t1) v packet finish (evs2 @ evs) t'" using eos_so_far_turn [OF run(5)] et by simp
    moreover have s': "s' = emit Eos evs (s\<lparr>th_tick := t'\<rparr>)"
      using Some et [unfolded turn] assms(2,3) by (simp add: feed_step_def)
    moreover have "feed_events s' = evs1 @ evs2 @ evs" using run(4) by (simp add: s' comp_def)
    ultimately show ?thesis using run(1-3) assms(2) by (auto simp: refines_def Let_def h_def v_def)
  qed
qed

lemma refines_feed:
  assumes "refines b e t0 f0 s" and "feed_step b e s = Some s'"
    and "hb_period (df_heartbeat (th_feed s)) = hb_period (df_heartbeat f0)"
  shows "refines b e t0 f0 s'"
proof (cases "th_pc s")
  case P_begin
  then show ?thesis using refines_leave assms by blast
next
  case P_loop
  then show ?thesis using refines_loop assms by blast
next
  case (P_build ts)
  then show ?thesis using refines_packet assms by blast
next
  case (P_built ts)
  then show ?thesis using refines_packet assms by blast
next
  case P_paused
  then show ?thesis using refines_packet assms by blast
next
  case (P_stored packet)
  then show ?thesis using refines_transmit assms by blast
next
  case P_leave
  then show ?thesis using refines_leave assms by blast
next
  case P_joining
  then show ?thesis using refines_leave assms by blast
next
  case P_eos
  then show ?thesis using refines_eos assms by blast
next
  case (P_eos_loop packet finish)
  then show ?thesis using refines_eos_loop assms by blast
qed (use assms(2) in \<open>simp_all add: feed_step_def\<close>)

subsection \<open>The heartbeat's side\<close>

definition hb_side :: "downstream_feed \<Rightarrow> threads \<Rightarrow> bool" where
  "hb_side f0 s \<longleftrightarrow>
     hb_inv (session (df_packet_builder f0)) (df_heartbeat (th_feed s)) \<and>
     hb_period (df_heartbeat (th_feed s)) = hb_period (df_heartbeat f0) \<and>
     hb_mcast_group (df_heartbeat (th_feed s)) = hb_mcast_group (df_heartbeat f0)"

text \<open>Where the threads can be at the same time, and what the wire looks like: the end-of-session packets are last.\<close>

definition eos_last :: "(origin \<times> out_event) list \<Rightarrow> bool" where
  "eos_last w \<longleftrightarrow> (\<exists>w1 w2. w = w1 @ w2 \<and> Eos \<notin> fst ` set w1 \<and> fst ` set w2 \<subseteq> {Eos})"

fun after_join :: "feed_pc \<Rightarrow> bool" where
  "after_join P_eos = True"
| "after_join (P_eos_loop packet finish) = True"
| "after_join P_done = True"
| "after_join pc = False"

definition in_step :: "threads \<Rightarrow> bool" where
  "in_step s \<longleftrightarrow>
     (th_pc s = P_begin \<longleftrightarrow> th_hb_pc s = H_none) \<and>
     (after_join (th_pc s) \<longrightarrow> th_hb_pc s = H_exited) \<and>
     (th_pc s = P_joining \<or> th_hb_pc s = H_exited \<longrightarrow> \<not> hb_running (df_heartbeat (th_feed s))) \<and>
     (if after_join (th_pc s) \<or> faulted s then eos_last (th_wire s) else Eos \<notin> fst ` set (th_wire s))"

lemma eos_last_no_eos: "Eos \<notin> fst ` set w \<Longrightarrow> eos_last w"
  unfolding eos_last_def by (intro exI [of _ w] exI [of _ "[]"]) simp

lemma eos_last_eos: "eos_last w \<Longrightarrow> eos_last (w @ map (Pair Eos) evs)"
proof -
  assume "eos_last w"
  then obtain w1 w2 where "w = w1 @ w2" "Eos \<notin> fst ` set w1" "fst ` set w2 \<subseteq> {Eos}" by (auto simp: eos_last_def)
  then show ?thesis unfolding eos_last_def by (intro exI [of _ w1] exI [of _ "w2 @ map (Pair Eos) evs"]) auto
qed

lemma heartbeat_update_self: "f' = f'\<lparr>df_heartbeat := h\<rparr> \<Longrightarrow> df_heartbeat f' = h"
  by (drule arg_cong [where f = df_heartbeat]) simp

lemma piece_keeps_heartbeat [keeps]:
  "loop_head b e t f = Inr (x, f', t') \<Longrightarrow> df_heartbeat f' = df_heartbeat f"
  "downstream_build_packet b f = Inr f' \<Longrightarrow> df_heartbeat f' = df_heartbeat f"
  "downstream_pause b e t f ts = Inr (f', evs, t') \<Longrightarrow> df_heartbeat f' = df_heartbeat f"
  "send_store b f = Inr (packet, f') \<Longrightarrow> df_heartbeat f' = df_heartbeat f"
  using loop_head_frame [where h = "df_heartbeat f" and f = f and b = b and e = e and t = t]
    downstream_build_packet_frame [where h = "df_heartbeat f" and f = f and b = b]
    downstream_pause_frame [where h = "df_heartbeat f" and f = f and b = b and e = e and t = t and ts = ts]
    send_store_frame [where h = "df_heartbeat f" and f = f and b = b]
  by (auto intro!: heartbeat_update_self)

lemma hb_side_feed:
  assumes "hb_side f0 s" and "feed_step b e s = Some s'"
  shows "hb_side f0 s'"
proof -
  have "\<exists>r. df_heartbeat (th_feed s') = (df_heartbeat (th_feed s))\<lparr>hb_running := r\<rparr>"
    using assms(2) unfolding feed_step_def Let_def
    by (cases "th_pc s")
      (auto simp: heartbeat_start_def heartbeat_stop_def dest!: keeps split: sum.splits prod.splits if_splits option.splits
        intro: exI [of _ "hb_running (df_heartbeat (th_feed s))"])
  then show ?thesis using assms(1) by (auto simp: hb_side_def)
qed

lemma heartbeat_step_effect:
  assumes "hb_side f0 s" and "heartbeat_step b eh s = Some s'"
  shows "hb_side f0 s'" and "th_pc s' = th_pc s" and "th_tick s' = th_tick s" and "feed_events s' = feed_events s"
    and "th_stored s' = th_stored s" and "th_hb_pc s \<noteq> H_none" and "th_hb_pc s \<noteq> H_exited" and "th_hb_pc s' \<noteq> H_none"
    and "th_feed s' = (th_feed s)\<lparr>df_heartbeat := df_heartbeat (th_feed s')\<rparr>"
    and "hb_running (df_heartbeat (th_feed s')) = hb_running (df_heartbeat (th_feed s))"
    and "\<exists>evs. th_wire s' = th_wire s @ map (Pair Heart) evs"
    and "th_hb_pc s' = H_exited \<Longrightarrow> \<not> hb_running (df_heartbeat (th_feed s))"
proof -
  have inv: "hb_inv (session (df_packet_builder f0)) (df_heartbeat (th_feed s))" using assms(1) by (simp add: hb_side_def)
  note packet = heartbeat_write [OF inv]
  note step = assms(2) [unfolded heartbeat_step_def Let_def]
  show "hb_side f0 s'" "th_pc s' = th_pc s" "th_tick s' = th_tick s" "feed_events s' = feed_events s"
    "th_stored s' = th_stored s" "th_hb_pc s \<noteq> H_none" "th_hb_pc s \<noteq> H_exited" "th_hb_pc s' \<noteq> H_none"
    "th_feed s' = (th_feed s)\<lparr>df_heartbeat := df_heartbeat (th_feed s')\<rparr>"
    "hb_running (df_heartbeat (th_feed s')) = hb_running (df_heartbeat (th_feed s))"
    "th_hb_pc s' = H_exited \<Longrightarrow> \<not> hb_running (df_heartbeat (th_feed s))"
    using step assms(1) packet by (cases "th_hb_pc s"; auto simp: hb_side_def split: if_splits)+
  show "\<exists>evs. th_wire s' = th_wire s @ map (Pair Heart) evs"
  proof (cases "th_hb_pc s")
    case H_written
    then have "th_wire s' = th_wire s @ map (Pair Heart) (Send (hb_mcast_group (df_heartbeat (th_feed s))) (hb_packet (df_heartbeat (th_feed s)))
        (send_result_at eh (th_hb_tick s)) # (if send_result_at eh (th_hb_tick s) < 0 then [Logged_error] else []))"
      using step by auto
    then show ?thesis by blast
  qed (use step packet in \<open>auto intro: exI [of _ "[]"] exI [of _ "[x]" for x]\<close>)
qed

lemma refines_heartbeat:
  assumes "refines b e t0 f0 s" and "hb_side f0 s" and "heartbeat_step b eh s = Some s'" and "th_hb_pc s \<noteq> H_none \<Longrightarrow> th_pc s \<noteq> P_begin"
  shows "refines b e t0 f0 s'"
proof -
  note eff = heartbeat_step_effect [OF assms(2,3)]
  have "(th_feed s')\<lparr>df_heartbeat := h\<rparr> = (th_feed s)\<lparr>df_heartbeat := h\<rparr>" for h by (subst eff(9)) simp
  then show ?thesis using assms(1,4) eff(2-4,6) by (cases "th_pc s") (simp_all add: refines_def Let_def)
qed

lemma in_step_heartbeat:
  assumes "in_step s" and "hb_side f0 s" and "heartbeat_step b eh s = Some s'" and "\<not> faulted s"
  shows "in_step s'"
proof -
  note eff = heartbeat_step_effect [OF assms(2,3)]
  obtain evs where "th_wire s' = th_wire s @ map (Pair Heart) evs" using eff(11) by blast
  moreover have "\<not> after_join (th_pc s)" using assms(1) eff(7) by (auto simp: in_step_def)
  ultimately show ?thesis
    using assms(1,4) eff(2,6-8,10,12) by (auto simp: in_step_def faulted_def image_def)
qed

lemma in_step_feed:
  assumes "in_step s" and "feed_step b e s = Some s'"
  shows "in_step s'"
proof (cases "th_pc s")
  case (P_eos_loop packet finish)
  then show ?thesis
    using assms by (auto simp: in_step_def feed_step_def Let_def faulted_def eos_last_eos split: option.splits prod.splits)
next
  case P_eos
  then show ?thesis
    using assms by (auto simp: in_step_def feed_step_def Let_def faulted_def split: sum.splits prod.splits if_splits)
qed (use assms in \<open>auto simp: in_step_def feed_step_def Let_def faulted_def heartbeat_start_def heartbeat_stop_def eos_last_no_eos
      dest: keeps split: sum.splits prod.splits head.splits if_splits\<close>)

definition thread_inv :: "build \<Rightarrow> env \<Rightarrow> nat \<Rightarrow> downstream_feed \<Rightarrow> threads \<Rightarrow> bool" where
  "thread_inv b e t0 f0 s \<longleftrightarrow>
     hb_inv (session (df_packet_builder f0)) (df_heartbeat f0) \<longrightarrow> refines b e t0 f0 s \<and> hb_side f0 s \<and> in_step s"

lemma threads_init_fields:
  assumes "threads_init f0 t0 s"
  shows "th_feed s = f0" and "th_pc s = P_begin" and "th_tick s = t0" and "th_hb_pc s = H_none" and "th_wire s = []"
    and "th_stored s = [df_sent_sequence_number f0]"
  using assms unfolding threads_init_def by (metis threads.select_convs)+

lemma thread_inv_init: "threads_init f0 t0 s \<Longrightarrow> thread_inv b e t0 f0 s"
  by (simp add: threads_init_fields thread_inv_def refines_def hb_side_def in_step_def faulted_def)

lemma thread_inv_step:
  assumes "thread_inv b e t0 f0 s" and "tstep b e eh s s'"
  shows "thread_inv b e t0 f0 s'"
  unfolding thread_inv_def
proof
  assume "hb_inv (session (df_packet_builder f0)) (df_heartbeat f0)"
  then have inv: "refines b e t0 f0 s" "hb_side f0 s" "in_step s" using assms(1) by (simp_all add: thread_inv_def)
  from assms(2) show "refines b e t0 f0 s' \<and> hb_side f0 s' \<and> in_step s'"
  proof cases
    case feed
    then show ?thesis using refines_feed [OF inv(1)] hb_side_feed [OF inv(2)] in_step_feed [OF inv(3)] inv(2) by (simp add: hb_side_def)
  next
    case heartbeat
    moreover have "th_hb_pc s \<noteq> H_none \<Longrightarrow> th_pc s \<noteq> P_begin" using inv(3) by (simp add: in_step_def)
    ultimately show ?thesis
      using refines_heartbeat [OF inv(1,2)] heartbeat_step_effect(1) [OF inv(2)] in_step_heartbeat [OF inv(3,2)] by blast
  qed
qed

interpretation feed_threads: invariant_system "threads_init f0 t0" "tstep b e eh" "thread_inv b e t0 f0" for f0 t0 b e eh
  by standard (fact thread_inv_init, fact thread_inv_step)

lemma threads_invD:
  assumes "reachable (threads_init f0 t0) (tstep b e eh) s" and "hb_inv (session (df_packet_builder f0)) (df_heartbeat f0)"
  shows "refines b e t0 f0 s" and "hb_side f0 s" and "in_step s"
  using feed_threads.reachable_inv [OF assms(1)] assms(2) by (simp_all add: thread_inv_def)

end
