(* ===== verification/Thread_Schedule.thy ===== *)
theory Thread_Schedule
  imports Feed_Threads
begin

text \<open>
  The threads of \<open>Feed_Threads\<close> against the schedule of \<open>Schedule\<close>: in every interleaving a feed on a well-formed
  file follows the schedule packet by packet (\<open>on_plan\<close>), the heartbeats announce numbers of the schedule and
  run at most one packet ahead of the wire (\<open>wire_inv\<close>), and the ring buffer always holds the positions of what
  has been sent (\<open>ring_history\<close>).
\<close>

subsection \<open>The datagrams of a run\<close>

definition datagrams_of :: "origin \<Rightarrow> (origin \<times> out_event) list \<Rightarrow> bytes list" where
  "datagrams_of src w = datagrams (map snd (filter (\<lambda>x. fst x = src) w))"

lemma datagrams_of_simps [simp]:
  "datagrams_of src [] = []" "datagrams_of src (w @ w') = datagrams_of src w @ datagrams_of src w'"
  "datagrams_of src (map (Pair src) evs) = datagrams evs"
  "src \<noteq> src' \<Longrightarrow> datagrams_of src (map (Pair src') evs) = []"
  "datagrams_of src ((src', ev) # w) = (if src' = src then datagrams [ev] else []) @ datagrams_of src w"
  by (auto simp: datagrams_of_def filter_map comp_def datagrams_def)

lemma split_before_other:
  assumes "w @ map (Pair src) evs = w1 @ x # w2" and "fst x \<noteq> src"
  shows "\<exists>w3. w = w1 @ x # w3"
proof -
  have "x \<notin> set (map (Pair src) evs)" using assms(2) by auto
  then have "map (Pair src) evs \<noteq> us @ x # w2" for us by (metis in_set_conv_decomp)
  then show ?thesis using assms(1) by (simp add: append_eq_append_conv2) (metis append_eq_Cons_conv append_Nil)
qed

subsection \<open>Where a run stands in the schedule\<close>

text \<open>\<open>planned\<close>: a feed that has sent the packets \<open>sent\<close>, with their messages at \<open>posns\<close>, and has the rest of the schedule
  before it. \<open>numbers_after\<close> lists what \<open>sent_sequence_number_\<close> has been by then: the first number of every packet, and
  the number after the last.\<close>

definition planned :: "build \<Rightarrow> env \<Rightarrow> downstream_feed \<Rightarrow> bytes list list \<Rightarrow> nat list \<Rightarrow> downstream_feed \<Rightarrow> bool" where
  "planned b e f0 sent posns v \<longleftrightarrow>
     replay_ready b e v posns \<and> replay_plan f0 = sent @ replay_plan v \<and>
     replay_positions f0 = posns @ replay_positions v \<and> length posns = length (concat sent) \<and>
     rb_size (df_retransmission_buffer v) = rb_size (df_retransmission_buffer f0) \<and>
     session (df_packet_builder v) = session (df_packet_builder f0)"

definition number_after :: "bytes list list \<Rightarrow> u64" where
  "number_after packets = word_of_nat (Suc (length (concat packets)))"

definition numbers_after :: "bytes list list \<Rightarrow> u64 list" where
  "numbers_after sent = map (\<lambda>j. number_after (take j sent)) [0..<Suc (length sent)]"

text \<open>\<open>finishing\<close>: the turn the feed thread is in will end with packet \<open>p\<close> sent after \<open>sent\<close>.\<close>

definition finishing ::
  "build \<Rightarrow> env \<Rightarrow> downstream_feed \<Rightarrow> feed_pc \<Rightarrow> nat \<Rightarrow> downstream_feed \<Rightarrow> bytes list list \<Rightarrow> bytes list \<Rightarrow> downstream_feed \<Rightarrow> bool" where
  "finishing b e f0 pc t v sent p f' \<longleftrightarrow>
     (\<exists>posns evs t'. finish_turn b e pc t v = Inr (Continue, f', evs, t') \<and> planned b e f0 (sent @ [p]) posns f' \<and>
        datagrams evs = [mold_packet (session (df_packet_builder f0)) (number_after sent) p])"

definition eos_of :: "downstream_feed \<Rightarrow> bytes" where
  "eos_of f0 = header_of (session (df_packet_builder f0)) (number_after (replay_plan f0)) end_of_session_msg_count"

definition plan_point :: "build \<Rightarrow> env \<Rightarrow> downstream_feed \<Rightarrow> downstream_feed \<Rightarrow> threads \<Rightarrow> bytes list list \<Rightarrow> bool" where
  "plan_point b e f0 v s sent \<longleftrightarrow>
     (case th_pc s of
        P_begin \<Rightarrow> (\<exists>posns. planned b e f0 sent posns v) \<and> th_stored s = numbers_after sent
      | P_loop \<Rightarrow> (\<exists>posns. planned b e f0 sent posns v) \<and> th_stored s = numbers_after sent
      | P_build ts \<Rightarrow> (\<exists>posns p f'. planned b e f0 sent posns v \<and> finishing b e f0 (P_build ts) (th_tick s) v sent p f') \<and>
          th_stored s = numbers_after sent
      | P_built ts \<Rightarrow> (\<exists>p f'. finishing b e f0 (P_built ts) (th_tick s) v sent p f') \<and> th_stored s = numbers_after sent
      | P_paused \<Rightarrow> (\<exists>p f'. finishing b e f0 P_paused (th_tick s) v sent p f') \<and> th_stored s = numbers_after sent
      | P_stored packet \<Rightarrow> (\<exists>p f'. finishing b e f0 (P_stored packet) (th_tick s) v sent p f' \<and> th_stored s = numbers_after (sent @ [p]))
      | pc \<Rightarrow> (\<exists>posns. planned b e f0 sent posns v) \<and> th_stored s = numbers_after sent \<and> sent = replay_plan f0 \<and>
          (\<forall>packet finish. pc = P_eos_loop packet finish \<longrightarrow> packet = eos_of f0))"

definition on_plan :: "build \<Rightarrow> env \<Rightarrow> downstream_feed \<Rightarrow> downstream_feed \<Rightarrow> threads \<Rightarrow> bool" where
  "on_plan b e f0 v s \<longleftrightarrow>
     (\<exists>sent. plan_point b e f0 v s sent \<and> datagrams_of Data (th_wire s) = numbered (session (df_packet_builder f0)) 1 sent) \<and>
     set (datagrams_of Eos (th_wire s)) \<subseteq> {eos_of f0}"

lemma numbered_snoc:
  "numbered sess n (ps @ [p]) = numbered sess n ps @ [mold_packet sess (word_of_nat (n + length (concat ps))) p]"
  by (induction sess n ps rule: numbered.induct) (simp_all add: add.assoc)

lemma numbers_after_snoc: "numbers_after (sent @ [p]) = numbers_after sent @ [number_after (sent @ [p])]"
  by (simp add: numbers_after_def)

lemma length_numbers_after [simp]: "length (numbers_after sent) = Suc (length sent)"
  by (simp add: numbers_after_def)

lemma nth_numbers_after: "j \<le> length sent \<Longrightarrow> numbers_after sent ! j = number_after (take j sent)"
  by (simp add: numbers_after_def del: upt_Suc)

lemma planned_number:
  "planned b e f0 sent posns v \<Longrightarrow> df_sequence_number v = number_after sent"
  unfolding planned_def number_after_def using ds_invD(4) replay_readyD(1) by metis

lemma loop_head_message:
  assumes "native b = Little" and "message_at (df_file f) (df_file_pos f) = Some m" and "13 \<le> length m" and "\<not> stop_requested_at e t"
  shows "loop_head b e t f = Inr (if skips f m then (Again, f\<lparr>df_file_pos := df_file_pos f + length m\<rparr>, Suc t)
    else (Build (msg_timestamp m), f, Suc t))"
proof -
  note m = message_at_SomeD [OF assms(2)]
  have "df_file_pos f < length (df_file f)" using m(1,2) by simp
  then show ?thesis
    using assms(2,4) peek_timestamp_message [OF assms(1-3)]
    by (simp add: loop_head_def subspan_def should_skip_def skip_message_eq skips_def)
qed

text \<open>A whole turn of a feed that follows its schedule: it passes a message over, or sends the next packet.\<close>

lemma planned_skip:
  assumes "planned b e f0 sent posns v" and "message_at (df_file v) (df_file_pos v) = Some m" and "skips v m"
  obtains f1 where "downstream_iteration b e t v = Inr (Continue, f1, [], Suc t)" and "planned b e f0 sent posns f1"
proof -
  note pl = assms(1) [unfolded planned_def]
  have ready: "replay_ready b e v posns" using pl by simp
  obtain f1 where f1: "downstream_iteration b e t v = Inr (Continue, f1, [], Suc t)" "replay_ready b e f1 posns"
    "replay_plan f1 = replay_plan v" "replay_positions f1 = replay_positions v" "ds_same v f1"
    using replay_skip_step [OF ready assms(2,3), of t] by metis
  then have "planned b e f0 sent posns f1" using pl by (simp add: planned_def ds_same_def pb_config_def)
  then show ?thesis using that f1(1) by blast
qed

lemma planned_packet:
  assumes "planned b e f0 sent posns v" and "message_at (df_file v) (df_file_pos v) = Some m" and "\<not> skips v m"
  obtains f1 evs1 t1 p posns1 where "downstream_iteration b e t v = Inr (Continue, f1, evs1, t1)"
    and "planned b e f0 (sent @ [p]) posns1 f1"
    and "datagrams evs1 = [mold_packet (session (df_packet_builder f0)) (number_after sent) p]"
proof -
  note pl = assms(1) [unfolded planned_def]
  have ready: "replay_ready b e v posns" using pl by simp
  obtain f1 evs1 t1 p posns1 where f1: "downstream_iteration b e t v = Inr (Continue, f1, evs1, t1)"
    "replay_ready b e f1 posns1" "replay_plan v = p # replay_plan f1"
    "replay_positions v = msg_positions (df_file_pos v) p @ replay_positions f1"
    "posns1 = posns @ msg_positions (df_file_pos v) p" "ds_same v f1"
    "datagrams evs1 = [mold_packet (session (df_packet_builder v)) (df_sequence_number v) p]"
    using replay_packet_step [OF ready assms(2,3), of t] by metis
  then have "planned b e f0 (sent @ [p]) posns1 f1" using pl by (simp add: planned_def ds_same_def pb_config_def)
  moreover have "datagrams evs1 = [mold_packet (session (df_packet_builder f0)) (number_after sent) p]"
    using f1(7) planned_number [OF assms(1)] pl by simp
  ultimately show ?thesis using that f1(1) by blast
qed

text \<open>The head of the loop, in a feed that follows its schedule.\<close>

lemma planned_head:
  assumes "planned b e f0 sent posns v"
  obtains "loop_head b e t v = Inr (Leave, v, t)" and "replay_plan f0 = sent"
  | v' where "loop_head b e t v = Inr (Again, v', Suc t)" and "planned b e f0 sent posns v'"
  | ts p f' where "loop_head b e t v = Inr (Build ts, v, Suc t)" and "finishing b e f0 (P_build ts) (Suc t) v sent p f'"
proof -
  note pl = assms [unfolded planned_def]
  have ready: "replay_ready b e v posns" using pl by simp
  note r = replay_readyD [OF ready]
  show ?thesis
  proof (cases "message_at (df_file v) (df_file_pos v)")
    case None
    then have "df_file_pos v = length (df_file v)" "replay_plan v = []"
      using well_framedD(1) [OF r(4)] by (simp_all add: replay_plan_def plan.simps)
    then show ?thesis using that(1) pl by (simp add: loop_head_def)
  next
    case (Some m)
    have len: "13 \<le> length m" using well_framedD(2) [OF r(4), of m] messages_from_Some [OF Some] by simp
    note head = loop_head_message [OF r(5) Some len r(7)]
    note it = finish_turn_loop [unfolded finish_turn_P_loop, of b e t v]
    show ?thesis
    proof (cases "skips v m")
      case True
      obtain f1 where f1: "downstream_iteration b e t v = Inr (Continue, f1, [], Suc t)" "planned b e f0 sent posns f1"
        using planned_skip [OF assms Some True] .
      moreover have "loop_head b e t v = Inr (Again, f1, Suc t)" using head True it f1(1) by simp
      ultimately show ?thesis using that(2) by blast
    next
      case False
      obtain f1 evs1 t1 p posns1 where f1: "downstream_iteration b e t v = Inr (Continue, f1, evs1, t1)"
        "planned b e f0 (sent @ [p]) posns1 f1" "datagrams evs1 = [mold_packet (session (df_packet_builder f0)) (number_after sent) p]"
        using planned_packet [OF assms Some False] .
      moreover have "finish_turn b e (P_build (msg_timestamp m)) (Suc t) v = Inr (Continue, f1, evs1, t1)"
        using head False it f1(1) by simp
      ultimately have "finishing b e f0 (P_build (msg_timestamp m)) (Suc t) v sent p f1"
        unfolding finishing_def by blast
      then show ?thesis using that(3) head False by simp
    qed
  qed
qed

lemma finish_turn_keeps:
  assumes "finish_turn b e pc t v = Inr (Continue, f', evs, t')" and "pc = P_paused \<or> (\<exists>ts. pc = P_built ts) \<or> (\<exists>p. pc = P_stored p)"
  shows "df_retransmission_buffer f' = df_retransmission_buffer v" and "df_sequence_number f' = df_sequence_number v"
proof -
  have pause: "df_retransmission_buffer g' = df_retransmission_buffer g \<and> df_sequence_number g' = df_sequence_number g"
    if "downstream_pause b e u g ts = Inr (g', evs', u')" for u g ts g' evs' u'
    using that by (auto simp: downstream_pause_def andThen_eq_Inr_iff split: if_splits)
  have store: "df_retransmission_buffer g' = df_retransmission_buffer g \<and> df_sequence_number g' = df_sequence_number g"
    if "send_store b g = Inr (packet, g')" for g packet g'
    using that by (auto simp: send_store_def andThen_eq_Inr_iff)
  have paused: "df_retransmission_buffer f' = df_retransmission_buffer g \<and> df_sequence_number f' = df_sequence_number g"
    if "finish_turn b e P_paused u g = Inr (Continue, f', evs', u')" for g u evs' u'
    using that by (auto simp: finish_turn.simps andThen_eq_Inr_iff dest!: store)
  have built: "df_retransmission_buffer f' = df_retransmission_buffer g \<and> df_sequence_number f' = df_sequence_number g"
    if "finish_turn b e (P_built ts) u g = Inr (Continue, f', evs', u')" for ts g u evs' u'
    using that by (auto simp: finish_turn.simps(2) map_res_def andThen_eq_Inr_iff dest!: pause paused)
  show "df_retransmission_buffer f' = df_retransmission_buffer v" "df_sequence_number f' = df_sequence_number v"
    using assms built paused by (auto simp: finish_turn.simps(4))
qed

text \<open>\<open>v\<close> is the feed of \<open>s\<close> with the heartbeat object it started with.\<close>

abbreviation seen :: "downstream_feed \<Rightarrow> threads \<Rightarrow> downstream_feed" where
  "seen f0 s \<equiv> (th_feed s)\<lparr>df_heartbeat := heartbeat_start (df_heartbeat f0)\<rparr>"

lemma plan_point_head:
  assumes "plan_point b e f0 (seen g s) s sent" and "th_pc s = P_loop" and "feed_step b e s = Some s'"
  shows "plan_point b e f0 (seen g s') s' sent" and "th_wire s' = th_wire s"
proof -
  let ?h = "heartbeat_start (df_heartbeat g)"
  obtain posns where pl: "planned b e f0 sent posns (seen g s)" and st: "th_stored s = numbers_after sent"
    using assms(1,2) by (auto simp: plan_point_def)
  have frame: "loop_head b e (th_tick s) (seen g s) = map_res (\<lambda>(x, f', t'). (x, f'\<lparr>df_heartbeat := ?h\<rparr>, t')) (loop_head b e (th_tick s) (th_feed s))"
    by (rule loop_head_frame)
  have "\<exists>x f' t'. loop_head b e (th_tick s) (th_feed s) = Inr (x, f', t')"
  proof (cases "loop_head b e (th_tick s) (th_feed s)")
    case (Inl err)
    then have "loop_head b e (th_tick s) (seen g s) = Inl err" using frame by simp
    then show ?thesis by (rule_tac planned_head [OF pl, of "th_tick s"]) simp_all
  qed (metis prod_cases3)
  then obtain x f' t' where head: "loop_head b e (th_tick s) (th_feed s) = Inr (x, f', t')" by blast
  have s': "s' = s\<lparr>th_feed := f', th_tick := t', th_pc := (case x of Leave \<Rightarrow> P_leave | Again \<Rightarrow> P_loop | Build ts \<Rightarrow> P_build ts)\<rparr>"
    using assms(2,3) head by (simp add: feed_step_def)
  then show "th_wire s' = th_wire s" by simp
  have "loop_head b e (th_tick s) (seen g s) = Inr (x, f'\<lparr>df_heartbeat := ?h\<rparr>, t')" using frame head by simp
  then show "plan_point b e f0 (seen g s') s' sent"
    using pl st by (rule_tac planned_head [OF pl, of "th_tick s"]) (fastforce simp: s' plan_point_def)+
qed

lemma finishing_move:
  assumes "finishing b e f0 pc t v sent p f'" and "finish_turn b e pc t v = prepend evs (finish_turn b e pc' t' v')" and "datagrams evs = []"
  shows "finishing b e f0 pc' t' v' sent p f'"
proof -
  obtain posns evs1 t1 where fin: "finish_turn b e pc t v = Inr (Continue, f', evs1, t1)" "planned b e f0 (sent @ [p]) posns f'"
    "datagrams evs1 = [mold_packet (session (df_packet_builder f0)) (number_after sent) p]"
    using assms(1) by (auto simp: finishing_def)
  with assms(2) obtain evs2 where "finish_turn b e pc' t' v' = Inr (Continue, f', evs2, t1)" "evs1 = evs @ evs2"
    by (cases "finish_turn b e pc' t' v'") (auto simp: prepend_def)
  then show ?thesis using fin(2,3) assms(3) by (auto simp: finishing_def)
qed

lemma finishing_number:
  assumes "finishing b e f0 pc t v sent p f'" and "pc = P_paused \<or> (\<exists>ts. pc = P_built ts) \<or> (\<exists>p. pc = P_stored p)"
  shows "df_sequence_number v = number_after (sent @ [p])"
  using assms finish_turn_keeps(2) planned_number unfolding finishing_def by metis

lemma paused_step_stored:
  assumes "th_pc s = P_paused" and "feed_step b e s = Some s'" and "\<exists>q. th_pc s' = P_stored q"
  shows "th_stored s' = th_stored s @ [df_sequence_number (th_feed s)]"
proof -
  obtain packet f1 where f1: "send_store b (th_feed s) = Inr (packet, f1)" "th_stored s' = th_stored s @ [df_sent_sequence_number f1]"
    using assms by (auto simp: feed_step_def split: sum.splits)
  then show ?thesis by (auto simp: send_store_def andThen_eq_Inr_iff)
qed

lemma plan_point_packet:
  assumes "plan_point b e f0 (seen g s) s sent" and "th_pc s = P_paused \<or> (\<exists>ts. th_pc s = P_build ts \<or> th_pc s = P_built ts)"
    and "feed_step b e s = Some s'"
  obtains evs where "plan_point b e f0 (seen g s') s' sent" and "th_wire s' = th_wire s @ map (Pair Data) evs" and "datagrams evs = []"
proof -
  obtain p f' where fin: "finishing b e f0 (th_pc s) (th_tick s) (seen g s) sent p f'" and st: "th_stored s = numbers_after sent"
    using assms(1,2) by (auto simp: plan_point_def)
  show ?thesis
  proof (rule packet_step_cases [OF assms(3,2)])
    fix err assume "\<And>h. finish_turn b e (th_pc s) (th_tick s) ((th_feed s)\<lparr>df_heartbeat := h\<rparr>) = Inl err"
    then show ?thesis using fin by (simp add: finishing_def)
  next
    fix evs assume pc: "\<exists>ts. th_pc s' = P_built ts \<or> th_pc s' = P_paused \<or> (\<exists>q. th_pc s' = P_stored q)"
      and wire: "th_wire s' = th_wire s @ map (Pair Data) evs" "datagrams evs = []"
      and "\<And>h. finish_turn b e (th_pc s) (th_tick s) ((th_feed s)\<lparr>df_heartbeat := h\<rparr>) =
        prepend evs (finish_turn b e (th_pc s') (th_tick s') ((th_feed s')\<lparr>df_heartbeat := h\<rparr>))"
    then have fin': "finishing b e f0 (th_pc s') (th_tick s') (seen g s') sent p f'"
      using finishing_move [OF fin] by blast
    have "th_stored s' = (if \<exists>q. th_pc s' = P_stored q then numbers_after (sent @ [p]) else numbers_after sent)"
    proof (cases "th_pc s = P_paused")
      case True
      then have "\<exists>q. th_pc s' = P_stored q" using assms(3) pc by (auto simp: feed_step_def split: sum.splits)
      moreover have "df_sequence_number (th_feed s) = number_after (sent @ [p])" using finishing_number [OF fin] True by simp
      ultimately show ?thesis using paused_step_stored [OF True assms(3)] st by (simp add: numbers_after_snoc)
    next
      case False
      then have "th_stored s' = th_stored s" "\<nexists>q. th_pc s' = P_stored q"
        using assms(2,3) by (auto simp: feed_step_def split: sum.splits)
      then show ?thesis using st by simp
    qed
    then have "plan_point b e f0 (seen g s') s' sent" using pc fin' by (auto simp: plan_point_def) blast+
    then show ?thesis using that wire by blast
  qed
qed

lemma plan_point_transmit:
  assumes "plan_point b e f0 (seen g s) s sent" and "th_pc s = P_stored packet" and "feed_step b e s = Some s'"
  obtains p evs where "plan_point b e f0 (seen g s') s' (sent @ [p])" and "th_wire s' = th_wire s @ map (Pair Data) evs"
    and "datagrams evs = [mold_packet (session (df_packet_builder f0)) (number_after sent) p]"
proof -
  obtain p f' posns evs t' where fin: "finish_turn b e (P_stored packet) (th_tick s) (seen g s) = Inr (Continue, f', evs, t')"
    "planned b e f0 (sent @ [p]) posns f'" "datagrams evs = [mold_packet (session (df_packet_builder f0)) (number_after sent) p]"
    "th_stored s = numbers_after (sent @ [p])"
    using assms(1,2) by (auto simp: plan_point_def finishing_def)
  then have tr: "send_transmit b e (th_tick s) (th_feed s) packet = (evs, t')" "f' = seen g s"
    by (auto simp: finish_turn.simps split: prod.splits)
  have s': "s' = emit Data evs (s\<lparr>th_tick := t', th_pc := P_loop\<rparr>)" using assms(2,3) tr(1) by (simp add: feed_step_def)
  have "plan_point b e f0 (seen g s') s' (sent @ [p])" using fin(2,4) tr(2) by (auto simp: s' plan_point_def)
  then show ?thesis using that fin(3) by (simp add: s')
qed

lemma plan_point_rest:
  assumes "plan_point b e f0 (seen g s) s sent" and "th_pc s \<in> {P_begin, P_leave, P_joining, P_eos}" and "feed_step b e s = Some s'"
  shows "plan_point b e f0 (seen g s') s' sent" and "th_wire s' = th_wire s"
proof -
  show "th_wire s' = th_wire s"
    using assms(2,3) by (auto simp: feed_step_def Let_def split: sum.splits prod.splits if_splits)
  show "plan_point b e f0 (seen g s') s' sent"
  proof (cases "th_pc s = P_eos")
    case False
    then consider "th_pc s = P_begin" | "th_pc s = P_leave" | "th_pc s = P_joining" using assms(2) by blast
    then show ?thesis using assms(1,3)
      by cases (fastforce simp: plan_point_def feed_step_def Let_def split: if_splits)+
  next
    case True
    obtain posns where pl: "planned b e f0 sent posns (seen g s)" "sent = replay_plan f0" using assms(1) True by (auto simp: plan_point_def)
    have "pb_inv (df_packet_builder (seen g s))" using pl(1) ds_invD(1) [OF replay_readyD(1)] unfolding planned_def by blast
    then have "packet = eos_of f0" if "eos_begin b e (th_tick s) (th_feed s) = Inr (packet, finish)" for packet finish
      using eos_begin_packet [of "seen g s" b e "th_tick s" packet finish] that planned_number [OF pl(1)] pl
      by (simp add: eos_packet_def eos_of_def planned_def)
    then show ?thesis using assms True pl
      by (auto simp: plan_point_def feed_step_def Let_def split: sum.splits prod.splits if_splits)
  qed
qed

lemma plan_point_eos_loop:
  assumes "plan_point b e f0 (seen g s) s sent" and "th_pc s = P_eos_loop packet finish" and "feed_step b e s = Some s'"
  obtains evs where "plan_point b e f0 (seen g s') s' sent" and "th_wire s' = th_wire s @ map (Pair Eos) evs"
    and "set (datagrams evs) \<subseteq> {eos_of f0}"
proof -
  obtain r t' where turn: "eos_turn b e (th_tick s) (th_feed s) packet finish = (r, t')" by fastforce
  have packet: "packet = eos_of f0" using assms(1,2) by (auto simp: plan_point_def)
  show ?thesis
  proof (cases r)
    case None
    then have s': "s' = s\<lparr>th_tick := t', th_pc := P_done\<rparr>" using assms(2,3) turn by (simp add: feed_step_def)
    show ?thesis by (rule that [of "[]"]) (use assms(1,2) in \<open>auto simp: s' plan_point_def\<close>)
  next
    case (Some evs)
    then have s': "s' = emit Eos evs (s\<lparr>th_tick := t'\<rparr>)" using assms(2,3) turn by (simp add: feed_step_def)
    have "set (datagrams evs) \<subseteq> {eos_of f0}" using turn Some packet by (auto simp: eos_turn_def Let_def split: if_splits)
    then show ?thesis by (intro that [of evs]) (use assms(1,2) in \<open>auto simp: s' plan_point_def\<close>)
  qed
qed

lemma on_plan_feed:
  assumes "on_plan b e f0 (seen g s) s" and "feed_step b e s = Some s'"
  shows "on_plan b e f0 (seen g s') s'"
proof -
  obtain sent where pt: "plan_point b e f0 (seen g s) s sent"
    and data: "datagrams_of Data (th_wire s) = numbered (session (df_packet_builder f0)) 1 sent"
    and eos: "set (datagrams_of Eos (th_wire s)) \<subseteq> {eos_of f0}" using assms(1) by (auto simp: on_plan_def)
  consider "th_pc s = P_loop" | "th_pc s = P_paused \<or> (\<exists>ts. th_pc s = P_build ts \<or> th_pc s = P_built ts)"
    | packet where "th_pc s = P_stored packet" | "th_pc s \<in> {P_begin, P_leave, P_joining, P_eos}"
    | packet finish where "th_pc s = P_eos_loop packet finish"
    using assms(2) by (cases "th_pc s") (auto simp: feed_step_def)
  then show ?thesis
  proof cases
    case 1
    then show ?thesis using plan_point_head [OF pt _ assms(2)] data eos by (auto simp: on_plan_def)
  next
    case 2
    then show ?thesis using data eos by (rule_tac plan_point_packet [OF pt _ assms(2)]) (auto simp: on_plan_def)
  next
    case 3
    then show ?thesis using data eos
      by (rule_tac plan_point_transmit [OF pt _ assms(2)]) (auto simp: on_plan_def numbered_snoc number_after_def)
  next
    case 4
    then show ?thesis using plan_point_rest [OF pt _ assms(2)] data eos by (auto simp: on_plan_def)
  next
    case 5
    then show ?thesis using data eos by (rule_tac plan_point_eos_loop [OF pt _ assms(2)]) (auto simp: on_plan_def)
  qed
qed

definition plan_inv :: "build \<Rightarrow> env \<Rightarrow> nat \<Rightarrow> downstream_feed \<Rightarrow> threads \<Rightarrow> bool" where
  "plan_inv b e t0 f0 s \<longleftrightarrow>
     thread_inv b e t0 f0 s \<and>
     (replay_ready b e f0 [] \<and> df_sent_sequence_number f0 = 1 \<longrightarrow> on_plan b e f0 (seen f0 s) s)"

lemma plan_inv_init: "threads_init f0 t0 s \<Longrightarrow> plan_inv b e t0 f0 s"
proof -
  assume init: "threads_init f0 t0 s"
  note fields = threads_init_fields [OF init]
  have "on_plan b e f0 (seen f0 s) s" if "replay_ready b e f0 []" "df_sent_sequence_number f0 = 1"
  proof -
    have "planned b e f0 [] [] (seen f0 s)"
      using that(1) by (simp add: planned_def fields replay_ready_heartbeat replay_plan_heartbeat)
    moreover have "th_stored s = numbers_after []" using fields(6) that(2) by (simp add: numbers_after_def number_after_def)
    ultimately show ?thesis using fields(2,5) by (auto simp: on_plan_def plan_point_def)
  qed
  then show ?thesis using thread_inv_init [OF init] by (simp add: plan_inv_def)
qed

lemma on_plan_heartbeat:
  assumes "on_plan b e f0 (seen g s) s" and "hb_side g s" and "heartbeat_step b eh s = Some s'"
  shows "on_plan b e f0 (seen g s') s'"
proof -
  note eff = heartbeat_step_effect [OF assms(2,3)]
  have "seen g s' = seen g s" by (subst eff(9)) simp
  then have "plan_point b e f0 (seen g s') s' = plan_point b e f0 (seen g s) s"
    using eff(2,3,5) by (intro ext, cases "th_pc s") (simp_all add: plan_point_def)
  moreover obtain evs where "th_wire s' = th_wire s @ map (Pair Heart) evs" using eff(11) by blast
  ultimately show ?thesis using assms(1) by (simp add: on_plan_def)
qed

lemma plan_inv_step:
  assumes "plan_inv b e t0 f0 s" and "tstep b e eh s s'"
  shows "plan_inv b e t0 f0 s'"
  unfolding plan_inv_def
proof (intro conjI impI)
  show "thread_inv b e t0 f0 s'" using assms thread_inv_step by (auto simp: plan_inv_def)
  assume ready: "replay_ready b e f0 [] \<and> df_sent_sequence_number f0 = 1"
  then have side: "hb_side f0 s"
    using assms(1) ds_invD(8) [OF replay_readyD(1)] by (auto simp: plan_inv_def thread_inv_def)
  have plan: "on_plan b e f0 (seen f0 s) s" using assms(1) ready by (auto simp: plan_inv_def)
  from assms(2) show "on_plan b e f0 (seen f0 s') s'"
  proof cases
    case feed
    then show ?thesis using on_plan_feed [OF plan] by blast
  next
    case heartbeat
    then show ?thesis using on_plan_heartbeat [OF plan side] by blast
  qed
qed

interpretation feed_plan: invariant_system "threads_init f0 t0" "tstep b e eh" "plan_inv b e t0 f0" for f0 t0 b e eh
  by standard (fact plan_inv_init, fact plan_inv_step)

subsection \<open>The numbers of the heartbeats\<close>

text \<open>\<open>th_stored\<close> has one entry per packet that was numbered; the last may still be on its way to \<open>sendmsg\<close>. Every
  heartbeat carries an entry, and at most one packet less was on the wire before it.\<close>

definition stores_match :: "threads \<Rightarrow> bool" where
  "stores_match s \<longleftrightarrow>
     length (th_stored s) = Suc (length (datagrams_of Data (th_wire s))) + (if \<exists>p. th_pc s = P_stored p then 1 else 0) \<and>
     last (th_stored s) = df_sent_sequence_number (th_feed s)"

definition announces :: "bytes \<Rightarrow> u64 list \<Rightarrow> nat \<Rightarrow> bytes \<Rightarrow> bool" where
  "announces sess stored n d \<longleftrightarrow> (\<exists>j \<le> Suc n. j < length stored \<and> d = heartbeat_packet sess (stored ! j))"

definition hearts_match :: "bytes \<Rightarrow> threads \<Rightarrow> bool" where
  "hearts_match sess s \<longleftrightarrow>
     (\<forall>w1 a d r w2. th_wire s = w1 @ (Heart, Send a d r) # w2 \<longrightarrow> announces sess (th_stored s) (length (datagrams_of Data w1)) d) \<and>
     (case th_hb_pc s of
        H_loaded seq \<Rightarrow> seq \<in> set (th_stored s)
      | H_written \<Rightarrow> hb_packet (df_heartbeat (th_feed s)) \<in> heartbeat_packet sess ` set (th_stored s)
      | _ \<Rightarrow> True)"

definition wire_inv :: "build \<Rightarrow> downstream_feed \<Rightarrow> threads \<Rightarrow> bool" where
  "wire_inv b f0 s \<longleftrightarrow>
     hb_inv (session (df_packet_builder f0)) (df_heartbeat f0) \<and> \<not> debug_no_network b \<longrightarrow>
       hb_side f0 s \<and> stores_match s \<and> hearts_match (session (df_packet_builder f0)) s"

lemma build_keeps_sent [keeps]: "downstream_build_loop b f = Inr f' \<Longrightarrow> df_sent_sequence_number f' = df_sent_sequence_number f"
proof (induction b f arbitrary: f' rule: downstream_build_loop.induct)
  case (1 b f)
  show ?case
  proof (cases "df_file_pos f < length (df_file f)")
    case True
    then show ?thesis
      using "1.prems" [unfolded downstream_build_loop.simps [of b f]] "1.IH" [OF True refl]
      by (fastforce simp: Let_def andThen_eq_Inr_iff split: if_splits)
  next
    case False
    then show ?thesis using "1.prems" [unfolded downstream_build_loop.simps [of b f]] by simp
  qed
qed

lemma piece_keeps_sent [keeps]:
  "loop_head b e t f = Inr (x, f', t') \<Longrightarrow> df_sent_sequence_number f' = df_sent_sequence_number f"
  "downstream_build_packet b f = Inr f' \<Longrightarrow> df_sent_sequence_number f' = df_sent_sequence_number f"
  "downstream_pause b e t f ts = Inr (f', evs, t') \<Longrightarrow> df_sent_sequence_number f' = df_sent_sequence_number f \<and> datagrams evs = []"
  by (auto simp: loop_head_def downstream_build_packet_def downstream_pause_def andThen_eq_Inr_iff
      dest!: keeps split: if_splits option.splits)

lemma stores_match_feed:
  assumes "stores_match s" and "\<not> debug_no_network b" and "feed_step b e s = Some s'"
  shows "stores_match s'"
proof (cases "th_pc s")
  case P_paused
  then show ?thesis
    using assms(1,3) by (auto simp: stores_match_def feed_step_def Let_def split: sum.splits prod.splits)
next
  case (P_stored packet)
  then show ?thesis
    using assms by (auto simp: stores_match_def feed_step_def Let_def send_transmit_def split: prod.splits if_splits)
qed (use assms in \<open>auto simp: stores_match_def feed_step_def Let_def dest: keeps
      split: sum.splits prod.splits head.splits if_splits option.splits\<close>)

lemma announces_mono: "announces sess stored n d \<Longrightarrow> announces sess (stored @ later) n d"
  by (fastforce simp: announces_def nth_append)

lemma feed_step_wire:
  assumes "feed_step b e s = Some s'"
  shows "\<exists>src evs. th_wire s' = th_wire s @ map (Pair src) evs \<and> src \<noteq> Heart"
proof -
  have "th_wire s' = th_wire s \<or> (\<exists>evs. th_wire s' = th_wire s @ map (Pair Data) evs) \<or> (\<exists>evs. th_wire s' = th_wire s @ map (Pair Eos) evs)"
    using assms unfolding feed_step_def Let_def by (cases "th_pc s") (auto split: sum.splits prod.splits if_splits option.splits)
  then show ?thesis by (metis append_Nil2 list.simps(8) origin.distinct(1,5))
qed

lemma feed_step_stored:
  assumes "feed_step b e s = Some s'"
  shows "\<exists>later. th_stored s' = th_stored s @ later"
  using assms unfolding feed_step_def Let_def
  by (cases "th_pc s") (auto split: sum.splits prod.splits if_splits option.splits)

lemma feed_step_heartbeat:
  assumes "feed_step b e s = Some s'"
  shows "th_hb_pc s' = th_hb_pc s \<or> th_hb_pc s' = H_check"
    and "hb_packet (df_heartbeat (th_feed s')) = hb_packet (df_heartbeat (th_feed s))"
  using assms unfolding feed_step_def Let_def
  by (cases "th_pc s"; auto simp: heartbeat_start_def heartbeat_stop_def dest: keeps
      split: sum.splits prod.splits if_splits option.splits)+

lemma hearts_match_feed:
  assumes "hearts_match sess s" and "feed_step b e s = Some s'"
  shows "hearts_match sess s'"
proof -
  obtain src evs where wire: "th_wire s' = th_wire s @ map (Pair src) evs" "src \<noteq> Heart" using feed_step_wire [OF assms(2)] by blast
  obtain later where stored: "th_stored s' = th_stored s @ later" using feed_step_stored [OF assms(2)] by blast
  note hb = feed_step_heartbeat [OF assms(2)]
  have "announces sess (th_stored s') (length (datagrams_of Data w1)) d" if w: "th_wire s' = w1 @ (Heart, Send a d r) # w2" for w1 a d r w2
  proof -
    have "fst (Heart, Send a d r) \<noteq> src" using wire(2) by simp
    then obtain w3 where "th_wire s = w1 @ (Heart, Send a d r) # w3"
      using split_before_other [OF trans [OF wire(1) [symmetric] w]] by blast
    then show ?thesis using assms(1) announces_mono unfolding hearts_match_def stored by blast
  qed
  moreover have "case th_hb_pc s' of H_loaded seq \<Rightarrow> seq \<in> set (th_stored s')
      | H_written \<Rightarrow> hb_packet (df_heartbeat (th_feed s')) \<in> heartbeat_packet sess ` set (th_stored s') | _ \<Rightarrow> True"
    using assms(1) hb stored by (auto simp: hearts_match_def split: heartbeat_pc.splits)
  ultimately show ?thesis unfolding hearts_match_def by blast
qed

lemma hearts_match_heartbeat:
  assumes "hearts_match (session (df_packet_builder f0)) s" and "stores_match s" and "hb_side f0 s" and "heartbeat_step b eh s = Some s'"
  shows "hearts_match (session (df_packet_builder f0)) s'"
proof -
  let ?sess = "session (df_packet_builder f0)"
  note eff = heartbeat_step_effect [OF assms(3,4)]
  have pos: "th_stored s \<noteq> []" using assms(2) by (auto simp: stores_match_def)
  have sent: "df_sent_sequence_number (th_feed s) \<in> set (th_stored s)" using assms(2) pos by (metis last_in_set stores_match_def)
  have inv: "hb_inv ?sess (df_heartbeat (th_feed s))" using assms(3) by (simp add: hb_side_def)
  note step = assms(4) [unfolded heartbeat_step_def Let_def]
  have pc: "case th_hb_pc s' of H_loaded seq \<Rightarrow> seq \<in> set (th_stored s')
      | H_written \<Rightarrow> hb_packet (df_heartbeat (th_feed s')) \<in> heartbeat_packet ?sess ` set (th_stored s') | _ \<Rightarrow> True"
    using step assms(1) sent heartbeat_write [OF inv] by (cases "th_hb_pc s") (auto simp: hearts_match_def)
  have "announces ?sess (th_stored s) (length (datagrams_of Data w1)) d" if "th_wire s' = w1 @ (Heart, Send a d r) # w2" for w1 a d r w2
  proof (cases "\<exists>w3. th_wire s = w1 @ (Heart, Send a d r) # w3")
    case True
    then show ?thesis using assms(1) unfolding hearts_match_def by blast
  next
    case False
    have new: "th_hb_pc s = H_written \<and> w1 = th_wire s \<and> d = hb_packet (df_heartbeat (th_feed s))"
      using step that False heartbeat_write [OF inv]
      by (cases "th_hb_pc s") (auto simp: append_eq_append_conv2 append_eq_Cons_conv Cons_eq_append_conv split: if_splits)
    then obtain j where "j < length (th_stored s)" "d = heartbeat_packet ?sess (th_stored s ! j)"
      using assms(1) by (auto simp: hearts_match_def in_set_conv_nth)
    moreover have "length (th_stored s) \<le> Suc (Suc (length (datagrams_of Data w1)))" using assms(2) new by (simp add: stores_match_def)
    ultimately show ?thesis unfolding announces_def by (intro exI [of _ j]) simp
  qed
  then show ?thesis using pc eff(5) unfolding hearts_match_def by simp
qed

lemma wire_inv_init: "threads_init f0 t0 s \<Longrightarrow> wire_inv b f0 s"
  by (simp add: threads_init_fields wire_inv_def hb_side_def stores_match_def hearts_match_def)

lemma stores_match_heartbeat:
  assumes "stores_match s" and "hb_side f0 s" and "heartbeat_step b eh s = Some s'"
  shows "stores_match s'"
proof -
  note eff = heartbeat_step_effect [OF assms(2,3)]
  obtain evs where "th_wire s' = th_wire s @ map (Pair Heart) evs" using eff(11) by blast
  moreover have "df_sent_sequence_number (th_feed s') = df_sent_sequence_number (th_feed s)" by (subst eff(9)) simp
  ultimately show ?thesis using assms(1) eff(2,5) by (simp add: stores_match_def)
qed

lemma wire_inv_step: "wire_inv b f0 s \<Longrightarrow> tstep b e eh s s' \<Longrightarrow> wire_inv b f0 s'"
  by (erule tstep.cases)
    (auto simp: wire_inv_def intro: hb_side_feed stores_match_feed hearts_match_feed heartbeat_step_effect(1)
      stores_match_heartbeat hearts_match_heartbeat)

interpretation feed_wire: invariant_system "threads_init f0 t0" "tstep b e eh" "wire_inv b f0" for f0 t0 b e eh
  by standard (fact wire_inv_init, fact wire_inv_step)

text \<open>On a well-formed file the numbers are those of the schedule.\<close>

lemma on_plan_stored:
  assumes "on_plan b e f0 v s"
  obtains sent where "th_stored s = numbers_after sent" and "\<exists>later. replay_plan f0 = sent @ later"
proof -
  obtain sent where pt: "plan_point b e f0 v s sent" using assms by (auto simp: on_plan_def)
  have pl: "\<exists>later. replay_plan f0 = ps @ later" if "planned b e f0 ps posns g" for ps posns g
    using that by (auto simp: planned_def)
  have fin: "\<exists>later. replay_plan f0 = (sent @ [p]) @ later" if "finishing b e f0 pc t v sent p f'" for pc t p f'
    using that pl unfolding finishing_def by blast
  then have fin': "\<exists>later. replay_plan f0 = sent @ later" if "finishing b e f0 pc t v sent p f'" for pc t p f'
    using that by (metis append_assoc)
  show ?thesis
    using pt that [of sent] that [of "sent @ [p]" for p] pl fin fin' by (cases "th_pc s") (fastforce simp: plan_point_def)+
qed

text \<open>The ring holds the positions of a prefix of the schedule that covers every packet on the wire.\<close>

definition ring_history :: "downstream_feed \<Rightarrow> retransmission_buffer \<Rightarrow> bytes list list \<Rightarrow> nat list \<Rightarrow> bool" where
  "ring_history f0 rb sent posns \<longleftrightarrow>
     rb_rep rb posns \<and> rb_size rb = rb_size (df_retransmission_buffer f0) \<and> (\<exists>later. replay_positions f0 = posns @ later) \<and>
     (\<exists>later. replay_plan f0 = sent @ later) \<and> length (concat sent) \<le> length posns"

lemma planned_ring: "planned b e f0 sent posns v \<Longrightarrow> ring_history f0 (df_retransmission_buffer v) sent posns"
  unfolding planned_def ring_history_def using ds_invD(3) replay_readyD(1) by (metis order_refl)

lemma plan_point_ring:
  assumes "plan_point b e f0 v s sent"
  shows "\<exists>posns. ring_history f0 (df_retransmission_buffer v) sent posns"
proof -
  have turn: "\<exists>posns. ring_history f0 (df_retransmission_buffer v) sent posns"
    if fin: "finishing b e f0 pc t v sent p f'" "pc = P_paused \<or> (\<exists>ts. pc = P_built ts) \<or> (\<exists>p. pc = P_stored p)" for pc t p f'
  proof -
    obtain posns where "ring_history f0 (df_retransmission_buffer f') (sent @ [p]) posns" "df_retransmission_buffer f' = df_retransmission_buffer v"
      using fin planned_ring finish_turn_keeps(1) unfolding finishing_def by metis
    then show ?thesis by (auto simp: ring_history_def)
  qed
  show ?thesis using assms planned_ring turn by (cases "th_pc s") (fastforce simp: plan_point_def)+
qed

lemma on_plan_ring:
  assumes "on_plan b e f0 v s"
  obtains sent posns where "ring_history f0 (df_retransmission_buffer v) sent posns"
    and "datagrams_of Data (th_wire s) = numbered (session (df_packet_builder f0)) 1 sent"
  using assms plan_point_ring unfolding on_plan_def by blast

text \<open>When the replay has ended everything was sent and recorded.\<close>

lemma on_plan_end:
  assumes "on_plan b e f0 v s" and "after_join (th_pc s)"
  shows "datagrams_of Data (th_wire s) = numbered (session (df_packet_builder f0)) 1 (replay_plan f0)"
    and "rb_write_seq (df_retransmission_buffer v) = word_of_nat (length (concat (replay_plan f0)))"
proof -
  obtain posns where pl: "planned b e f0 (replay_plan f0) posns v"
    and "datagrams_of Data (th_wire s) = numbered (session (df_packet_builder f0)) 1 (replay_plan f0)"
    using assms by (cases "th_pc s") (auto simp: on_plan_def plan_point_def)
  then show "datagrams_of Data (th_wire s) = numbered (session (df_packet_builder f0)) 1 (replay_plan f0)" by simp
  show "rb_write_seq (df_retransmission_buffer v) = word_of_nat (length (concat (replay_plan f0)))"
    using pl rb_repD(3) [OF ds_invD(3) [OF replay_readyD(1)]] by (metis planned_def)
qed

end
