(* ===== verification/Thread_Progress.thy ===== *)
theory Thread_Progress
  imports Feed_Threads
begin

text \<open>
  The threads of \<open>Feed_Threads\<close> do not block each other. The only place where one waits for the other is the join in
  \<open>Heartbeat::stop\<close>; there the heartbeat thread has at most five pieces left (\<open>heartbeat_rank\<close>). Everywhere else the feed
  can move, and it moves along its sequential run, so that a session whose sequential run returns can be
  brought to its end from every reachable state (\<open>session_reaches_end\<close>).
\<close>

subsection \<open>Waiting in the join\<close>

fun heartbeat_rank :: "heartbeat_pc \<Rightarrow> nat" where
  "heartbeat_rank H_load = 5"
| "heartbeat_rank (H_loaded seq) = 4"
| "heartbeat_rank H_written = 3"
| "heartbeat_rank H_sleep = 2"
| "heartbeat_rank H_check = 1"
| "heartbeat_rank _ = 0"

lemma heartbeat_step_total:
  "th_hb_pc s \<noteq> H_none \<Longrightarrow> th_hb_pc s \<noteq> H_exited \<Longrightarrow> \<exists>s'. heartbeat_step b eh s = Some s'"
  by (cases "th_hb_pc s") (auto simp: heartbeat_step_def Let_def split: sum.split)

lemma heartbeat_step_rank:
  assumes "hb_side f0 s" and "heartbeat_step b eh s = Some s'" and "\<not> hb_running (df_heartbeat (th_feed s))"
  shows "heartbeat_rank (th_hb_pc s') < heartbeat_rank (th_hb_pc s)"
proof -
  have "hb_inv (session (df_packet_builder f0)) (df_heartbeat (th_feed s))" using assms(1) by (simp add: hb_side_def)
  then show ?thesis
    using assms(2,3) heartbeat_write(1) by (cases "th_hb_pc s") (auto simp: heartbeat_step_def Let_def)
qed

lemma join_ends:
  assumes "hb_side f0 s" and "in_step s" and "th_pc s = P_joining"
  shows "\<exists>s'. (tstep b e eh)\<^sup>*\<^sup>* s s' \<and> th_pc s' = P_eos"
  using assms
proof (induction "heartbeat_rank (th_hb_pc s)" arbitrary: s rule: less_induct)
  case less
  show ?case
  proof (cases "th_hb_pc s = H_exited")
    case True
    then have "tstep b e eh s (s\<lparr>th_pc := P_eos\<rparr>)" using less.prems(3) by (intro tstep.feed) (simp add: feed_step_def)
    then show ?thesis by (intro exI [of _ "s\<lparr>th_pc := P_eos\<rparr>"]) auto
  next
    case False
    have run: "\<not> hb_running (df_heartbeat (th_feed s))" "th_hb_pc s \<noteq> H_none" and nf: "\<not> faulted s"
      using less.prems(2,3) by (auto simp: in_step_def faulted_def)
    obtain s1 where s1: "heartbeat_step b eh s = Some s1" using heartbeat_step_total [OF run(2) False] by blast
    note eff = heartbeat_step_effect [OF less.prems(1) s1]
    obtain s' where "(tstep b e eh)\<^sup>*\<^sup>* s1 s'" "th_pc s' = P_eos"
      using less.hyps [OF heartbeat_step_rank [OF less.prems(1) s1 run(1)] eff(1) in_step_heartbeat [OF less.prems(2,1) s1 nf]]
        eff(2) less.prems(3) by auto
    moreover have "tstep b e eh s s1" using s1 nf by (rule tstep.heartbeat)
    ultimately show ?thesis by (meson converse_rtranclp_into_rtranclp)
  qed
qed

subsection \<open>The feed moves along its sequential run\<close>

lemma feed_step_total:
  "th_pc s \<noteq> P_joining \<Longrightarrow> th_pc s \<noteq> P_done \<Longrightarrow> \<not> faulted s \<Longrightarrow> \<exists>s'. feed_step b e s = Some s'"
  by (cases "th_pc s") (auto simp: feed_step_def Let_def faulted_def split: sum.split prod.split option.split)

fun turn_rank :: "feed_pc \<Rightarrow> nat" where
  "turn_rank (P_build ts) = 3"
| "turn_rank (P_built ts) = 2"
| "turn_rank P_paused = 1"
| "turn_rank _ = 0"

lemma packet_step_rank:
  assumes "feed_step b e s = Some s'" and "th_pc s = P_paused \<or> (\<exists>ts. th_pc s = P_build ts \<or> th_pc s = P_built ts)" and "\<not> faulted s'"
  shows "turn_rank (th_pc s') < turn_rank (th_pc s)"
  using assms by (auto simp: feed_step_def Let_def faulted_def split: sum.splits prod.splits)

definition in_packet :: "feed_pc \<Rightarrow> bool" where
  "in_packet pc \<longleftrightarrow> pc = P_paused \<or> (\<exists>ts. pc = P_build ts \<or> pc = P_built ts)"

lemma packet_steps:
  assumes "in_packet (th_pc s) \<or> (\<exists>p. th_pc s = P_stored p)"
    and "finish_turn b e (th_pc s) (th_tick s) ((th_feed s)\<lparr>df_heartbeat := h\<rparr>) = Inr (c, v', evs, t')"
  shows "\<exists>s'. (tstep b e eh)\<^sup>*\<^sup>* s s' \<and> c = Continue \<and> (th_feed s')\<lparr>df_heartbeat := h\<rparr> = v' \<and> th_tick s' = t' \<and> th_pc s' = P_loop"
  using assms
proof (induction "turn_rank (th_pc s)" arbitrary: s evs rule: less_induct)
  case less
  show ?case
  proof (cases "in_packet (th_pc s)")
    case False
    then obtain packet where pc: "th_pc s = P_stored packet" using less.prems(1) by blast
    obtain evs' u where tr: "send_transmit b e (th_tick s) (th_feed s) packet = (evs', u)" by fastforce
    let ?s = "emit Data evs' (s\<lparr>th_tick := u, th_pc := P_loop\<rparr>)"
    have "tstep b e eh s ?s" using pc tr by (intro tstep.feed) (simp add: feed_step_def)
    then show ?thesis using less.prems(2) pc tr by (intro exI [of _ ?s]) (auto simp: finish_turn.simps)
  next
    case True
    then have pk: "th_pc s = P_paused \<or> (\<exists>ts. th_pc s = P_build ts \<or> th_pc s = P_built ts)" by (simp add: in_packet_def)
    then have "\<exists>s1. feed_step b e s = Some s1" by (intro feed_step_total) (auto simp: faulted_def)
    then obtain s1 where s1: "feed_step b e s = Some s1" by blast
    show ?thesis
    proof (rule packet_step_cases [OF s1 pk])
      fix err assume "\<And>h. finish_turn b e (th_pc s) (th_tick s) ((th_feed s)\<lparr>df_heartbeat := h\<rparr>) = Inl err"
      then show ?thesis using less.prems(2) by simp
    next
      fix evs1 assume pc: "\<exists>ts. th_pc s1 = P_built ts \<or> th_pc s1 = P_paused \<or> (\<exists>p. th_pc s1 = P_stored p)"
        and fin: "\<And>h. finish_turn b e (th_pc s) (th_tick s) ((th_feed s)\<lparr>df_heartbeat := h\<rparr>) =
          prepend evs1 (finish_turn b e (th_pc s1) (th_tick s1) ((th_feed s1)\<lparr>df_heartbeat := h\<rparr>))"
      have nf: "\<not> faulted s1" using pc by (auto simp: faulted_def)
      obtain evs2 where "finish_turn b e (th_pc s1) (th_tick s1) ((th_feed s1)\<lparr>df_heartbeat := h\<rparr>) = Inr (c, v', evs2, t')"
        using fin [of h] less.prems(2)
        by (cases "finish_turn b e (th_pc s1) (th_tick s1) ((th_feed s1)\<lparr>df_heartbeat := h\<rparr>)") (auto simp: prepend_def)
      then obtain s' where "(tstep b e eh)\<^sup>*\<^sup>* s1 s'" "c = Continue" "(th_feed s')\<lparr>df_heartbeat := h\<rparr> = v'" "th_tick s' = t'" "th_pc s' = P_loop"
        using less.hyps [OF packet_step_rank [OF s1 pk nf]] pc by (auto simp: in_packet_def)
      then show ?thesis using converse_rtranclp_into_rtranclp [of "tstep b e eh", OF tstep.feed [OF s1]] by blast
    qed
  qed
qed

lemma turn_steps:
  assumes "th_pc s = P_loop \<or> in_packet (th_pc s) \<or> (\<exists>p. th_pc s = P_stored p)"
    and "finish_turn b e (th_pc s) (th_tick s) ((th_feed s)\<lparr>df_heartbeat := h\<rparr>) = Inr (c, v', evs, t')"
  shows "\<exists>s'. (tstep b e eh)\<^sup>*\<^sup>* s s' \<and> (th_feed s')\<lparr>df_heartbeat := h\<rparr> = v' \<and> th_tick s' = t' \<and>
    th_pc s' = (case c of Continue \<Rightarrow> P_loop | Break \<Rightarrow> P_leave)"
proof (cases "th_pc s = P_loop")
  case False
  then show ?thesis using packet_steps [of s b e h c v' evs t' eh] assms by auto
next
  case True
  obtain x f' u where head: "loop_head b e (th_tick s) (th_feed s) = Inr (x, f', u)"
    using assms(2) True by (cases "loop_head b e (th_tick s) (th_feed s)") (auto simp: finish_turn_loop loop_head_frame)
  let ?s = "s\<lparr>th_feed := f', th_tick := u, th_pc := (case x of Leave \<Rightarrow> P_leave | Again \<Rightarrow> P_loop | Build ts \<Rightarrow> P_build ts)\<rparr>"
  have step: "tstep b e eh s ?s" using True head by (intro tstep.feed) (simp add: feed_step_def)
  have fin: "finish_turn b e P_loop (th_tick s) ((th_feed s)\<lparr>df_heartbeat := h\<rparr>) =
      (case x of Leave \<Rightarrow> Inr (Break, f'\<lparr>df_heartbeat := h\<rparr>, [], u) | Again \<Rightarrow> Inr (Continue, f'\<lparr>df_heartbeat := h\<rparr>, [], u)
       | Build ts \<Rightarrow> finish_turn b e (P_build ts) u (f'\<lparr>df_heartbeat := h\<rparr>))"
    using head by (simp only: finish_turn_loop) (simp add: loop_head_frame)
  show ?thesis
  proof (cases x)
    case Leave
    then show ?thesis using step fin assms(2) True by (intro exI [of _ ?s]) auto
  next
    case Again
    then show ?thesis using step fin assms(2) True by (intro exI [of _ ?s]) auto
  next
    case (Build ts)
    then have "finish_turn b e (th_pc ?s) (th_tick ?s) ((th_feed ?s)\<lparr>df_heartbeat := h\<rparr>) = Inr (c, v', evs, t')"
      using fin assms(2) True by simp
    moreover have "in_packet (th_pc ?s)" using Build by (simp add: in_packet_def)
    ultimately obtain s' where "(tstep b e eh)\<^sup>*\<^sup>* ?s s'" "c = Continue" "(th_feed s')\<lparr>df_heartbeat := h\<rparr> = v'" "th_tick s' = t'" "th_pc s' = P_loop"
      using packet_steps [of ?s b e h c v' evs t' eh] by blast
    then show ?thesis using converse_rtranclp_into_rtranclp [of "tstep b e eh", OF step] by (metis control.simps(3))
  qed
qed

lemma replay_steps:
  assumes "th_pc s = P_loop" and "downstream_replay fuel b e (th_tick s) ((th_feed s)\<lparr>df_heartbeat := h\<rparr>) = Some (Inr r)"
  shows "\<exists>s'. (tstep b e eh)\<^sup>*\<^sup>* s s' \<and> th_pc s' = P_leave"
  using assms
proof (induction fuel arbitrary: s r)
  case 0
  then show ?case by simp
next
  case (Suc fuel)
  obtain c v' evs t' where it: "downstream_iteration b e (th_tick s) ((th_feed s)\<lparr>df_heartbeat := h\<rparr>) = Inr (c, v', evs, t')"
    using Suc.prems(2) by (cases "downstream_iteration b e (th_tick s) ((th_feed s)\<lparr>df_heartbeat := h\<rparr>)") auto
  then obtain s1 where s1: "(tstep b e eh)\<^sup>*\<^sup>* s s1" "(th_feed s1)\<lparr>df_heartbeat := h\<rparr> = v'" "th_tick s1 = t'"
    "th_pc s1 = (case c of Continue \<Rightarrow> P_loop | Break \<Rightarrow> P_leave)"
    using turn_steps [of s b e h c v' evs t' eh] Suc.prems(1) by (auto simp: finish_turn_P_loop)
  show ?case
  proof (cases c)
    case Continue
    then obtain r' where "downstream_replay fuel b e t' v' = Some (Inr r')"
      using Suc.prems(2) it by (auto simp: andThen_eq_Inr_iff)
    then show ?thesis using Suc.IH [of s1 r'] s1 Continue by (metis control.simps(3) rtranclp_trans)
  next
    case Break
    then show ?thesis using s1 by auto
  qed
qed

lemma eos_steps:
  assumes "th_pc s = P_eos_loop packet finish"
    and "end_of_session_loop fuel b e (th_tick s) (df_mcast_group (th_feed s)) packet finish (heartbeat_period (df_heartbeat (th_feed s))) = Some r"
  shows "\<exists>s'. (tstep b e eh)\<^sup>*\<^sup>* s s' \<and> th_pc s' = P_done"
  using assms
proof (induction fuel arbitrary: s r)
  case 0
  then show ?case by simp
next
  case (Suc fuel)
  obtain x t' where turn: "eos_turn b e (th_tick s) (th_feed s) packet finish = (x, t')" by fastforce
  show ?case
  proof (cases x)
    case None
    then have "tstep b e eh s (s\<lparr>th_tick := t', th_pc := P_done\<rparr>)"
      using Suc.prems(1) turn by (intro tstep.feed) (simp add: feed_step_def)
    then show ?thesis by (intro exI [of _ "s\<lparr>th_tick := t', th_pc := P_done\<rparr>"]) auto
  next
    case (Some evs)
    let ?s = "emit Eos evs (s\<lparr>th_tick := t'\<rparr>)"
    have step: "tstep b e eh s ?s" using Suc.prems(1) turn Some by (intro tstep.feed) (simp add: feed_step_def)
    have "\<exists>r'. end_of_session_loop fuel b e t' (df_mcast_group (th_feed s)) packet finish (heartbeat_period (df_heartbeat (th_feed s))) = Some r'"
      using Suc.prems(2) turn Some by (simp only: end_of_session_loop_turn) auto
    then have "\<exists>s'. (tstep b e eh)\<^sup>*\<^sup>* ?s s' \<and> th_pc s' = P_done" using Suc.IH [of ?s] Suc.prems(1) by auto
    then show ?thesis using converse_rtranclp_into_rtranclp [of "tstep b e eh", OF step] by blast
  qed
qed

subsection \<open>The session can always be brought to its end\<close>

lemma downstream_start_mono:
  "downstream_start fuel b e t f = Some r \<Longrightarrow> fuel \<le> fuel' \<Longrightarrow> downstream_start fuel' b e t f = Some r"
  by (auto simp: downstream_start_def downstream_end_of_session_pieces Let_def
      dest!: downstream_replay_mono [of fuel] end_of_session_loop_mono [of fuel]
      split: option.splits sum.splits prod.splits if_splits)

lemma downstream_start_unique:
  "downstream_start fuel b e t f = Some r \<Longrightarrow> downstream_start fuel' b e t f = Some r' \<Longrightarrow> r = r'"
  using downstream_start_mono [of fuel b e t f r "max fuel fuel'"] downstream_start_mono [of fuel' b e t f r' "max fuel fuel'"] by simp

lemma downstream_start_parts:
  assumes "downstream_start fuel b e t f = Some (Inr r)"
  obtains v evs t1 r2 where "downstream_replay fuel b e t (f\<lparr>df_heartbeat := heartbeat_start (df_heartbeat f)\<rparr>) = Some (Inr (v, evs, t1))"
    and "downstream_end_of_session fuel b e t1 (v\<lparr>df_heartbeat := heartbeat_stop (df_heartbeat v)\<rparr>) = Some (Inr r2)"
  using assms by (auto simp: downstream_start_def Let_def andThen_eq_Inr_iff split: option.splits sum.splits)

lemma downstream_replay_unique:
  "downstream_replay fuel b e t f = Some r \<Longrightarrow> downstream_replay fuel' b e t f = Some r' \<Longrightarrow> r = r'"
  using downstream_replay_mono [of fuel b e t f r "max fuel fuel'"] downstream_replay_mono [of fuel' b e t f r' "max fuel fuel'"] by simp

lemma end_reached_from_P_eos:
  assumes "th_pc s = P_eos" and "hb_period (df_heartbeat (th_feed s)) = hb_period h"
    and "downstream_end_of_session fuel b e (th_tick s)
      ((th_feed s)\<lparr>df_heartbeat := heartbeat_stop h\<rparr>) = Some (Inr r)"
  shows "\<exists>s'. (tstep b e eh)\<^sup>*\<^sup>* s s' \<and> th_pc s' = P_done"
proof (cases "debug_no_network b")
  case True
  then have "tstep b e eh s (s\<lparr>th_pc := P_done\<rparr>)" using assms(1) by (intro tstep.feed) (simp add: feed_step_def)
  then show ?thesis by (intro exI [of _ "s\<lparr>th_pc := P_done\<rparr>"]) auto
next
  case False
  obtain packet finish r3 where eos: "eos_begin b e (th_tick s) (th_feed s) = Inr (packet, finish)"
    "end_of_session_loop fuel b e (Suc (th_tick s)) (df_mcast_group (th_feed s)) packet finish (hb_period h) = Some r3"
    using assms(3) False unfolding downstream_end_of_session_pieces
    by (auto simp: heartbeat_period_def heartbeat_stop_def split: sum.splits)
  let ?s = "s\<lparr>th_tick := Suc (th_tick s), th_pc := P_eos_loop packet finish\<rparr>"
  have step: "tstep b e eh s ?s" using assms(1) False eos(1) by (intro tstep.feed) (simp add: feed_step_def)
  have "\<exists>s'. (tstep b e eh)\<^sup>*\<^sup>* ?s s' \<and> th_pc s' = P_done"
    using eos_steps [of ?s packet finish fuel b e r3 eh] eos(2) assms(2) by (simp add: heartbeat_period_def)
  then show ?thesis using converse_rtranclp_into_rtranclp [of "tstep b e eh", OF step] by blast
qed

lemma end_reached_from_eos:
  assumes "refines b e t0 f0 s" and "hb_side f0 s" and "downstream_start fuel b e t0 f0 = Some (Inr r)"
    and "th_pc s = P_eos \<or> (\<exists>p fin. th_pc s = P_eos_loop p fin)"
  shows "\<exists>s'. (tstep b e eh)\<^sup>*\<^sup>* s s' \<and> th_pc s' = P_done"
proof -
  define h where "h = heartbeat_start (df_heartbeat f0)"
  let ?v = "(th_feed s)\<lparr>df_heartbeat := h\<rparr>"
  have per: "hb_period (df_heartbeat (th_feed s)) = hb_period h" using assms(2) by (simp add: hb_side_def h_def)
  obtain v evs t1 r2 where run: "downstream_replay fuel b e t0 (f0\<lparr>df_heartbeat := h\<rparr>) = Some (Inr (v, evs, t1))"
    "downstream_end_of_session fuel b e t1 (v\<lparr>df_heartbeat := heartbeat_stop (df_heartbeat v)\<rparr>) = Some (Inr r2)"
    using downstream_start_parts [OF assms(3)] unfolding h_def by metis
  show ?thesis
  proof (cases "th_pc s = P_eos")
    case True
    then obtain k where "downstream_replay k b e t0 (f0\<lparr>df_heartbeat := h\<rparr>) = Some (Inr (?v, feed_events s, th_tick s))"
      using assms(1) by (auto simp: refines_def Let_def h_def)
    then have "v = ?v" "t1 = th_tick s" using downstream_replay_unique [OF run(1)] by auto
    then show ?thesis using end_reached_from_P_eos [OF True per] run(2) by simp
  next
    case False
    then obtain packet finish where pc: "th_pc s = P_eos_loop packet finish" using assms(4) by blast
    then obtain k evs1 evs2 t2 where eos: "downstream_replay k b e t0 (f0\<lparr>df_heartbeat := h\<rparr>) = Some (Inr (?v, evs1, t2))"
      "\<not> debug_no_network b" "eos_begin b e t2 ?v = Inr (packet, finish)" "eos_so_far b e (Suc t2) ?v packet finish evs2 (th_tick s)"
      using assms(1) by (auto simp: refines_def Let_def h_def)
    then have v: "v = ?v" "t1 = t2" using downstream_replay_unique [OF run(1)] by auto
    have "\<exists>r3. end_of_session_loop fuel b e (Suc t2) (df_mcast_group ?v) packet finish (heartbeat_period (df_heartbeat ?v)) = Some r3"
      using run(2) eos(2,3) unfolding v downstream_end_of_session_pieces by auto
    then obtain k' r4 where "end_of_session_loop k' b e (th_tick s) (df_mcast_group ?v) packet finish (heartbeat_period (df_heartbeat ?v)) = Some r4"
      using eos(4) unfolding eos_so_far_def by blast
    then show ?thesis using eos_steps [OF pc] per by (simp add: heartbeat_period_def)
  qed
qed

lemma leave_reached:
  assumes "refines b e t0 f0 s" and "downstream_start fuel b e t0 f0 = Some (Inr r)"
    and "th_pc s = P_loop \<or> in_packet (th_pc s) \<or> (\<exists>p. th_pc s = P_stored p)"
  shows "\<exists>s'. (tstep b e eh)\<^sup>*\<^sup>* s s' \<and> th_pc s' = P_leave"
proof -
  define h where "h = heartbeat_start (df_heartbeat f0)"
  let ?v = "(th_feed s)\<lparr>df_heartbeat := h\<rparr>"
  obtain f1 t1 evs1 evs2 where turn: "replay_run b e t0 (f0\<lparr>df_heartbeat := h\<rparr>) f1 evs1 t1"
    "downstream_iteration b e t1 f1 = prepend evs2 (finish_turn b e (th_pc s) (th_tick s) ?v)"
    using assms(1,3) by (auto simp: refines_def Let_def h_def in_turn_def in_packet_def)
  obtain v evs u where run: "downstream_replay fuel b e t0 (f0\<lparr>df_heartbeat := h\<rparr>) = Some (Inr (v, evs, u))"
    using downstream_start_parts [OF assms(2)] unfolding h_def by metis
  obtain k r1 where k: "downstream_replay k b e t1 f1 = Some r1" using replay_run_rest [OF turn(1) run] by blast
  obtain k' where "downstream_replay k' b e t0 (f0\<lparr>df_heartbeat := h\<rparr>) = Some (map_res (\<lambda>(f', evs', t'). (f', evs1 @ evs', t')) r1)"
    using replay_run_extends [OF turn(1) k] by blast
  then obtain x where r1: "r1 = Inr x" using downstream_replay_unique [OF run] by (cases r1) auto
  obtain j where j: "k = Suc j" using k by (cases k) auto
  obtain c v' evs' t' where fin: "finish_turn b e (th_pc s) (th_tick s) ?v = Inr (c, v', evs', t')"
    using k r1 j turn(2) by (cases "finish_turn b e (th_pc s) (th_tick s) ?v") (auto simp: prepend_def)
  then obtain s1 where s1: "(tstep b e eh)\<^sup>*\<^sup>* s s1" "(th_feed s1)\<lparr>df_heartbeat := h\<rparr> = v'" "th_tick s1 = t'"
    "th_pc s1 = (case c of Continue \<Rightarrow> P_loop | Break \<Rightarrow> P_leave)"
    using turn_steps [OF assms(3) fin] by blast
  show ?thesis
  proof (cases c)
    case Break
    then show ?thesis using s1 by auto
  next
    case Continue
    then have "\<exists>y. downstream_replay j b e t' v' = Some (Inr y)"
      using k r1 j turn(2) fin by (auto simp: andThen_eq_Inr_iff)
    then obtain s2 where "(tstep b e eh)\<^sup>*\<^sup>* s1 s2" "th_pc s2 = P_leave"
      using replay_steps [of s1 j b e h _ eh] s1 Continue by auto
    then show ?thesis using s1(1) by (meson rtranclp_trans)
  qed
qed

lemma session_reaches_end:
  assumes "reachable (threads_init f0 t0) (tstep b e eh) s" and "hb_inv (session (df_packet_builder f0)) (df_heartbeat f0)"
    and "downstream_start fuel b e t0 f0 = Some (Inr r)"
  shows "\<exists>s'. (tstep b e eh)\<^sup>*\<^sup>* s s' \<and> th_pc s' = P_done"
proof -
  let ?finishes = "\<lambda>s. \<exists>s'. (tstep b e eh)\<^sup>*\<^sup>* s s' \<and> th_pc s' = P_done" and ?R = "reachable (threads_init f0 t0) (tstep b e eh)"
  note inv = threads_invD [OF _ assms(2), of t0 b e eh]
  have cont: "?finishes s1" if "(tstep b e eh)\<^sup>*\<^sup>* s1 s2" "?finishes s2" for s1 s2 using that by (meson rtranclp_trans)
  have step: "?finishes s1" if "feed_step b e s1 = Some s2" "?finishes s2" for s1 s2
    using cont [of s1 s2] tstep.feed [OF that(1)] that(2) by blast
  have eos: "?finishes s1" if "?R s1" "th_pc s1 = P_eos \<or> (\<exists>p fin. th_pc s1 = P_eos_loop p fin)" for s1
    using end_reached_from_eos [OF inv(1,2) assms(3)] that by blast
  have joining: "?finishes s1" if "?R s1" "th_pc s1 = P_joining" for s1
    using join_ends [OF inv(2,3)] that eos cont reachable_steps [OF that(1)] by metis
  have leave: "?finishes s1" if R: "?R s1" and pc: "th_pc s1 = P_leave" for s1
  proof -
    obtain s2 where "feed_step b e s1 = Some s2" "th_pc s2 = P_joining" using pc by (auto simp: feed_step_def Let_def)
    then show ?thesis using step joining reachable.advance [OF R tstep.feed] by blast
  qed
  have turn: "?finishes s1" if "?R s1" "th_pc s1 = P_loop \<or> in_packet (th_pc s1) \<or> (\<exists>p. th_pc s1 = P_stored p)" for s1
    using leave_reached [OF inv(1) assms(3)] that leave cont reachable_steps [OF that(1)] by metis
  have begun: "?finishes s1" if R: "?R s1" and pc: "th_pc s1 = P_begin" for s1
  proof -
    obtain s2 where "feed_step b e s1 = Some s2" "th_pc s2 = P_loop" using pc by (auto simp: feed_step_def Let_def)
    then show ?thesis using step turn reachable.advance [OF R tstep.feed] by blast
  qed
  show ?thesis
  proof (cases "th_pc s")
    case (P_fault err)
    then obtain k where "downstream_start k b e t0 f0 = Some (Inl err)" using inv(1) [OF assms(1)] by (auto simp: refines_def)
    then show ?thesis using downstream_start_unique [OF assms(3)] by blast
  qed (use assms(1) begun turn leave joining eos in \<open>auto simp: in_packet_def\<close>)
qed

end
