(* ===== verification/Concurrent_Session.thy ===== *)
theory Concurrent_Session
  imports Samples Thread_Schedule Thread_Progress
begin

text \<open>
  What a client sees of a session while the feed thread, the heartbeat thread and the retransmission workers run.
  \<open>session_at\<close> are the states that a feed built on a file of framed messages can be in, under every
  interleaving of its two threads; the theorems say what is on the wire there, what a worker answers there, and
  that the session can be brought to its end from there.
\<close>

definition session_at ::
  "build \<Rightarrow> env \<Rightarrow> env \<Rightarrow> downstream_config \<Rightarrow> packet_builder_config \<Rightarrow> bytes list \<Rightarrow> u64 \<Rightarrow> nat \<Rightarrow> downstream_feed \<Rightarrow> threads \<Rightarrow> bool" where
  "session_at b e eh cfg pb_cfg bodies n t f s \<longleftrightarrow>
     (\<exists>so rb. downstream_feed_new b so cfg pb_cfg (concat (map frame bodies)) rb = Inr f \<and>
        retransmission_buffer_new n = Inr rb \<and> playable b e cfg pb_cfg bodies n \<and>
        reachable (threads_init f t) (tstep b e eh) s)"

lemma session_atE:
  assumes "session_at b e eh cfg pb_cfg bodies n t f s"
  obtains so rb where "downstream_feed_new b so cfg pb_cfg (concat (map frame bodies)) rb = Inr f"
    and "retransmission_buffer_new n = Inr rb" and "playable b e cfg pb_cfg bodies n"
    and "reachable (threads_init f t) (tstep b e eh) s"
  using assms unfolding session_at_def by blast

lemma session_at_feed:
  assumes "session_at b e eh cfg pb_cfg bodies n t f s"
  shows "replay_ready b e f []" and "messages_from (df_file f) (df_file_pos f) = map frame bodies"
    and "ds_capacity f = cfg_MTU pb_cfg - 20" and "session (df_packet_builder f) = cfg_session pb_cfg"
    and "skips f = early cfg" and "length (cfg_session pb_cfg) = 10" and "df_file f = concat (map frame bodies)"
    and "rb_size (df_retransmission_buffer f) = unat n" and "20 \<le> cfg_MTU pb_cfg" and "playable b e cfg pb_cfg bodies n"
    and "hb_inv (session (df_packet_builder f)) (df_heartbeat f)"
    and "df_end_of_session_duration f = dc_end_of_session_duration cfg"
proof -
  obtain so rb where new: "downstream_feed_new b so cfg pb_cfg (concat (map frame bodies)) rb = Inr f"
    "retransmission_buffer_new n = Inr rb" "playable b e cfg pb_cfg bodies n" using assms by (rule session_atE)
  note f = new_feed_ready [OF new]
  show "replay_ready b e f []" "messages_from (df_file f) (df_file_pos f) = map frame bodies"
    "ds_capacity f = cfg_MTU pb_cfg - 20" "session (df_packet_builder f) = cfg_session pb_cfg"
    "skips f = early cfg" "length (cfg_session pb_cfg) = 10" "df_file f = concat (map frame bodies)"
    "20 \<le> cfg_MTU pb_cfg" "playable b e cfg pb_cfg bodies n"
    "df_end_of_session_duration f = dc_end_of_session_duration cfg" using f new(3) by simp_all
  show "rb_size (df_retransmission_buffer f) = unat n" using f(8) retransmission_buffer_new_inv [OF new(2)] by simp
  show "hb_inv (session (df_packet_builder f)) (df_heartbeat f)" using ds_invD(8) [OF replay_readyD(1) [OF f(1)]] .
qed

lemma session_at_invs:
  assumes "session_at b e eh cfg pb_cfg bodies n t f s"
  shows "on_plan b e f (seen f s) s" and "hb_side f s" and "in_step s" and "stores_match s"
    and "hearts_match (cfg_session pb_cfg) s"
proof -
  obtain so rb where new: "downstream_feed_new b so cfg pb_cfg (concat (map frame bodies)) rb = Inr f"
    and r: "reachable (threads_init f t) (tstep b e eh) s" using assms by (rule session_atE)
  note f = session_at_feed [OF assms]
  show "on_plan b e f (seen f s) s"
    using feed_plan.reachable_inv [OF r] f(1) new_feed_numbers(2) [OF new] by (simp add: plan_inv_def)
  show "hb_side f s" "in_step s" using threads_invD [OF r f(11)] by simp_all
  show "stores_match s" "hearts_match (cfg_session pb_cfg) s"
    using feed_wire.reachable_inv [OF r] f(4,11) replay_readyD(6) [OF f(1)] by (simp_all add: wire_inv_def)
qed

lemma session_at_start:
  assumes "downstream_feed_new b so cfg pb_cfg (concat (map frame bodies)) rb = Inr f" and "retransmission_buffer_new n = Inr rb"
    and "playable b e cfg pb_cfg bodies n" and "threads_init f t s"
  shows "session_at b e eh cfg pb_cfg bodies n t f s"
  using assms reachable.start unfolding session_at_def by metis

lemma session_at_steps:
  assumes "session_at b e eh cfg pb_cfg bodies n t f s" and "(tstep b e eh)\<^sup>*\<^sup>* s s'"
  shows "session_at b e eh cfg pb_cfg bodies n t f s'"
  using assms reachable_steps unfolding session_at_def by metis

text \<open>The plan of a session whose early messages come first.\<close>

lemma session_at_plan:
  assumes "session_at b e eh cfg pb_cfg bodies n t f s" and "skips_first (early cfg) (map frame bodies)"
  shows "concat (replay_plan f) = map frame (dropWhile (\<lambda>body. early cfg (frame body)) bodies)"
proof -
  note f = session_at_feed [OF assms(1)]
  have "\<forall>m \<in> set (map frame bodies). length m \<le> cfg_MTU pb_cfg - 20" using f(10) by (auto simp: playable_def length_frame)
  then show ?thesis
    unfolding replay_plan_def f(2,3,5) by (simp add: plan_skips_first [OF _ assms(2)] dropWhile_map comp_def)
qed

lemma sample_session_at:
  assumes "(tstep sample_build sample_env eh)\<^sup>*\<^sup>* s s'" and "threads_init sample_feed 0 s"
  shows "session_at sample_build sample_env eh sample_cfg sample_pb_cfg sample_bodies 4 0 sample_feed s'"
  using session_at_steps [OF session_at_start [OF sample_feed sample_rb_new sample_playable assms(2)] assms(1)] .

text \<open>
  A session can always be completed: in every state that the threads of a feed on a file of framed messages
  reach, the join of the heartbeat thread included, some continuation brings \<open>downstream::Feed::start\<close> to its end,
  when the clock advances by the end-of-session duration. Neither thread can block the other for good.
\<close>

lemma session_at_ends:
  assumes "session_at b e eh cfg pb_cfg bodies n t f s"
    and "clock_passes e (t + 4 * Suc (length bodies)) (dc_end_of_session_duration cfg)"
    and "\<forall>u. fits_i64 (now_at e u + dc_end_of_session_duration cfg)"
  shows "\<exists>s'. (tstep b e eh)\<^sup>*\<^sup>* s s' \<and> th_pc s' = P_done"
proof -
  note f = session_at_feed [OF assms(1)]
  have r: "reachable (threads_init f t) (tstep b e eh) s" using assms(1) by (rule session_atE)
  obtain fuel r where "downstream_start fuel b e t f = Some (Inr r)"
    using downstream_start_ok [OF f(1), of t] assms(2,3) unfolding f(2,12) by auto
  then show ?thesis using session_reaches_end [OF r f(11)] by blast
qed

lemma sample_times:
  "clock_passes sample_env (0 + 4 * Suc (length sample_bodies)) (dc_end_of_session_duration sample_cfg)"
  "\<forall>u. fits_i64 (now_at sample_env u + dc_end_of_session_duration sample_cfg)"
proof -
  have "0 + 4 * Suc (length sample_bodies) \<le> 100" by (simp add: sample_bodies_def)
  then show "clock_passes sample_env (0 + 4 * Suc (length sample_bodies)) (dc_end_of_session_duration sample_cfg)"
    using sample_clock unfolding clock_passes_def by (meson le_trans)
  show "\<forall>u. fits_i64 (now_at sample_env u + dc_end_of_session_duration sample_cfg)"
    by (simp add: fits_i64_def sample_env_def sample_cfg_def default_downstream_config_def)
qed

definition sample_threads :: threads where
  "sample_threads = \<lparr>th_feed = sample_feed, th_pc = P_begin, th_tick = 0, th_hb_pc = H_none, th_hb_tick = 0, th_wire = [],
     th_stored = [df_sent_sequence_number sample_feed]\<rparr>"

lemma sample_threads_init: "threads_init sample_feed 0 sample_threads"
  by (simp add: threads_init_def sample_threads_def)

lemma sample_done:
  obtains s where "session_at sample_build sample_env sample_env sample_cfg sample_pb_cfg sample_bodies 4 0 sample_feed s"
    and "th_pc s = P_done"
  using session_at_ends [OF sample_session_at [OF rtranclp.rtrancl_refl sample_threads_init] sample_times]
    sample_session_at [OF _ sample_threads_init] by blast

text \<open>With a clock that stands still every session reaches its end-of-session packets.\<close>

definition frozen_env :: env where "frozen_env = sample_env\<lparr>now_at := (\<lambda>_. 0)\<rparr>"

lemma frozen_session_at:
  assumes "(tstep sample_build frozen_env eh)\<^sup>*\<^sup>* sample_threads s"
  shows "session_at sample_build frozen_env eh sample_cfg sample_pb_cfg sample_bodies 4 0 sample_feed s"
proof -
  have "playable sample_build frozen_env sample_cfg sample_pb_cfg sample_bodies 4"
    using sample_playable by (simp add: playable_def frozen_env_def sample_env_def paced_def pacer_new_def sample_cfg_def)
  then show ?thesis using session_at_steps [OF session_at_start [OF sample_feed sample_rb_new _ sample_threads_init] assms] by blast
qed

lemma session_reaches_eos:
  assumes "session_at b e eh cfg pb_cfg bodies n t f s" and "th_pc s = P_begin"
  shows "\<exists>s'. (tstep b e eh)\<^sup>*\<^sup>* s s' \<and> th_pc s' = P_eos"
proof -
  let ?h = "heartbeat_start (df_heartbeat f)"
  note f = session_at_feed [OF assms(1)]
  have "reachable (threads_init f t) (tstep b e eh) s" using assms(1) by (rule session_atE)
  then have ref: "refines b e t f s" by (rule threads_invD(1) [OF _ f(11)])
  have step: "\<exists>s'. (tstep b e eh)\<^sup>*\<^sup>* s1 s' \<and> th_pc s' = P_eos"
    if "(tstep b e eh)\<^sup>*\<^sup>* s1 s2" "\<exists>s'. (tstep b e eh)\<^sup>*\<^sup>* s2 s' \<and> th_pc s' = P_eos" for s1 s2
    using that by (meson rtranclp_trans)
  define s1 where "s1 = s\<lparr>th_feed := f\<lparr>df_heartbeat := ?h\<rparr>, th_hb_pc := H_check, th_pc := P_loop\<rparr>"
  have s1: "(tstep b e eh)\<^sup>*\<^sup>* s s1"
    using assms(2) ref by (intro r_into_rtranclp tstep.feed) (simp add: feed_step_def refines_def s1_def)
  have "replay_ready b e (f\<lparr>df_heartbeat := ?h\<rparr>) []" using f(1) by (simp add: replay_ready_heartbeat)
  then obtain r where "downstream_replay (Suc (length (messages_from (df_file f) (df_file_pos f)))) b e (th_tick s1) ((th_feed s1)\<lparr>df_heartbeat := ?h\<rparr>) = Some (Inr r)"
    using replay_ok by (fastforce simp: s1_def)
  moreover have "th_pc s1 = P_loop" by (simp add: s1_def)
  ultimately obtain s2 where s2: "(tstep b e eh)\<^sup>*\<^sup>* s1 s2" "th_pc s2 = P_leave" using replay_steps by blast
  define s3 where "s3 = s2\<lparr>th_feed := (th_feed s2)\<lparr>df_heartbeat := heartbeat_stop (df_heartbeat (th_feed s2))\<rparr>, th_pc := P_joining\<rparr>"
  have s3: "(tstep b e eh)\<^sup>*\<^sup>* s2 s3" using s2(2) by (intro r_into_rtranclp tstep.feed) (simp add: feed_step_def s3_def Let_def)
  have "session_at b e eh cfg pb_cfg bodies n t f s3" using session_at_steps [OF assms(1)] s1 s2(1) s3 by (meson rtranclp_trans)
  from join_ends [OF session_at_invs(2,3) [OF this]] show ?thesis
    using step [OF s1] step [OF s2(1)] step [OF s3] by (simp add: s3_def)
qed

lemma eos_begin_ok:
  assumes "pb_inv (df_packet_builder f)" and "fits_i64 (now_at e t + df_end_of_session_duration f)"
  shows "eos_begin b e t f = Inr (eos_packet f, now_at e t + df_end_of_session_duration f)"
  using assms(2) unfolding eos_begin_def eos_header_written [OF assms(1)] by (simp add: checked_i64_def)

lemma session_at_duration:
  assumes "session_at b e eh cfg pb_cfg bodies n t f s" and "th_pc s = P_eos"
  shows "df_end_of_session_duration (th_feed s) = dc_end_of_session_duration cfg"
proof -
  let ?f = "f\<lparr>df_heartbeat := heartbeat_start (df_heartbeat f)\<rparr>"
  note f = session_at_feed [OF assms(1)]
  have "reachable (threads_init f t) (tstep b e eh) s" using assms(1) by (rule session_atE)
  then have "refines b e t f s" by (rule threads_invD(1) [OF _ f(11)])
  then obtain fuel where run: "downstream_replay fuel b e t ?f = Some (Inr (seen f s, feed_events s, th_tick s))"
    using assms(2) by (auto simp: refines_def Let_def)
  have "replay_ready b e ?f []" using f(1) by (simp add: replay_ready_heartbeat)
  then obtain k f' evs t' where "downstream_replay k b e t ?f = Some (Inr (f', evs, t'))" "ds_same ?f f'"
    using replay_ok unfolding replayed_def by blast
  then show ?thesis using downstream_replay_unique [OF run] f(12) by (fastforce simp: ds_same_def)
qed

lemma frozen_eos:
  obtains s w ev w2 where "session_at sample_build frozen_env sample_env sample_cfg sample_pb_cfg sample_bodies 4 0 sample_feed s"
    and "th_wire s = w @ (Eos, ev) # w2" and "w2 \<noteq> []"
proof -
  obtain s where s: "(tstep sample_build frozen_env sample_env)\<^sup>*\<^sup>* sample_threads s" "th_pc s = P_eos"
    using session_reaches_eos [OF frozen_session_at [OF rtranclp.rtrancl_refl], of sample_env] by (auto simp: sample_threads_def)
  note at = frozen_session_at [OF s(1)]
  note f = session_at_feed [OF at]
  define v where "v = seen sample_feed s"
  have pb: "pb_inv (df_packet_builder v)"
    using session_at_invs(1) [OF at] s(2) ds_invD(1) [OF replay_readyD(1)]
    by (auto simp: on_plan_def plan_point_def planned_def v_def [symmetric])
  have dur: "df_end_of_session_duration v = dc_end_of_session_duration sample_cfg"
    using session_at_duration [OF at s(2)] by (simp add: v_def)
  define s1 where "s1 = s\<lparr>th_tick := Suc (th_tick s), th_pc := P_eos_loop (eos_packet v) (dc_end_of_session_duration sample_cfg)\<rparr>"
  have "eos_begin sample_build frozen_env (th_tick s) (th_feed s) = Inr (eos_packet v, dc_end_of_session_duration sample_cfg)"
    using eos_begin_ok [of "th_feed s" frozen_env "th_tick s" sample_build] pb dur
      spec [OF sample_times(2), of 0]
    by (simp add: v_def eos_packet_def frozen_env_def sample_env_def)
  then have "tstep sample_build frozen_env sample_env s s1"
    using s(2) by (intro tstep.feed) (simp add: feed_step_def s1_def sample_build_def)
  moreover define evs where "evs = Send (df_mcast_group (th_feed s)) (eos_packet v) 48 # [Slept (heartbeat_period (df_heartbeat (th_feed s)))]"
  define s2 where "s2 = emit Eos evs (s1\<lparr>th_tick := Suc (Suc (Suc (th_tick s1)))\<rparr>)"
  have "length (eos_packet v) = 20" using pb by (simp add: eos_packet_def session_length)
  then have "tstep sample_build frozen_env sample_env s1 s2"
    by (intro tstep.feed) (simp add: feed_step_def s1_def s2_def eos_turn_def frozen_env_def sample_env_def evs_def sample_build_def Let_def
        sample_cfg_def default_downstream_config_def)
  ultimately have "(tstep sample_build frozen_env sample_env)\<^sup>*\<^sup>* sample_threads s2"
    using s(1) by (meson rtranclp.rtrancl_into_rtrancl)
  then show ?thesis using that [OF frozen_session_at] by (simp add: s2_def evs_def)
qed

text \<open>The heartbeat thread can complete a send at any time, and the feed can be held up between the store of the
  sequence number and its \<open>sendmsg\<close>.\<close>

lemma heartbeat_goes_out:
  assumes "hb_side f0 s" and "th_hb_pc s = H_check" and "hb_running (df_heartbeat (th_feed s))" and "\<not> faulted s"
  shows "\<exists>s' a r w. (tstep b e eh)\<^sup>*\<^sup>* s s' \<and> th_wire s' = th_wire s @ (Heart, Send a
    (heartbeat_packet (session (df_packet_builder f0)) (df_sent_sequence_number (th_feed s))) r) # w"
proof -
  let ?hb = "df_heartbeat (th_feed s)"
  define s1 where "s1 = s\<lparr>th_hb_pc := H_load\<rparr>"
  have step: "tstep b e eh s s1" using assms(2-4) by (intro tstep.heartbeat) (simp_all add: heartbeat_step_def s1_def)
  have inv: "hb_inv (session (df_packet_builder f0)) ?hb" using assms(1) by (simp add: hb_side_def)
  obtain hb' evs t' where send: "heartbeat_send b eh (th_hb_tick s1) (df_heartbeat (th_feed s1)) (df_sent_sequence_number (th_feed s1)) = Inr (hb', evs, t')"
    "evs = Send (hb_mcast_group ?hb) (heartbeat_packet (session (df_packet_builder f0)) (df_sent_sequence_number (th_feed s)))
      (send_result_at eh (th_hb_tick s)) # (if send_result_at eh (th_hb_tick s) < 0 then [Logged_error] else [])"
    by (rule heartbeat_send_ok [OF inv, of b eh "th_hb_tick s" "df_sent_sequence_number (th_feed s)"]) (auto simp: s1_def)
  have "th_hb_pc s1 = H_load" by (simp add: s1_def)
  then obtain s2 s3 s4 where h: "heartbeat_step b eh s1 = Some s2" "heartbeat_step b eh s2 = Some s3" "heartbeat_step b eh s3 = Some s4"
    "s4 = s1\<lparr>th_feed := (th_feed s1)\<lparr>df_heartbeat := hb'\<rparr>, th_hb_tick := t', th_hb_pc := H_sleep, th_wire := th_wire s1 @ map (Pair Heart) evs\<rparr>"
    using heartbeat_send_pieces [OF _ send(1)] by metis
  have side: "hb_side f0 s1" using assms(1) by (simp add: hb_side_def s1_def)
  note e1 = heartbeat_step_effect [OF side h(1)]
  note e2 = heartbeat_step_effect [OF e1(1) h(2)]
  have nf: "\<not> faulted s1" "\<not> faulted s2" "\<not> faulted s3" using assms(4) e1(2) e2(2) by (simp_all add: faulted_def s1_def)
  have "(tstep b e eh)\<^sup>*\<^sup>* s s4"
    using step tstep.heartbeat [OF h(1) nf(1)] tstep.heartbeat [OF h(2) nf(2)] tstep.heartbeat [OF h(3) nf(3)]
    by (meson converse_rtranclp_into_rtranclp rtranclp.rtrancl_refl)
  moreover have "th_wire s4 = th_wire s @ (Heart, Send (hb_mcast_group ?hb) (heartbeat_packet (session (df_packet_builder f0))
      (df_sent_sequence_number (th_feed s))) (send_result_at eh (th_hb_tick s))) #
      map (Pair Heart) (if send_result_at eh (th_hb_tick s) < 0 then [Logged_error] else [])"
    by (simp add: h(4) s1_def send(2))
  ultimately show ?thesis by blast
qed

lemma stored_reached:
  assumes "session_at b e eh cfg pb_cfg bodies n t f s" and "in_packet (th_pc s)"
  shows "\<exists>s' p. (tstep b e eh)\<^sup>*\<^sup>* s s' \<and> th_pc s' = P_stored p \<and> th_hb_pc s' = th_hb_pc s \<and>
    datagrams_of Data (th_wire s') = datagrams_of Data (th_wire s) \<and> hb_running (df_heartbeat (th_feed s')) = hb_running (df_heartbeat (th_feed s))"
  using assms
proof (induction "turn_rank (th_pc s)" arbitrary: s rule: less_induct)
  case less
  have pk: "th_pc s = P_paused \<or> (\<exists>ts. th_pc s = P_build ts \<or> th_pc s = P_built ts)" using less.prems(2) by (simp add: in_packet_def)
  then have "\<exists>s1. feed_step b e s = Some s1" by (intro feed_step_total) (auto simp: faulted_def)
  then obtain s1 where s1: "feed_step b e s = Some s1" by blast
  note step = tstep.feed [OF s1, of eh]
  have at: "session_at b e eh cfg pb_cfg bodies n t f s1" using session_at_steps [OF less.prems(1) r_into_rtranclp, OF step] .
  have keep: "th_hb_pc s1 = th_hb_pc s" "hb_running (df_heartbeat (th_feed s1)) = hb_running (df_heartbeat (th_feed s))"
    using s1 pk by (auto simp: feed_step_def Let_def dest!: piece_keeps_heartbeat split: sum.splits prod.splits)
  obtain sent where pt: "plan_point b e f (seen f s) s sent" using session_at_invs(1) [OF less.prems(1)] by (auto simp: on_plan_def)
  obtain evs where ev: "plan_point b e f (seen f s1) s1 sent" "th_wire s1 = th_wire s @ map (Pair Data) evs" "datagrams evs = []"
    using plan_point_packet [OF pt pk s1] by blast
  obtain p f' where fin: "finishing b e f (th_pc s) (th_tick s) (seen f s) sent p f'" using pt pk by (auto simp: plan_point_def)
  have pc: "in_packet (th_pc s1) \<or> (\<exists>p. th_pc s1 = P_stored p)"
    by (rule packet_step_cases [OF s1 pk]) (use fin in \<open>auto simp: finishing_def in_packet_def\<close>)
  show ?case
  proof (cases "in_packet (th_pc s1)")
    case True
    then have "turn_rank (th_pc s1) < turn_rank (th_pc s)"
      by (intro packet_step_rank [OF s1 pk]) (auto simp: faulted_def in_packet_def)
    from less.hyps [OF this at True] show ?thesis
      using keep ev(2,3) converse_rtranclp_into_rtranclp [of "tstep b e eh", OF step] by auto
  next
    case False
    then show ?thesis using pc keep ev(2,3) step by auto
  qed
qed

text \<open>A run in which a heartbeat announces the first packet before it is sent.\<close>

lemma sample_plan: "replay_plan sample_feed = [map frame sample_bodies]"
proof -
  have "ds_capacity sample_feed = 1452"
    using sample_feed_ready(3) by (simp add: sample_pb_cfg_def default_packet_builder_config_def)
  then show ?thesis
    unfolding replay_plan_def sample_feed_ready(2) sample_feed_ready(5)
    by (simp add: plan.simps sample_bodies_def sample_not_early length_frame)
qed

lemma sample_builds:
  "\<exists>(s :: threads) ts. session_at sample_build sample_env eh sample_cfg sample_pb_cfg sample_bodies 4 0 sample_feed s \<and>
    th_pc s = P_build ts \<and> th_hb_pc s = H_check \<and> th_wire s = [] \<and> hb_running (df_heartbeat (th_feed s))"
proof -
  let ?f = "sample_feed\<lparr>df_heartbeat := heartbeat_start (df_heartbeat sample_feed)\<rparr>"
  let ?s1 = "sample_threads\<lparr>th_feed := ?f, th_hb_pc := H_check, th_pc := P_loop\<rparr>"
  obtain m where m: "message_at (df_file ?f) (df_file_pos ?f) = Some m" "m = frame (hd sample_bodies)"
    using sample_feed_ready(2) by (cases "message_at (df_file sample_feed) (df_file_pos sample_feed)")
      (auto simp: sample_bodies_def messages_from_Some messages_from_None)
  have "\<not> skips ?f m" using sample_feed_ready(5) sample_not_early by (simp add: skips_def fun_eq_iff)
  moreover have "13 \<le> length m" by (simp add: m(2) sample_bodies_def length_frame)
  ultimately have head: "loop_head sample_build sample_env 0 ?f = Inr (Build (msg_timestamp m), ?f, Suc 0)"
    using loop_head_message [OF _ m(1)] by (simp add: sample_build_def sample_env_def)
  have "tstep sample_build sample_env eh sample_threads ?s1"
    by (intro tstep.feed) (simp add: feed_step_def sample_threads_def)
  moreover have "tstep sample_build sample_env eh ?s1 (?s1\<lparr>th_tick := Suc 0, th_pc := P_build (msg_timestamp m)\<rparr>)"
    using head by (intro tstep.feed) (simp add: feed_step_def sample_threads_def)
  ultimately have "(tstep sample_build sample_env eh)\<^sup>*\<^sup>* sample_threads (?s1\<lparr>th_tick := Suc 0, th_pc := P_build (msg_timestamp m)\<rparr>)"
    by (meson rtranclp.rtrancl_into_rtrancl rtranclp.rtrancl_refl)
  from sample_session_at [OF this sample_threads_init] show ?thesis
    by (intro exI [of _ "?s1\<lparr>th_tick := Suc 0, th_pc := P_build (msg_timestamp m)\<rparr>"] exI [of _ "msg_timestamp m"])
      (simp add: sample_threads_def heartbeat_start_def)
qed

lemma heartbeat_ahead:
  obtains s a r w w' where "session_at sample_build sample_env sample_env sample_cfg sample_pb_cfg sample_bodies 4 0 sample_feed s"
    and "th_wire s = w @ (Heart, Send a (heartbeat_packet sample_session 3) r) # w'" and "datagrams_of Data w = []"
proof -
  let ?steps = "(tstep sample_build sample_env sample_env)\<^sup>*\<^sup>*"
  let ?at = "session_at sample_build sample_env sample_env sample_cfg sample_pb_cfg sample_bodies 4 0 sample_feed"
  obtain s2 ts where s2: "?at s2" "th_pc s2 = P_build ts" "th_hb_pc s2 = H_check" "th_wire s2 = []" "hb_running (df_heartbeat (th_feed s2))"
    using sample_builds by blast
  then have pk: "in_packet (th_pc s2)" by (simp add: in_packet_def)
  obtain s3 p where s3: "?steps s2 s3" "th_pc s3 = P_stored p" "th_hb_pc s3 = H_check" "datagrams_of Data (th_wire s3) = []"
    "hb_running (df_heartbeat (th_feed s3))"
    using stored_reached [OF s2(1) pk] s2(3-5) by auto
  note at3 = session_at_steps [OF s2(1) s3(1)]
  note inv = session_at_invs [OF at3]
  have sess: "session (df_packet_builder sample_feed) = sample_session"
    using sample_feed_ready(4) by (simp add: sample_pb_cfg_def default_packet_builder_config_def)
  obtain sent q f' where q: "finishing sample_build sample_env sample_feed (P_stored p) (th_tick s3) (seen sample_feed s3) sent q f'"
    "th_stored s3 = numbers_after (sent @ [q])" "[] = numbered sample_session 1 sent"
    using inv(1) s3(2,4) sess by (auto simp: on_plan_def plan_point_def)
  have sent: "sent = []" using q(3) by (cases sent) auto
  then have "q = map frame sample_bodies" using q(1) by (auto simp: finishing_def planned_def sample_plan)
  then have "number_after [q] = 3" by (simp add: number_after_def sample_bodies_def)
  moreover have "last (th_stored s3) = number_after ([] @ [q])" unfolding q(2) sent numbers_after_snoc by simp
  ultimately have "df_sent_sequence_number (th_feed s3) = 3" using inv(4) unfolding stores_match_def by simp
  then obtain s4 a r w' where "?steps s3 s4" "th_wire s4 = th_wire s3 @ (Heart, Send a (heartbeat_packet sample_session 3) r) # w'"
    using heartbeat_goes_out [OF inv(2) s3(3,5), of sample_build sample_env sample_env] s3(2) sess by (auto simp: faulted_def)
  then show ?thesis using that session_at_steps [OF at3] s3(4) by blast
qed

section \<open>Properties\<close>

text \<open>
  C3. The heartbeat thread does not disturb the feed. Whatever the file holds and however the two threads are
  interleaved: when the feed thread is done, what it has sent and logged, the clock readings it used and the feed
  it leaves (but for the packet of the heartbeat) are those of \<open>downstream::Feed::start\<close> run by itself; and when
  the process has failed, that run fails in the same way.
\<close>

theorem interleaving_refines_start:
  assumes "downstream_feed_new b so cfg pb_cfg bs rb = Inr f" and "retransmission_buffer_new n = Inr rb"
    and "length bs + unat n + 1 < 2 ^ 64" and "reachable (threads_init f t) (tstep b e eh) s"
  shows "(th_pc s = P_done \<longrightarrow> (\<exists>fuel hb. downstream_start fuel b e t f =
      Some (Inr ((th_feed s)\<lparr>df_heartbeat := hb\<rparr>, feed_events s, th_tick s)) \<and> \<not> hb_running hb)) \<and>
    (th_pc s = P_fault err \<longrightarrow> (\<exists>fuel. downstream_start fuel b e t f = Some (Inl err)))"
proof -
  have "hb_inv (session (df_packet_builder f)) (df_heartbeat f)" using ds_invD(8) [OF new_feed_inv(1) [OF assms(1-3)]] .
  then have ref: "refines b e t f s" by (rule threads_invD(1) [OF assms(4)])
  show ?thesis
  proof (intro conjI impI)
    assume "th_pc s = P_done"
    then obtain fuel where "downstream_start fuel b e t f =
        Some (Inr ((th_feed s)\<lparr>df_heartbeat := heartbeat_stop (heartbeat_start (df_heartbeat f))\<rparr>, feed_events s, th_tick s))"
      using ref by (auto simp: refines_def Let_def)
    moreover have "\<not> hb_running (heartbeat_stop hb)" for hb by (simp add: heartbeat_stop_def)
    ultimately show "\<exists>fuel hb. downstream_start fuel b e t f =
      Some (Inr ((th_feed s)\<lparr>df_heartbeat := hb\<rparr>, feed_events s, th_tick s)) \<and> \<not> hb_running hb" by blast
  qed (use ref in \<open>auto simp: refines_def Let_def\<close>)
qed

theorem interleaving_refines_start_witness:
  "\<exists>s fuel hb. th_pc s = P_done \<and> downstream_start fuel sample_build sample_env 0 sample_feed =
    Some (Inr ((th_feed s)\<lparr>df_heartbeat := hb\<rparr>, feed_events s, th_tick s)) \<and> \<not> hb_running hb"
proof -
  obtain s where s: "session_at sample_build sample_env sample_env sample_cfg sample_pb_cfg sample_bodies 4 0 sample_feed s" "th_pc s = P_done"
    by (rule sample_done)
  have r: "reachable (threads_init sample_feed 0) (tstep sample_build sample_env sample_env) s" using s(1) by (rule session_atE)
  have len: "length (concat (map frame sample_bodies)) + unat (4 :: u64) + 1 < 2 ^ 64" by (simp add: sample_bodies_def length_frame)
  show ?thesis using interleaving_refines_start [OF sample_feed sample_rb_new len r] s(2) by blast
qed

text \<open>
  Every completed session has delivered the file, whatever the interleaving: a receiver on any host decodes the
  data packets to the bodies of the file in order, less the leading ones that \<open>skip_before\<close> passes over, numbered
  without gaps from 1; every end-of-session packet carries the number after the last message; and the ring buffer has
  recorded as many messages as were sent.
\<close>

lemma done_delivers:
  assumes "session_at b e eh cfg pb_cfg bodies n t f s" and "th_pc s = P_done" and "cfg_MTU pb_cfg < 65536"
    and "skips_first (early cfg) (map frame bodies)" and "sent = dropWhile (\<lambda>body. early cfg (frame body)) bodies"
  shows "map (receive_packet b') (datagrams_of Data (th_wire s)) = map Inr (decoded (cfg_session pb_cfg) 1 (replay_plan f)) \<and>
    concat (map snd (decoded (cfg_session pb_cfg) 1 (replay_plan f))) = sent \<and>
    set (datagrams_of Eos (th_wire s)) \<subseteq> {header_of (cfg_session pb_cfg) (word_of_nat (Suc (length sent))) end_of_session_msg_count} \<and>
    rb_write_seq (df_retransmission_buffer (th_feed s)) = word_of_nat (length sent)"
proof -
  note f = session_at_feed [OF assms(1)]
  note inv = session_at_invs [OF assms(1)]
  note plan = session_at_plan [OF assms(1,4), folded assms(5)]
  have "after_join (th_pc s)" by (simp add: assms(2))
  note fin = on_plan_end [OF inv(1) this]
  have len: "length (concat (replay_plan f)) = length sent" by (simp add: plan)
  have "\<forall>body \<in> set bodies. length body < 65536" using f(10) by (auto simp: playable_def)
  then have "map (receive_packet b') (datagrams_of Data (th_wire s)) = map Inr (decoded (cfg_session pb_cfg) 1 (replay_plan f))"
    unfolding fin(1) f(4) replay_plan_def f(2) f(3) using assms(3) by (intro receive_plan [OF f(6)]) simp_all
  moreover have "concat (map snd (decoded (cfg_session pb_cfg) 1 (replay_plan f))) = sent"
    by (simp add: decoded_bodies plan comp_def frame_def)
  moreover have "set (datagrams_of Eos (th_wire s)) \<subseteq> {header_of (cfg_session pb_cfg) (word_of_nat (Suc (length sent))) end_of_session_msg_count}"
    using inv(1) by (simp add: on_plan_def eos_of_def number_after_def f(4) len)
  ultimately show ?thesis using fin(2) len by simp
qed

text \<open>
  C12. The end of a session is final: once an end-of-session packet is on the wire, no data packet and no heartbeat
  follows it, in any interleaving of the feed and its heartbeat thread and for any file. The join in \<open>Heartbeat::stop\<close> is
  what makes it so.
\<close>

theorem end_of_session_is_last:
  assumes "downstream_feed_new b so cfg pb_cfg bs rb = Inr f" and "retransmission_buffer_new n = Inr rb"
    and "length bs + unat n + 1 < 2 ^ 64" and "reachable (threads_init f t) (tstep b e eh) s"
    and "th_wire s = w1 @ (Eos, ev) # w2"
  shows "\<forall>x \<in> set w2. fst x = Eos"
proof -
  have "hb_inv (session (df_packet_builder f)) (df_heartbeat f)" using ds_invD(8) [OF new_feed_inv(1) [OF assms(1-3)]] .
  then have "in_step s" by (rule threads_invD(3) [OF assms(4)])
  moreover have "Eos \<in> fst ` set (th_wire s)" using assms(5) by force
  ultimately obtain v1 v2 where v: "w1 @ (Eos, ev) # w2 = v1 @ v2" "Eos \<notin> fst ` set v1" "fst ` set v2 \<subseteq> {Eos}"
    using assms(5) by (auto simp: in_step_def eos_last_def split: if_splits)
  have "(Eos, ev) \<notin> set v1" using v(2) by force
  then have "set w2 \<subseteq> set v2" using v(1) by (auto simp: append_eq_append_conv2 append_eq_Cons_conv Cons_eq_append_conv)
  then show ?thesis using v(3) by blast
qed

theorem end_of_session_is_last_witness:
  "\<exists>(s :: threads) w1 ev w2. th_wire s = w1 @ (Eos, ev) # w2 \<and> w2 \<noteq> [] \<and> (\<forall>x \<in> set w2. fst x = Eos)"
proof -
  obtain s w ev w2 where s: "session_at sample_build frozen_env sample_env sample_cfg sample_pb_cfg sample_bodies 4 0 sample_feed s"
    and w: "th_wire s = w @ (Eos, ev) # w2" "w2 \<noteq> []" by (rule frozen_eos)
  have r: "reachable (threads_init sample_feed 0) (tstep sample_build frozen_env sample_env) s" using s by (rule session_atE)
  have len: "length (concat (map frame sample_bodies)) + unat (4 :: u64) + 1 < 2 ^ 64" by (simp add: sample_bodies_def length_frame)
  show ?thesis using end_of_session_is_last [OF sample_feed sample_rb_new len r w(1)] w
by blast
qed

subsection \<open>Heartbeats\<close>

text \<open>
  C13. Every heartbeat of a session, in every interleaving, decodes to the session, no messages, and the number
  after some first \<open>j\<close> packets of the schedule; and when it went out, at most one of these packets was still to be
  sent: a heartbeat never announces more than the packet that the feed is about to send.
\<close>

theorem heartbeats_announce_schedule:
  assumes "session_at b e eh cfg pb_cfg bodies n t f s" and "th_wire s = w1 @ (Heart, Send a d r) # w2"
  shows "\<exists>j. j \<le> length (replay_plan f) \<and> j \<le> Suc (length (datagrams_of Data w1)) \<and> length d = 20 \<and>
    parse_header b' d = Inr \<lparr>hdr_session = cfg_session pb_cfg,
      hdr_sequence_number = word_of_nat (Suc (length (concat (take j (replay_plan f))))), hdr_message_count = heartbeat_msg_count\<rparr>"
proof -
  note inv = session_at_invs [OF assms(1)]
  have sess: "length (cfg_session pb_cfg) = 10" using session_at_feed(6) [OF assms(1)] .
  obtain sent where st: "th_stored s = numbers_after sent" and later: "\<exists>later. replay_plan f = sent @ later"
    using inv(1) by (rule on_plan_stored)
  have "announces (cfg_session pb_cfg) (th_stored s) (length (datagrams_of Data w1)) d"
    using inv(5) assms(2) unfolding hearts_match_def by blast
  then obtain j where j: "j \<le> Suc (length (datagrams_of Data w1))" "j \<le> length sent"
    "d = heartbeat_packet (cfg_session pb_cfg) (numbers_after sent ! j)"
    unfolding announces_def st by (auto simp: less_Suc_eq_le)
  have "take j (replay_plan f) = take j sent" "j \<le> length (replay_plan f)" using later j(2) by auto
  then have "d = header_of (cfg_session pb_cfg) (word_of_nat (Suc (length (concat (take j (replay_plan f)))))) heartbeat_msg_count @ []"
    using j(2,3) by (simp add: nth_numbers_after heartbeat_packet_def number_after_def)
  then show ?thesis
    using j(1) \<open>j \<le> length (replay_plan f)\<close> parse_header_of [OF sess] sess by (metis append_Nil2 length_header_of)
qed

theorem heartbeats_announce_schedule_witness:
  "\<exists>(s :: threads) w1 a d r w2 j. th_wire s = w1 @ (Heart, Send a d r) # w2 \<and> datagrams_of Data w1 = [] \<and>
    d = heartbeat_packet sample_session 3 \<and> j \<le> Suc 0 \<and>
    parse_header release_build d = Inr \<lparr>hdr_session = sample_session,
      hdr_sequence_number = word_of_nat (Suc (length (concat (take j (replay_plan sample_feed))))), hdr_message_count = heartbeat_msg_count\<rparr>"
proof -
  obtain s a r w w' where s: "session_at sample_build sample_env sample_env sample_cfg sample_pb_cfg sample_bodies 4 0 sample_feed s"
    and w: "th_wire s = w @ (Heart, Send a (heartbeat_packet sample_session 3) r) # w'" "datagrams_of Data w = []" by (rule heartbeat_ahead)
  have "cfg_session sample_pb_cfg = sample_session" by (simp add: sample_pb_cfg_def default_packet_builder_config_def)
  then obtain j where "j \<le> Suc 0" "parse_header release_build (heartbeat_packet sample_session 3) = Inr \<lparr>hdr_session = sample_session,
      hdr_sequence_number = word_of_nat (Suc (length (concat (take j (replay_plan sample_feed))))), hdr_message_count = heartbeat_msg_count\<rparr>"
    using heartbeats_announce_schedule [OF s w(1), of release_build] w(2) by (metis list.size(3))
  then show ?thesis using w by blast
qed

subsection \<open>Retransmission while the session runs\<close>

text \<open>What a worker has to share with the feed: the file and the configuration of the packet builder.\<close>

definition worker_of :: "retransmission_feed \<Rightarrow> packet_builder_config \<Rightarrow> bytes list \<Rightarrow> bool" where
  "worker_of rf pb_cfg bodies \<longleftrightarrow>
     rf_inv rf \<and> rf_file rf = concat (map frame bodies) \<and>
     pb_config (rf_packet_builder rf) = (cfg_session pb_cfg, cfg_MTU pb_cfg - 20, cfg_min_message_size pb_cfg)"

lemma session_ring:
  assumes "session_at b e eh cfg pb_cfg bodies n t f s"
  obtains sent posns later where "rb_rep (df_retransmission_buffer (th_feed s)) posns"
    and "rb_size (df_retransmission_buffer (th_feed s)) = unat n" and "replay_positions f = posns @ later"
    and "datagrams_of Data (th_wire s) = numbered (cfg_session pb_cfg) 1 sent" and "\<exists>rest. replay_plan f = sent @ rest"
    and "length (concat sent) \<le> length posns"
    and "unat (rb_write_seq (df_retransmission_buffer (th_feed s))) = length posns"
proof -
  note f = session_at_feed [OF assms]
  obtain sent posns where h: "ring_history f (df_retransmission_buffer (seen f s)) sent posns"
    "datagrams_of Data (th_wire s) = numbered (session (df_packet_builder f)) 1 sent"
    using session_at_invs(1) [OF assms] by (rule on_plan_ring)
  then have rb: "rb_rep (df_retransmission_buffer (th_feed s)) posns" by (simp add: ring_history_def)
  have "length posns < 2 ^ 64" using rb_repD(2) [OF rb] by simp
  then have "unat (rb_write_seq (df_retransmission_buffer (th_feed s))) = length posns"
    using rb_repD(3) [OF rb] by (simp add: unat_word_of_nat_less)
  then show ?thesis using that rb h f(4,8) by (auto simp: ring_history_def)
qed

lemma worker_answers:
  assumes "session_at b e eh cfg pb_cfg bodies n t f s" and "skips_first (early cfg) (map frame bodies)" and "worker_of rf pb_cfg bodies"
    and "k = unat (rb_write_seq (df_retransmission_buffer (th_feed s)))" and "1 \<le> i" and "i \<le> k" and "k < i + unat n"
    and "take 20 d = header_of (cfg_session pb_cfg) (word_of_nat i) count"
  obtains rf' where "handle_request b e' t' rf (df_retransmission_buffer (th_feed s)) (Recv_datagram d addr) =
      Inr (rf', Send addr (mold_packet (cfg_session pb_cfg) (word_of_nat i)
          (fit (cfg_MTU pb_cfg - 20) (take (unat count) (drop (i - 1) (concat (replay_plan f)))))) (send_result_at e' t') #
        (if send_result_at e' t' < 0 then [Logged_error] else []), Suc t')"
    and "rf_inv rf'" and "i \<le> length (concat (replay_plan f))"
proof -
  note f = session_at_feed [OF assms(1)]
  note w = assms(3) [unfolded worker_of_def]
  obtain posns later where rb: "rb_rep (df_retransmission_buffer (th_feed s)) posns"
    "rb_size (df_retransmission_buffer (th_feed s)) = unat n" "replay_positions f = posns @ later" "k = length posns"
    using assms(4) by (rule_tac session_ring [OF assms(1)]) simp
  have skips: "skips_first (skips f) (messages_from (df_file f) (df_file_pos f))" using assms(2) unfolding f(2,5) .
  obtain p where p: "replay_positions f = msg_positions p (concat (replay_plan f))" "messages_from (df_file f) p = concat (replay_plan f)"
    using replay_positions_skips_first [OF replay_readyD(4) [OF f(1)] skips] by metis
  have ms: "concat (replay_plan f) = messages_from (rf_file rf) p" using p(2) w f(7) by simp
  have pos: "msg_positions p (concat (replay_plan f)) = posns @ later" using p(1) rb(3) by simp
  have rf: "session (rf_packet_builder rf) = cfg_session pb_cfg" "pb_MTU (rf_packet_builder rf) - 20 = cfg_MTU pb_cfg - 20"
    using w by (simp_all add: pb_config_def)
  have adm: "\<forall>m \<in> set (concat (replay_plan f)). admits b (pb_config (rf_packet_builder rf)) m"
    using f(10) w set_dropWhileD by (fastforce simp: session_at_plan [OF assms(1,2)] playable_def admits_def length_frame)
  have "i \<le> length (concat (replay_plan f))" using arg_cong [OF pos, of length] assms(6) rb(4) by simp
  then show ?thesis
    using retransmission_of_replayed [OF rb(1) pos ms assms(5) _ _ _ adm, of d count e' t' addr] that
      assms(6-8) rb(2,4) rf w replay_readyD(6) [OF f(1)] by auto
qed

text \<open>
  C5. Requests are answered while the session runs. In every state of the two threads of the feed, a worker that shares
  the file and the ring buffer answers a request for \<open>count\<close> messages from number \<open>i\<close> on, \<open>i\<close> among the last \<open>n\<close> numbers given
  out so far, with one datagram to the client; any receiver decodes it to the session, the number \<open>i\<close> and at least one
  and at most \<open>count\<close> of the bodies that the feed sends under the numbers \<open>i\<close>, \<open>i + 1\<close>, \<open>\<dots>\<close>.
\<close>

theorem retransmission_during_session:
  assumes "session_at b e eh cfg pb_cfg bodies n t f s" and "skips_first (early cfg) (map frame bodies)"
    and "sent = dropWhile (\<lambda>body. early cfg (frame body)) bodies" and "worker_of rf pb_cfg bodies"
    and "k = unat (rb_write_seq (df_retransmission_buffer (th_feed s)))" and "1 \<le> i" and "i \<le> k" and "k < i + unat n"
    and "0 < count" and "take 20 d = header_of (cfg_session pb_cfg) (word_of_nat i) count"
  shows "\<exists>rf' reply r t'' j. handle_request b e' t' rf (df_retransmission_buffer (th_feed s)) (Recv_datagram d addr) = Inr (rf', r, t'') \<and>
    rf_inv rf' \<and> datagrams r = [reply] \<and> 1 \<le> j \<and> j \<le> unat count \<and>
    receive_packet b' reply = Inr (\<lparr>hdr_session = cfg_session pb_cfg, hdr_sequence_number = word_of_nat i,
      hdr_message_count = word_of_nat j\<rparr>, take j (drop (i - 1) sent))"
proof -
  note f = session_at_feed [OF assms(1)]
  note plan = session_at_plan [OF assms(1,2), folded assms(3)]
  let ?cap = "cfg_MTU pb_cfg - 20"
  obtain rf' where req: "handle_request b e' t' rf (df_retransmission_buffer (th_feed s)) (Recv_datagram d addr) =
      Inr (rf', Send addr (mold_packet (cfg_session pb_cfg) (word_of_nat i) (fit ?cap (take (unat count) (drop (i - 1) (map frame sent)))))
        (send_result_at e' t') # (if send_result_at e' t' < 0 then [Logged_error] else []), Suc t')" "rf_inv rf'" "i \<le> length sent"
    using worker_answers [OF assms(1,2,4-8,10), of e' t' addr] by (metis plan length_map)
  have pl: "length body < 65536 \<and> length (frame body) \<le> ?cap" if "body \<in> set bodies" for body
    using that f(10) by (auto simp: playable_def length_frame)
  have sub: "set sent \<subseteq> set bodies" unfolding assms(3) using set_dropWhileD by fast
  have lt: "i - 1 < length sent" using assms(6) req(3) by simp
  have "unat count < 65536" using unsigned_less [of count, where 'a = nat] by simp
  moreover have "0 < unat count" using assms(9) by (simp add: unat_gt_0 word_neq_0_conv)
  moreover have "\<forall>body \<in> set (drop (i - 1) sent). length body < 65536" using pl sub by (meson in_set_dropD subsetD)
  moreover have "length (frame (hd (drop (i - 1) sent))) \<le> ?cap" using lt pl sub by (simp add: hd_drop_conv_nth subset_iff)
  ultimately obtain j where "1 \<le> j" "j \<le> unat count"
    "receive_packet b' (mold_packet (cfg_session pb_cfg) (word_of_nat i) (fit ?cap (take (unat count) (map frame (drop (i - 1) sent))))) =
      Inr (\<lparr>hdr_session = cfg_session pb_cfg, hdr_sequence_number = word_of_nat i, hdr_message_count = word_of_nat j\<rparr>,
        take j (drop (i - 1) sent))"
    using receive_fit [OF f(6), where bodies = "drop (i - 1) sent" and cap = ?cap and c = "unat count"] lt
    by (metis drop_eq_Nil not_le)
  then show ?thesis using req(1,2) unfolding drop_map [symmetric] by (intro exI conjI) (assumption | simp)+
qed

lemma sample_worker_of: "worker_of (sample_worker (concat (map frame sample_bodies))) sample_pb_cfg sample_bodies"
  using sample_worker_fields by (simp add: worker_of_def sample_pb_cfg_def default_packet_builder_config_def default_min_message_size_def)

lemma sample_done_facts:
  obtains s where "session_at sample_build sample_env sample_env sample_cfg sample_pb_cfg sample_bodies 4 0 sample_feed s"
    and "th_pc s = P_done" and "rb_write_seq (df_retransmission_buffer (th_feed s)) = 2"
    and "datagrams_of Data (th_wire s) = [mold_packet sample_session 1 (map frame sample_bodies)]"
proof -
  obtain s where s: "session_at sample_build sample_env sample_env sample_cfg sample_pb_cfg sample_bodies 4 0 sample_feed s" "th_pc s = P_done"
    by (rule sample_done)
  have "after_join (th_pc s)" by (simp add: s(2))
  note fin = on_plan_end [OF session_at_invs(1) [OF s(1)] this]
  show ?thesis using that [OF s] fin session_at_feed(4) [OF s(1)]
    by (simp add: sample_plan sample_pb_cfg_def default_packet_builder_config_def) (simp add: sample_bodies_def)
qed

theorem retransmission_during_session_witness:
  "\<exists>(s :: threads) rf' reply r t'' j. handle_request sample_build sample_env 7 (sample_worker (concat (map frame sample_bodies)))
      (df_retransmission_buffer (th_feed s)) (Recv_datagram (header_of sample_session 2 5) sample_address) = Inr (rf', r, t'') \<and>
    datagrams r = [reply] \<and> 1 \<le> j \<and> j \<le> 5 \<and>
    receive_packet release_build reply = Inr (\<lparr>hdr_session = sample_session, hdr_sequence_number = 2,
      hdr_message_count = word_of_nat j\<rparr>, take j (drop 1 sample_bodies))"
proof -
  obtain s where s: "session_at sample_build sample_env sample_env sample_cfg sample_pb_cfg sample_bodies 4 0 sample_feed s"
    "th_pc s = P_done" "rb_write_seq (df_retransmission_buffer (th_feed s)) = 2" by (rule sample_done_facts)
  have cfg: "cfg_session sample_pb_cfg = sample_session" "length sample_session = 10"
    "sample_bodies = dropWhile (\<lambda>body. early sample_cfg (frame body)) sample_bodies" "2 = unat (rb_write_seq (df_retransmission_buffer (th_feed s)))"
    using s(3) by (simp_all add: sample_pb_cfg_def default_packet_builder_config_def sample_bodies_def sample_not_early sample_session_def)
  show ?thesis
    using retransmission_during_session [OF s(1) sample_skips_first cfg(3) sample_worker_of cfg(4), of 2 5 "header_of sample_session 2 5"
        sample_env 7 sample_address release_build] cfg(1,2) by simp blast
qed

lemma numbered_packet:
  assumes "d \<in> set (numbered sess n ps)"
  obtains pre p post where "ps = pre @ p # post" and "d = mold_packet sess (word_of_nat (n + length (concat pre))) p"
  using assms
proof (induction sess n ps arbitrary: thesis rule: numbered.induct)
  case (2 sess n p ps)
  show ?case
  proof (cases "d \<in> set (numbered sess (n + length p) ps)")
    case True
    then obtain pre q post where "ps = pre @ q # post" "d = mold_packet sess (word_of_nat (n + length p + length (concat pre))) q"
      using "2.IH" by blast
    then show ?thesis using "2.prems"(1) [of "p # pre" q post] by (simp add: add.assoc)
  next
    case False
    then show ?thesis using "2.prems"(1) [of "[]" p ps] "2.prems"(2) by simp
  qed
qed simp

lemma packet_had_again:
  assumes "session_at b e eh cfg pb_cfg bodies n t f s" and "skips_first (early cfg) (map frame bodies)"
    and "worker_of rf pb_cfg bodies" and "cfg_MTU pb_cfg < 65536"
    and "d \<in> set (datagrams_of Data (th_wire s))" and "parse_header b' d = Inr h"
    and "unat (rb_write_seq (df_retransmission_buffer (th_feed s))) < unat (hdr_sequence_number h) + unat n"
  shows "\<exists>rf'. handle_request b e' t' rf (df_retransmission_buffer (th_feed s)) (Recv_datagram (take 20 d) addr) =
      Inr (rf', Send addr d (send_result_at e' t') # (if send_result_at e' t' < 0 then [Logged_error] else []), Suc t') \<and> rf_inv rf'"
proof -
  note f = session_at_feed [OF assms(1)]
  let ?rb = "df_retransmission_buffer (th_feed s)" and ?cap = "cfg_MTU pb_cfg - 20"
  obtain sent posns where r: "rb_rep ?rb posns" "datagrams_of Data (th_wire s) = numbered (cfg_session pb_cfg) 1 sent"
    "\<exists>rest. replay_plan f = sent @ rest" "length (concat sent) \<le> length posns" "unat (rb_write_seq ?rb) = length posns"
    using session_ring [OF assms(1)] by metis
  obtain pre p post where p: "sent = pre @ p # post" "d = mold_packet (cfg_session pb_cfg) (word_of_nat (1 + length (concat pre))) p"
    using assms(5) unfolding r(2) by (rule numbered_packet)
  define i where "i = Suc (length (concat pre))"
  obtain rest where plan: "replay_plan f = pre @ p # rest" using r(3) p(1) by auto
  then have "p \<in> set (replay_plan f)" by simp
  then have mem: "p \<in> set (plan (early cfg) ?cap (map frame bodies))" unfolding replay_plan_def f(2,3,5) .
  note pp = plan_packet [OF mem]
  have cnt: "length p < 65536" using packet_message_count [OF mem] assms(4) by (simp add: length_frame)
  have "0 < length p" using pp by simp
  then have i: "1 \<le> i" "i \<le> length posns" using r(4) unfolding p(1) i_def by (simp_all del: length_greater_0_conv)
  have "length posns < 2 ^ 64" using rb_repD(2) [OF r(1)] by simp
  then have ui: "unat (word_of_nat i :: u64) = i" using i(2) by (intro unat_word_of_nat_less) simp
  have hdr: "d = header_of (cfg_session pb_cfg) (word_of_nat i) (word_of_nat (length p)) @ concat p"
    using p(2) by (simp add: mold_packet_def i_def)
  then have "hdr_sequence_number h = word_of_nat i" using assms(6) parse_header_of [OF f(6)] by auto
  then have win: "length posns < i + unat n" using assms(7) r(5) ui by simp
  have "take 20 (take 20 d) = header_of (cfg_session pb_cfg) (word_of_nat i) (word_of_nat (length p))" using hdr f(6) by simp
  from worker_answers [OF assms(1-3) r(5) [symmetric] i win this, of e' t' addr]
  obtain rf' where "handle_request b e' t' rf ?rb (Recv_datagram (take 20 d) addr) =
      Inr (rf', Send addr (mold_packet (cfg_session pb_cfg) (word_of_nat i)
          (fit ?cap (take (unat (word_of_nat (length p) :: u16)) (drop (i - 1) (concat (replay_plan f)))))) (send_result_at e' t') #
        (if send_result_at e' t' < 0 then [Logged_error] else []), Suc t')" "rf_inv rf'" by metis
  moreover have "take (unat (word_of_nat (length p) :: u16)) (drop (i - 1) (concat (replay_plan f))) = p"
    using cnt by (simp add: plan i_def unat_of_nat)
  moreover have "fit ?cap p = p" using pp by (intro fit_all) simp
  ultimately show ?thesis using p(2) by (auto simp: i_def)
qed

text \<open>
  C4. A packet that was sent can be had again, byte for byte: in every state of a running session, a worker that is sent the
  header of a data packet that is on the wire, its first message still in the window of the ring, answers with that very
  datagram. This is what \<open>E2ETestRetransmission.ValidRange\<close> tests on one packet.
\<close>

theorem sent_packet_retransmitted:
  assumes "session_at b e eh cfg pb_cfg bodies n t f s" and "skips_first (early cfg) (map frame bodies)"
    and "worker_of rf pb_cfg bodies" and "cfg_MTU pb_cfg < 65536"
    and "d \<in> set (datagrams_of Data (th_wire s))" and "parse_header b' d = Inr h"
    and "unat (rb_write_seq (df_retransmission_buffer (th_feed s))) < unat (hdr_sequence_number h) + unat n"
  shows "\<exists>rf'. handle_request b e' t' rf (df_retransmission_buffer (th_feed s)) (Recv_datagram (take 20 d) addr) =
      Inr (rf', Send addr d (send_result_at e' t') # (if send_result_at e' t' < 0 then [Logged_error] else []), Suc t') \<and> rf_inv rf'"
  using packet_had_again [OF assms] .

theorem sent_packet_retransmitted_witness:
  "\<exists>(s :: threads) d rf'. d \<in> set (datagrams_of Data (th_wire s)) \<and>
    handle_request sample_build sample_env 7 (sample_worker (concat (map frame sample_bodies)))
      (df_retransmission_buffer (th_feed s)) (Recv_datagram (take 20 d) sample_address) =
      Inr (rf', [Send sample_address d 48], 8)"
proof -
  obtain s where s: "session_at sample_build sample_env sample_env sample_cfg sample_pb_cfg sample_bodies 4 0 sample_feed s"
    "rb_write_seq (df_retransmission_buffer (th_feed s)) = 2"
    "datagrams_of Data (th_wire s) = [mold_packet sample_session 1 (map frame sample_bodies)]" by (rule sample_done_facts)
  let ?d = "mold_packet sample_session 1 (map frame sample_bodies)"
  have d: "?d \<in> set (datagrams_of Data (th_wire s))" using s(3) by simp
  have "length sample_session = 10" by (simp add: sample_session_def)
  then have h: "parse_header release_build ?d = Inr \<lparr>hdr_session = sample_session, hdr_sequence_number = 1,
      hdr_message_count = word_of_nat (length sample_bodies)\<rparr>"
    unfolding mold_packet_def by (subst parse_header_of) simp_all
  have mtu: "cfg_MTU sample_pb_cfg < 65536" by (simp add: sample_pb_cfg_def default_packet_builder_config_def)
  have "\<exists>rf'. handle_request sample_build sample_env 7 (sample_worker (concat (map frame sample_bodies)))
      (df_retransmission_buffer (th_feed s)) (Recv_datagram (take 20 ?d) sample_address) = Inr (rf', [Send sample_address ?d 48], 8)"
    using sent_packet_retransmitted [OF s(1) sample_skips_first sample_worker_of mtu d h, of sample_env 7 sample_address] s(2)
    by (auto simp: sample_env_def)
  then show ?thesis using d by blast
qed

end
