(* ===== verification/E2E_Client.thy ===== *)
theory E2E_Client
  imports Concurrent_Session
begin

text \<open>
  The clients of the end-to-end tests (\<open>src/tests/e2e/tests/e2e.cpp\<close>): the receiver of \<open>LifeCycleToShutdown\<close>, which follows
  a session datagram by datagram, and the clients of \<open>ValidRange\<close> and \<open>OutOfBounds\<close>, which ask for a retransmission. The results
  of their \<open>recv\<close> calls are arguments. The theorems run them against the sessions of \<open>Concurrent_Session\<close>: on a wire that
  loses and reorders nothing no expectation fails, whatever the interleaving and wherever the run is cut off. The
  fixtures of these tests, and the tests on their own file and configuration, are in \<open>Test_Fixtures\<close>.
\<close>

subsection \<open>Receiving\<close>

datatype client_recv = Client_datagram bytes | Client_error int

definition count_messages :: "build \<Rightarrow> bytes \<Rightarrow> u16 \<Rightarrow> u16 res" where
  "count_messages b payload count =
     andThen (for_each_message b payload 0 (unat count)) (\<lambda>msgs. Inr (word_of_nat (length msgs)))"

text \<open>The state of \<open>LifeCycleToShutdown\<close>; \<open>lc_failures\<close> counts the failed expectations. A failed \<open>ASSERT\<close> also ends the test.\<close>

record lifecycle =
  lc_next_expected_seq :: "u64 option"
  lc_eos_count :: nat
  lc_got_heartbeat :: bool
  lc_failures :: nat

definition lifecycle_init :: lifecycle where
  "lifecycle_init = \<lparr>lc_next_expected_seq = None, lc_eos_count = 0, lc_got_heartbeat = False, lc_failures = 0\<rparr>"

definition expect :: "bool \<Rightarrow> lifecycle \<Rightarrow> lifecycle" where
  "expect c st = (if c then st else st\<lparr>lc_failures := Suc (lc_failures st)\<rparr>)"

definition lifecycle_packet :: "build \<Rightarrow> bytes \<Rightarrow> nat \<Rightarrow> bytes \<Rightarrow> lifecycle \<Rightarrow> (control \<times> lifecycle) res" where
  "lifecycle_packet b sess expected_eos_count bs st =
     andThen (parse_header b bs) (\<lambda>header.
     let st1 = expect (hdr_session header = sess) (expect (header_length \<le> length bs) st) in
     if is_heartbeat header then Inr (Continue, st1\<lparr>lc_got_heartbeat := True\<rparr>)
     else if is_end_of_session header then
       (case lc_next_expected_seq st1 of
          None \<Rightarrow> Inr (Break, expect False st1)
        | Some next \<Rightarrow>
            let st2 = expect (hdr_sequence_number header = next) st1; st3 = st2\<lparr>lc_eos_count := Suc (lc_eos_count st2)\<rparr> in
            Inr (if expected_eos_count \<le> lc_eos_count st3 then Break else Continue, st3))
     else
       let (next, st2) = (case lc_next_expected_seq st1 of
           None \<Rightarrow> (hdr_sequence_number header, st1)
         | Some next \<Rightarrow> (next, expect (hdr_sequence_number header = next) st1)) in
       andThen (message_block_span b bs) (\<lambda>message_block.
       andThen (count_messages b message_block (hdr_message_count header)) (\<lambda>n.
       Inr (Continue, (expect (n = hdr_message_count header) st2)
         \<lparr>lc_next_expected_seq := Some (next + word_of_nat (unat (hdr_message_count header)))\<rparr>))))"

text \<open>One turn of its loop. \<open>recv\<close> cuts a datagram to the size of the buffer.\<close>

definition lifecycle_step :: "build \<Rightarrow> bytes \<Rightarrow> nat \<Rightarrow> nat \<Rightarrow> client_recv \<Rightarrow> lifecycle \<Rightarrow> (control \<times> lifecycle) res" where
  "lifecycle_step b sess buffer_size expected_eos_count r st =
     (case r of
        Client_error err \<Rightarrow>
          Inr (Break, if err = EAGAIN then expect (lc_eos_count st = expected_eos_count) st else expect False st)
      | Client_datagram d \<Rightarrow> lifecycle_packet b sess expected_eos_count (take buffer_size d) st)"

fun lifecycle_run :: "build \<Rightarrow> bytes \<Rightarrow> nat \<Rightarrow> nat \<Rightarrow> client_recv list \<Rightarrow> lifecycle \<Rightarrow> (control \<times> lifecycle) res" where
  "lifecycle_run b sess buffer_size expected_eos_count [] st = Inr (Continue, st)"
| "lifecycle_run b sess buffer_size expected_eos_count (r # rs) st =
     andThen (lifecycle_step b sess buffer_size expected_eos_count r st) (\<lambda>(c, st').
     if c = Break then Inr (Break, st') else lifecycle_run b sess buffer_size expected_eos_count rs st')"

lemma lifecycle_run_snoc:
  "lifecycle_run b sess sz n (rs @ [r]) st =
     andThen (lifecycle_run b sess sz n rs st) (\<lambda>(c, st'). if c = Break then Inr (Break, st') else lifecycle_step b sess sz n r st')"
proof (induction rs arbitrary: st)
  case Nil
  show ?case by (cases "lifecycle_step b sess sz n r st") (auto, (metis (full_types) control.exhaust)+)
next
  case (Cons r' rs)
  then show ?case by (cases "lifecycle_step b sess sz n r' st") auto
qed

subsection \<open>The wire of a session\<close>

text \<open>What the receiver relies on, packet by packet.\<close>

definition proper_wire :: "bytes \<Rightarrow> bytes list list \<Rightarrow> (origin \<times> out_event) list \<Rightarrow> bool" where
  "proper_wire sess packets w \<longleftrightarrow>
     (\<exists>rest. numbered sess 1 packets = datagrams_of Data w @ rest) \<and>
     (\<forall>w1 a d r w2. w = w1 @ (Heart, Send a d r) # w2 \<longrightarrow> (\<exists>q. d = heartbeat_packet sess q)) \<and>
     (\<forall>w1 a d r w2. w = w1 @ (Eos, Send a d r) # w2 \<longrightarrow>
        d = header_of sess (number_after packets) end_of_session_msg_count \<and> datagrams_of Data w1 = numbered sess 1 packets)"

lemma proper_wire_prefix: "proper_wire sess packets (w @ w') \<Longrightarrow> proper_wire sess packets w"
  unfolding proper_wire_def by (metis append.assoc append_Cons datagrams_of_simps(2))

lemma eos_sent_all:
  assumes "session_at b e eh cfg pb_cfg bodies n t f s" and "Eos \<in> fst ` set (th_wire s)"
  shows "datagrams_of Data (th_wire s) = numbered (cfg_session pb_cfg) 1 (replay_plan f)" and "eos_last (th_wire s)"
proof -
  note inv = session_at_invs [OF assms(1)]
  have pc: "after_join (th_pc s) \<or> faulted s" and "eos_last (th_wire s)" using inv(3) assms(2) by (auto simp: in_step_def split: if_splits)
  then show "eos_last (th_wire s)" by simp
  show "datagrams_of Data (th_wire s) = numbered (cfg_session pb_cfg) 1 (replay_plan f)"
    using pc inv(1) unfolding session_at_feed(4) [OF assms(1), symmetric]
    by (cases "th_pc s") (auto simp: on_plan_def plan_point_def faulted_def)
qed

lemma eos_last_data:
  assumes "eos_last (w1 @ (Eos, ev) # w2)"
  shows "datagrams_of Data w2 = []"
proof -
  obtain v1 v2 where v: "w1 @ (Eos, ev) # w2 = v1 @ v2" "Eos \<notin> fst ` set v1" "fst ` set v2 \<subseteq> {Eos}"
    using assms by (auto simp: eos_last_def)
  have "(Eos, ev) \<notin> set v1" using v(2) by force
  then have "set w2 \<subseteq> set v2" using v(1) by (auto simp: append_eq_append_conv2 append_eq_Cons_conv Cons_eq_append_conv)
  then have "filter (\<lambda>x. fst x = Data) w2 = []" using v(3) by (fastforce simp: filter_empty_conv)
  then show ?thesis by (simp add: datagrams_of_def)
qed

lemma session_wire:
  assumes "session_at b e eh cfg pb_cfg bodies n t f s"
  shows "proper_wire (cfg_session pb_cfg) (replay_plan f) (th_wire s)"
  unfolding proper_wire_def
proof (intro conjI allI impI)
  let ?sess = "cfg_session pb_cfg"
  note inv = session_at_invs [OF assms]
  note sess = session_at_feed(4) [OF assms]
  obtain sent rest where sent: "datagrams_of Data (th_wire s) = numbered ?sess 1 sent" "replay_plan f = sent @ rest"
    using session_ring [OF assms] by metis
  have "numbered sess n (xs @ ys) = numbered sess n xs @ numbered sess (n + length (concat xs)) ys" for sess n xs ys
    by (induction sess n xs rule: numbered.induct) (simp_all add: add.assoc)
  then show "\<exists>rest. numbered ?sess 1 (replay_plan f) = datagrams_of Data (th_wire s) @ rest" using sent by simp
  fix w1 a d r w2
  show "\<exists>q. d = heartbeat_packet ?sess q" if "th_wire s = w1 @ (Heart, Send a d r) # w2"
    using that inv(5) unfolding hearts_match_def announces_def by blast
  assume w: "th_wire s = w1 @ (Eos, Send a d r) # w2"
  then have "Eos \<in> fst ` set (th_wire s)" by force
  note all = eos_sent_all [OF assms this]
  have "d \<in> set (datagrams_of Eos (th_wire s))" by (simp add: w)
  then show "d = header_of ?sess (number_after (replay_plan f)) end_of_session_msg_count"
    using inv(1) sess by (auto simp: on_plan_def eos_of_def)
  show "datagrams_of Data w1 = numbered ?sess 1 (replay_plan f)"
    using all eos_last_data [of w1 "Send a d r" w2] by (simp add: w)
qed

subsection \<open>The receiver on a proper wire\<close>

text \<open>The packets of a schedule as the receiver needs them.\<close>

definition sendable :: "nat \<Rightarrow> bytes list list \<Rightarrow> bool" where
  "sendable room packets \<longleftrightarrow>
     (\<forall>p \<in> set packets. p \<noteq> [] \<and> length p < 65535 \<and> 20 + length (concat p) \<le> room \<and>
        (\<forall>m \<in> set p. \<exists>body. m = frame body \<and> length body < 65536))"

lemma lifecycle_data:
  assumes "length sess = 10" and "p \<noteq> []" and "length p < 65535" and "\<forall>m \<in> set p. \<exists>body. m = frame body \<and> length body < 65536"
    and "lc_next_expected_seq st = None \<or> lc_next_expected_seq st = Some q"
  shows "lifecycle_packet b sess k (mold_packet sess q p) st = Inr (Continue, st\<lparr>lc_next_expected_seq := Some (q + word_of_nat (length p))\<rparr>)"
proof -
  define bodies where "bodies = map (drop 2) p"
  have "frame (drop 2 m) = m \<and> length (drop 2 m) < 65536" if "m \<in> set p" for m using assms(4) that by (auto simp: frame_def)
  then have bodies: "p = map frame bodies" "\<forall>body \<in> set bodies. length body < 65536"
    by (simp_all add: bodies_def map_idI)
  then have len: "length bodies < 65535" "bodies \<noteq> []" using assms(2,3) by auto
  let ?block = "concat (map frame bodies)"
  have ub: "unat (word_of_nat (length bodies) :: u16) = length bodies" using len(1) by (simp add: unat_of_nat)
  define c where "c = (word_of_nat (length bodies) :: u16)"
  have d: "mold_packet sess q p = header_of sess q c @ ?block" by (simp add: mold_packet_def bodies(1) c_def)
  have block: "message_block_span b (header_of sess q c @ ?block) = Inr ?block"
    using len(2) assms(1) by (cases bodies) (simp_all add: message_block_span_def subspan_def segment_def)
  have count: "count_messages b ?block c = Inr c"
    using for_each_message_frames [OF bodies(2), of b "[]"] ub by (simp add: count_messages_def c_def)
  have c: "unat c = length p" "c \<noteq> 0" "c \<noteq> 0xFFFF" using ub len bodies(1) by (auto simp: c_def dest!: arg_cong [where f = unat])
  show ?thesis
    using assms(5) block count c
    unfolding d lifecycle_packet_def parse_header_of [OF assms(1)]
    by (auto simp: is_heartbeat_def is_end_of_session_def expect_def assms(1) heartbeat_msg_count_def end_of_session_msg_count_def)
qed

lemma lifecycle_heartbeat:
  assumes "length sess = 10"
  shows "lifecycle_packet b sess k (heartbeat_packet sess q) st = Inr (Continue, st\<lparr>lc_got_heartbeat := True\<rparr>)"
  using parse_header_of [OF assms, of b q heartbeat_msg_count "[]"] assms
  by (simp add: lifecycle_packet_def heartbeat_packet_def is_heartbeat_def expect_def Let_def)

lemma lifecycle_eos:
  assumes "length sess = 10" and "lc_next_expected_seq st = Some q"
  shows "lifecycle_packet b sess k (header_of sess q end_of_session_msg_count) st =
    Inr (if k \<le> Suc (lc_eos_count st) then Break else Continue, st\<lparr>lc_eos_count := Suc (lc_eos_count st)\<rparr>)"
  using parse_header_of [OF assms(1), of b q end_of_session_msg_count "[]"] assms
  by (simp add: lifecycle_packet_def is_heartbeat_def is_end_of_session_def expect_def Let_def heartbeat_msg_count_def
      end_of_session_msg_count_def)

lemma length_numbered [simp]: "length (numbered sess n ps) = length ps"
  by (induction sess n ps rule: numbered.induct) simp_all

lemma nth_numbered:
  "k < length ps \<Longrightarrow> numbered sess n ps ! k = mold_packet sess (word_of_nat (n + length (concat (take k ps)))) (ps ! k)"
  by (induction sess n ps arbitrary: k rule: numbered.induct) (auto simp: nth_Cons' take_Cons' add.assoc)

definition following :: "bytes list list \<Rightarrow> nat \<Rightarrow> lifecycle \<Rightarrow> bool" where
  "following packets k st \<longleftrightarrow> lc_next_expected_seq st = (if k = 0 then None else Some (number_after (take k packets)))"

lemma lifecycle_event:
  assumes "proper_wire sess packets (w @ [(src, Send a d r)])" and "length sess = 10" and "packets \<noteq> []" and "sendable sz packets" and "20 \<le> sz"
    and "k = length (datagrams_of Data w)" and "following packets k st"
  shows "\<exists>st'. lifecycle_step b sess sz n (Client_datagram d) st =
      Inr (if src = Eos \<and> n \<le> Suc (lc_eos_count st) then Break else Continue, st') \<and> lc_failures st' = lc_failures st \<and>
    lc_eos_count st' = (if src = Eos then Suc (lc_eos_count st) else lc_eos_count st) \<and>
    following packets (length (datagrams_of Data (w @ [(src, Send a d r)]))) st'"
proof (cases src)
  case Data
  obtain rest where num: "numbered sess 1 packets = datagrams_of Data w @ d # rest"
    using assms(1) Data by (auto simp: proper_wire_def)
  have k: "k < length packets" using arg_cong [OF num, of length] assms(6) by simp
  let ?p = "packets ! k" and ?q = "number_after (take k packets)"
  have "d = numbered sess 1 packets ! k" unfolding num assms(6) by simp
  then have d: "d = mold_packet sess ?q ?p" using nth_numbered [OF k] by (simp add: number_after_def)
  have p: "?p \<noteq> []" "length ?p < 65535" "20 + length (concat ?p) \<le> sz" "\<forall>m \<in> set ?p. \<exists>body. m = frame body \<and> length body < 65536"
    using assms(4) k unfolding sendable_def by (meson nth_mem)+
  have "take sz d = d" using p(3) assms(2) by (simp add: d length_mold_packet)
  moreover have "lc_next_expected_seq st = None \<or> lc_next_expected_seq st = Some ?q" using assms(7) by (simp add: following_def)
  moreover have "?q + word_of_nat (length ?p) = number_after (take (Suc k) packets)"
    using k by (simp add: number_after_def take_Suc_conv_app_nth)
  ultimately show ?thesis
    using lifecycle_data [OF assms(2) p(1,2,4)] assms(6) Data by (simp add: lifecycle_step_def following_def d)
next
  case Heart
  then obtain q where "d = heartbeat_packet sess q" using assms(1) unfolding proper_wire_def by blast
  then show ?thesis
    using lifecycle_heartbeat [OF assms(2)] assms(2,5-7) Heart by (simp add: lifecycle_step_def following_def heartbeat_packet_def)
next
  case Eos
  then have d: "d = header_of sess (number_after packets) end_of_session_msg_count" "datagrams_of Data w = numbered sess 1 packets"
    using assms(1) unfolding proper_wire_def by blast+
  then have "lc_next_expected_seq st = Some (number_after packets)" using assms(3,6,7) by (simp add: following_def)
  then have "lifecycle_step b sess sz n (Client_datagram d) st =
      Inr (if n \<le> Suc (lc_eos_count st) then Break else Continue, st\<lparr>lc_eos_count := Suc (lc_eos_count st)\<rparr>)"
    using lifecycle_eos [OF assms(2), of st _ b n] assms(2,5) by (auto simp: lifecycle_step_def d(1))
  then show ?thesis using assms(6,7) Eos by (simp add: following_def)
qed

lemma lifecycle_proper:
  assumes "proper_wire sess packets w" and "length sess = 10" and "packets \<noteq> []" and "sendable sz packets" and "20 \<le> sz"
  shows "\<exists>c st. lifecycle_run b sess sz n (map Client_datagram (datagrams (map snd w))) lifecycle_init = Inr (c, st) \<and>
    lc_failures st = 0 \<and> (c = Continue \<longrightarrow> following packets (length (datagrams_of Data w)) st) \<and>
    (if c = Continue then lc_eos_count st = length (datagrams_of Eos w) \<and> (lc_eos_count st = 0 \<or> lc_eos_count st < n)
     else n \<le> length (datagrams_of Eos w))"
  using assms(1)
proof (induction w rule: rev_induct)
  case Nil
  then show ?case by (simp add: lifecycle_init_def following_def)
next
  case (snoc x w)
  obtain src ev where x: "x = (src, ev)" by (cases x)
  obtain c st where IH: "lifecycle_run b sess sz n (map Client_datagram (datagrams (map snd w))) lifecycle_init = Inr (c, st)"
    "lc_failures st = 0" "c = Continue \<longrightarrow> following packets (length (datagrams_of Data w)) st"
    "if c = Continue then lc_eos_count st = length (datagrams_of Eos w) \<and> (lc_eos_count st = 0 \<or> lc_eos_count st < n)
     else n \<le> length (datagrams_of Eos w)"
    using snoc.IH proper_wire_prefix [OF snoc.prems] by blast
  show ?case
  proof (cases ev)
    case (Send a d r)
    then have run: "lifecycle_run b sess sz n (map Client_datagram (datagrams (map snd (w @ [x])))) lifecycle_init =
        (if c = Break then Inr (Break, st) else lifecycle_step b sess sz n (Client_datagram d) st)"
      by (simp add: x lifecycle_run_snoc IH(1))
    show ?thesis
    proof (cases c)
      case Continue
      then obtain st' where "lifecycle_step b sess sz n (Client_datagram d) st =
          Inr (if src = Eos \<and> n \<le> Suc (lc_eos_count st) then Break else Continue, st')" "lc_failures st' = lc_failures st"
        "lc_eos_count st' = (if src = Eos then Suc (lc_eos_count st) else lc_eos_count st)"
        "following packets (length (datagrams_of Data (w @ [(src, Send a d r)]))) st'"
        using lifecycle_event [OF snoc.prems [unfolded x Send] assms(2-5) refl, of st b n] IH(3) by blast
      then show ?thesis using IH(2,4) Continue unfolding run by (auto simp: x Send)
    next
      case Break
      then show ?thesis using IH(2,4) unfolding run by (simp add: x)
    qed
  qed (use IH x in \<open>auto simp: datagrams_def\<close>)
qed

text \<open>After the last datagram \<open>recv\<close> times out, and the receiver compares the count of end-of-session packets.\<close>

lemma lifecycle_timeout:
  assumes "proper_wire sess packets w" and "length sess = 10" and "packets \<noteq> []" and "sendable sz packets" and "20 \<le> sz"
  shows "\<exists>st. lifecycle_run b sess sz n (map Client_datagram (datagrams (map snd w)) @ [Client_error EAGAIN]) lifecycle_init = Inr (Break, st) \<and>
    lc_failures st = (if n \<le> length (datagrams_of Eos w) then 0 else 1)"
proof -
  obtain c st where run: "lifecycle_run b sess sz n (map Client_datagram (datagrams (map snd w))) lifecycle_init = Inr (c, st)"
    "lc_failures st = 0"
    "if c = Continue then lc_eos_count st = length (datagrams_of Eos w) \<and> (lc_eos_count st = 0 \<or> lc_eos_count st < n)
     else n \<le> length (datagrams_of Eos w)"
    using lifecycle_proper [OF assms, of b n] by blast
  then show ?thesis
    by (cases c) (auto simp: lifecycle_run_snoc lifecycle_step_def expect_def)
qed

subsection \<open>How many end-of-session packets there are\<close>

text \<open>The \<open>i\<close>-th check of the clock in \<open>end_of_session\<close>, which begins at tick \<open>t1\<close>, comes less than one period late: three calls of
  the environment are one turn of its loop, which sleeps for a period.\<close>

definition punctual :: "env \<Rightarrow> nat \<Rightarrow> int \<Rightarrow> nat \<Rightarrow> bool" where
  "punctual e t1 period n \<longleftrightarrow> (\<forall>i < n. now_at e (t1 + 2 + 3 * i) < now_at e t1 + (int i + 1) * period)"

definition eos_begins_at :: "build \<Rightarrow> env \<Rightarrow> nat \<Rightarrow> downstream_feed \<Rightarrow> nat \<Rightarrow> bool" where
  "eos_begins_at b e t f t1 \<longleftrightarrow>
     (\<exists>fuel f1 evs1. downstream_replay fuel b e t (f\<lparr>df_heartbeat := heartbeat_start (df_heartbeat f)\<rparr>) = Some (Inr (f1, evs1, t1)))"

lemma end_of_session_loop_count:
  assumes "end_of_session_loop fuel b e t addr p finish period = Some (evs, t')"
    and "\<And>u. \<not> stop_requested_at e u" and "\<And>i. i < n \<Longrightarrow> now_at e (t + 1 + 3 * i) < finish"
  shows "n \<le> length (datagrams evs)"
  using assms(1,3)
proof (induction fuel arbitrary: t evs n)
  case 0
  then show ?case by simp
next
  case (Suc fuel)
  show ?case
  proof (cases n)
    case (Suc k)
    have "now_at e (Suc t) < finish" using Suc.prems(2) [of 0] Suc by simp
    then obtain evs' where "end_of_session_loop fuel b e (Suc (Suc (Suc t))) addr p finish period = Some (evs', t')"
      "length (datagrams evs) = Suc (length (datagrams evs'))"
      using Suc.prems(1) assms(2) by (auto simp: Let_def)
    moreover have "now_at e (Suc (Suc (Suc t)) + 1 + 3 * i) < finish" if "i < k" for i
    proof -
      have "now_at e (t + 1 + 3 * Suc i) < finish" by (rule Suc.prems(2)) (use that Suc in simp)
      moreover have "t + 1 + 3 * Suc i = Suc (Suc (Suc t)) + 1 + 3 * i" by simp
      ultimately show ?thesis by (simp only:)
    qed
    ultimately show ?thesis using Suc.IH Suc by fastforce
  qed simp
qed

lemma count_feed_events:
  "length (datagrams (map snd (filter (\<lambda>x. fst x \<noteq> Heart) w))) = length (datagrams_of Data w) + length (datagrams_of Eos w)"
proof (induction w)
  case (Cons x w)
  obtain src ev where x: "x = (src, ev)" by (cases x)
  show ?case using Cons.IH by (cases src; cases ev) (simp_all add: x datagrams_of_def)
qed (simp add: datagrams_of_def)

lemma end_of_session_count:
  assumes "session_at b e eh cfg pb_cfg bodies n t f s" and "th_pc s = P_done" and "0 < dc_heartbeat_period cfg"
    and "k = nat (dc_end_of_session_duration cfg div dc_heartbeat_period cfg)"
    and "\<forall>t1. eos_begins_at b e t f t1 \<longrightarrow> punctual e t1 (dc_heartbeat_period cfg) k"
  shows "k \<le> length (datagrams_of Eos (th_wire s))"
proof -
  let ?f = "f\<lparr>df_heartbeat := heartbeat_start (df_heartbeat f)\<rparr>" and ?D = "dc_end_of_session_duration cfg" and ?P = "dc_heartbeat_period cfg"
  note f = session_at_feed [OF assms(1)]
  have "reachable (threads_init f t) (tstep b e eh) s" using assms(1) by (rule session_atE)
  then have "refines b e t f s" by (rule threads_invD(1) [OF _ f(11)])
  then obtain fuel v t' where "downstream_start fuel b e t f = Some (Inr (v, feed_events s, t'))"
    using assms(2) by (auto simp: refines_def Let_def)
  then obtain f1 evs1 t1 evs2 where replay: "downstream_replay fuel b e t ?f = Some (Inr (f1, evs1, t1))"
    and eos: "downstream_end_of_session fuel b e t1 (f1\<lparr>df_heartbeat := heartbeat_stop (df_heartbeat f1)\<rparr>) = Some (Inr (evs2, t'))"
    and split: "feed_events s = evs1 @ evs2"
    by (auto simp: downstream_start_def Let_def andThen_eq_Inr_iff split: option.splits sum.splits)
  have "replay_ready b e ?f []" using f(1) by (simp add: replay_ready_heartbeat)
  then obtain j f' evs' u where r: "downstream_replay j b e t ?f = Some (Inr (f', evs', u))" "ds_same ?f f'"
    "datagrams evs' = numbered (session (df_packet_builder ?f)) (Suc 0) (replay_plan ?f)"
    using replay_ok unfolding replayed_def by (metis lessI list.size(3))
  have "(f1, evs1, t1) = (f', evs', u)" using downstream_replay_unique [OF replay r(1)] by simp
  then have same: "ds_same ?f f1" "length (datagrams evs1) = length (replay_plan f)"
    using r(2,3) by (simp_all add: replay_plan_heartbeat)
  have "length (datagrams_of Data (th_wire s)) = length (replay_plan f)"
    using on_plan_end(1) [OF session_at_invs(1) [OF assms(1)]] assms(2) by simp
  then have count: "length (datagrams_of Eos (th_wire s)) = length (datagrams evs2)"
    using count_feed_events [of "th_wire s"] same(2) by (simp add: split)
  have dur: "df_end_of_session_duration f1 = ?D" using same(1) f(12) by (simp add: ds_same_def)
  have net: "\<not> debug_no_network b" using replay_readyD(6) [OF f(1)] .
  then obtain packet fuel' g where "end_of_session_loop fuel b e (Suc t1) (df_mcast_group f1) packet (now_at e t1 + ?D) g = Some (evs2, t')"
    using eos dur by (auto simp: downstream_end_of_session_def checked_i64_def andThen_eq_Inr_iff split: sum.splits if_splits)
  moreover have "\<not> stop_requested_at e u" for u using f(10) by (simp add: playable_def)
  moreover have "now_at e (Suc t1 + 1 + 3 * i) < now_at e t1 + ?D" if "i < k" for i
  proof -
    have "punctual e t1 ?P k" using assms(5) replay unfolding eos_begins_at_def by blast
    then have "now_at e (t1 + 2 + 3 * i) < now_at e t1 + (int i + 1) * ?P" using that by (simp add: punctual_def)
    moreover have "int i + 1 \<le> ?D div ?P" using that assms(4) by linarith
    then have "(int i + 1) * ?P \<le> ?D div ?P * ?P" using assms(3) by (intro mult_right_mono) simp_all
    moreover have "?D div ?P * ?P \<le> ?D" using assms(3) by (simp add: minus_mod_eq_div_mult [symmetric])
    moreover have "Suc t1 + 1 + 3 * i = t1 + 2 + 3 * i" by simp
    ultimately show ?thesis by (simp only:)
  qed
  ultimately show ?thesis unfolding count by (rule end_of_session_loop_count)
qed

subsection \<open>Asking for a retransmission\<close>

definition send_retransmission_request :: "build \<Rightarrow> bytes \<Rightarrow> u64 \<Rightarrow> u16 \<Rightarrow> bytes res" where
  "send_retransmission_request b sess seq count =
     andThen (write_at_range b (replicate header_length 0) session_offset sess) (\<lambda>p1.
     andThen (write_at_be b p1 sequence_number_offset seq) (\<lambda>p2.
     write_at_be b p2 message_count_offset count))"

record response =
  resp_header :: mold_header
  resp_payload :: bytes

definition receive_retransmission_response :: "build \<Rightarrow> nat \<Rightarrow> client_recv \<Rightarrow> response res" where
  "receive_retransmission_response b buffer_size r =
     (case r of
        Client_error err \<Rightarrow> Inl (System_error err)
      | Client_datagram d \<Rightarrow>
          let bs = take buffer_size d in
          andThen (parse_header b bs) (\<lambda>header.
          andThen (message_block_span b bs) (\<lambda>payload.
          Inr \<lparr>resp_header = header, resp_payload = payload\<rparr>)))"

text \<open>The wait for a packet that is not a heartbeat; \<open>None\<close> when there is none among the datagrams received so far.\<close>

fun first_packet :: "build \<Rightarrow> nat \<Rightarrow> bytes list \<Rightarrow> (mold_header \<times> bytes) option res" where
  "first_packet b buffer_size [] = Inr None"
| "first_packet b buffer_size (d # ds) =
     andThen (parse_header b (take buffer_size d)) (\<lambda>header.
     if is_heartbeat header then first_packet b buffer_size ds else Inr (Some (header, take buffer_size d)))"

text \<open>The comparison of the messages received twice; reading past \<open>original_messages\<close> is undefined.\<close>

fun compare_messages :: "bytes list \<Rightarrow> bytes list \<Rightarrow> nat res" where
  "compare_messages [] originals = Inr 0"
| "compare_messages (msg # msgs) [] = Inl Out_of_bounds"
| "compare_messages (msg # msgs) (original # originals) =
     andThen (compare_messages msgs originals) (\<lambda>failed. Inr (if msg = original then failed else Suc failed))"

text \<open>\<open>ValidRange\<close>: the number of failed expectations. \<open>answer\<close> is what the client receives for its request, or the fault of the
  worker that serves it.\<close>

definition valid_range :: "build \<Rightarrow> bytes \<Rightarrow> nat \<Rightarrow> bytes list \<Rightarrow> (bytes \<Rightarrow> client_recv res) \<Rightarrow> nat option res" where
  "valid_range b sess buffer_size ds answer =
     andThen (first_packet b buffer_size ds) (\<lambda>found.
     case found of
       None \<Rightarrow> Inr None
     | Some (mcast_header, bs) \<Rightarrow>
         andThen (message_block_span b bs) (\<lambda>block.
         andThen (for_each_message b block 0 (unat (hdr_message_count mcast_header))) (\<lambda>original_messages.
         andThen (send_retransmission_request b sess (hdr_sequence_number mcast_header) (hdr_message_count mcast_header)) (\<lambda>request.
         andThen (answer request) (\<lambda>received.
         andThen (receive_retransmission_response b buffer_size received) (\<lambda>response.
         let h = resp_header response;
             failed = (if hdr_session h = sess then 0 else 1) +
               (if hdr_sequence_number h = hdr_sequence_number mcast_header then 0 else 1) +
               (if hdr_message_count h = hdr_message_count mcast_header then 0 else 1) in
         andThen (for_each_message b (resp_payload response) 0 (unat (hdr_message_count h))) (\<lambda>msgs.
         andThen (compare_messages msgs original_messages) (\<lambda>different. Inr (Some (failed + different))))))))))"

text \<open>\<open>OutOfBounds\<close>: the expectations are that no answer comes and that \<open>recv\<close> has timed out. (After a successful \<open>recv\<close> the
  second reads an \<open>errno\<close> that the call did not set; only the first is counted then.)\<close>

definition out_of_bounds :: "build \<Rightarrow> bytes \<Rightarrow> u64 \<Rightarrow> (bytes \<Rightarrow> client_recv res) \<Rightarrow> nat res" where
  "out_of_bounds b sess oob_sequence answer =
     andThen (send_retransmission_request b sess oob_sequence 1) (\<lambda>request.
     andThen (answer request) (\<lambda>received.
     Inr (case received of Client_datagram d \<Rightarrow> 1 | Client_error err \<Rightarrow> if err = EAGAIN then 0 else 1)))"

lemma send_retransmission_request_eq:
  "length sess = 10 \<Longrightarrow> send_retransmission_request b sess seq count = Inr (header_of sess seq count)"
proof -
  have "andThen m Inr = m" for m :: "bytes res" by (cases m) simp_all
  then show "length sess = 10 \<Longrightarrow> ?thesis"
    using header_written [of sess b seq count Inr] unfolding send_retransmission_request_def by simp
qed

lemma first_packet_snoc:
  "first_packet b sz (ds @ [d]) = andThen (first_packet b sz ds) (\<lambda>r. if r = None then first_packet b sz [d] else Inr r)"
  by (induction ds) (simp_all add: andThen_assoc if_distrib [of "\<lambda>x. andThen x _"] cong: if_cong)

lemma first_packet_data:
  assumes "length sess = 10" and "p \<noteq> []" and "length p < 65535" and "20 + length (concat p) \<le> sz"
  shows "first_packet b sz [mold_packet sess q p] =
    Inr (Some (\<lparr>hdr_session = sess, hdr_sequence_number = q, hdr_message_count = word_of_nat (length p)\<rparr>, mold_packet sess q p))"
proof -
  have "take sz (mold_packet sess q p) = mold_packet sess q p" using assms(1,4) by (simp add: length_mold_packet)
  moreover have "(word_of_nat (length p) :: u16) \<noteq> 0"
    using assms(2,3) by (auto simp: unat_of_nat dest!: arg_cong [where f = unat])
  ultimately show ?thesis
    using parse_header_of [OF assms(1), of b q "word_of_nat (length p)" "concat p"]
    by (simp add: mold_packet_def is_heartbeat_def heartbeat_msg_count_def)
qed

lemma first_packet_heartbeat: "length sess = 10 \<Longrightarrow> 20 \<le> sz \<Longrightarrow> first_packet b sz [heartbeat_packet sess q] = Inr None"
  using parse_header_of [of sess b q heartbeat_msg_count "[]"] by (simp add: heartbeat_packet_def is_heartbeat_def)

lemma first_packet_proper:
  assumes "proper_wire sess packets w" and "length sess = 10" and "packets \<noteq> []" and "sendable sz packets" and "20 \<le> sz"
    and "d = mold_packet sess 1 (hd packets)"
  shows "first_packet b sz (datagrams (map snd w)) = Inr (if datagrams_of Data w = [] then None
    else Some (\<lparr>hdr_session = sess, hdr_sequence_number = 1, hdr_message_count = word_of_nat (length (hd packets))\<rparr>, d))"
  using assms(1)
proof (induction w rule: rev_induct)
  case (snoc x w)
  obtain src ev where x: "x = (src, ev)" by (cases x)
  note IH = snoc.IH [OF proper_wire_prefix [OF snoc.prems]]
  let ?p = "hd packets"
  have p: "?p \<noteq> []" "length ?p < 65535" "20 + length (concat ?p) \<le> sz"
    using assms(3,4) unfolding sendable_def by (meson hd_in_set)+
  show ?case
  proof (cases ev)
    case (Send a d' r)
    note wire = snoc.prems [unfolded x Send proper_wire_def]
    show ?thesis
    proof (cases "datagrams_of Data w = []")
      case False
      then show ?thesis using IH by (simp add: x Send first_packet_snoc)
    next
      case none: True
      show ?thesis
      proof (cases src)
        case Data
        then obtain rest where "numbered sess 1 packets = d' # rest" using wire none by auto
        then have d': "d' = d" using assms(3,6) by (cases packets) auto
        then show ?thesis
          using IH none Data first_packet_data [OF assms(2) p, of b 1] by (simp add: x Send assms(6) first_packet_snoc)
      next
        case Heart
        then obtain q where "d' = heartbeat_packet sess q" using wire by blast
        then show ?thesis
          using IH none Heart first_packet_heartbeat [OF assms(2,5), of b q] by (simp add: x Send first_packet_snoc)
      next
        case Eos
        then have "datagrams_of Data w = numbered sess 1 packets" using wire by blast
        then show ?thesis using none assms(3) by (cases packets) auto
      qed
    qed
  qed (use IH x in \<open>simp_all add: datagrams_def datagrams_of_def\<close>)
qed simp

lemma compare_messages_same: "compare_messages msgs msgs = Inr 0"
  by (induction msgs) simp_all

lemma original_found:
  assumes "length sess = 10" and "p \<noteq> []" and "length p < 65535" and "\<forall>m \<in> set p. \<exists>body. m = frame body \<and> length body < 65536"
  obtains block bodies where "parse_header b (mold_packet sess q p) = Inr \<lparr>hdr_session = sess, hdr_sequence_number = q, hdr_message_count = word_of_nat (length p)\<rparr>"
    and "message_block_span b (mold_packet sess q p) = Inr block" and "for_each_message b block 0 (unat (word_of_nat (length p) :: u16)) = Inr bodies"
proof -
  define bodies where "bodies = map (drop 2) p"
  have "frame (drop 2 m) = m \<and> length (drop 2 m) < 65536" if "m \<in> set p" for m using assms(4) that by (auto simp: frame_def)
  then have bodies: "p = map frame bodies" "\<forall>body \<in> set bodies. length body < 65536"
    by (simp_all add: bodies_def map_idI)
  have "receive_packet b (mold_packet sess q p) =
      Inr (\<lparr>hdr_session = sess, hdr_sequence_number = q, hdr_message_count = word_of_nat (length p)\<rparr>, bodies)"
    using receive_mold_packet [OF assms(1) bodies(2), of b q] assms(2,3) by (simp add: bodies(1))
  then show ?thesis using that by (auto simp: receive_packet_def andThen_eq_Inr_iff)
qed

lemma valid_range_same:
  assumes "length sess = 10" and "p \<noteq> []" and "length p < 65535" and "20 + length (concat p) \<le> sz"
    and "\<forall>m \<in> set p. \<exists>body. m = frame body \<and> length body < 65536"
    and "first_packet b sz ds = Inr (Some (\<lparr>hdr_session = sess, hdr_sequence_number = q, hdr_message_count = word_of_nat (length p)\<rparr>, mold_packet sess q p))"
    and "answer (header_of sess q (word_of_nat (length p))) = Inr (Client_datagram (mold_packet sess q p))"
  shows "valid_range b sess sz ds answer = Inr (Some 0)"
proof -
  define d where "d = mold_packet sess q p"
  have "take sz d = d" using assms(1,4) by (simp add: d_def length_mold_packet)
  then show ?thesis
    using assms(6,7) send_retransmission_request_eq [OF assms(1)]
    by (rule_tac original_found [OF assms(1-3,5), of b q])
      (simp add: valid_range_def receive_retransmission_response_def d_def [symmetric] compare_messages_same)
qed

lemma valid_range_lapped:
  assumes "length sess = 10" and "p \<noteq> []" and "length p < 65535" and "20 + length (concat p) \<le> sz"
    and "\<forall>m \<in> set p. \<exists>body. m = frame body \<and> length body < 65536"
    and "first_packet b sz ds = Inr (Some (\<lparr>hdr_session = sess, hdr_sequence_number = q, hdr_message_count = word_of_nat (length p)\<rparr>, mold_packet sess q p))"
    and "answer (header_of sess q (word_of_nat (length p))) = Inr (Client_error err)"
  shows "valid_range b sess sz ds answer = Inl (System_error err)"
  using assms(6,7) send_retransmission_request_eq [OF assms(1)]
  by (rule_tac original_found [OF assms(1-3,5), of b q]) (simp add: valid_range_def receive_retransmission_response_def)

section \<open>Properties\<close>

text \<open>The schedule of a session suits the receiver.\<close>

lemma session_sendable:
  assumes "session_at b e eh cfg pb_cfg bodies n t f s" and "cfg_MTU pb_cfg < 65536" and "cfg_MTU pb_cfg \<le> sz"
  shows "sendable sz (replay_plan f)"
  unfolding sendable_def
proof (intro ballI)
  fix p assume p: "p \<in> set (replay_plan f)"
  note f = session_at_feed [OF assms(1)]
  have pp: "p \<noteq> []" "length (concat p) \<le> cfg_MTU pb_cfg - 20" "set p \<subseteq> set (map frame bodies)"
    using plan_packet p unfolding replay_plan_def f(2,3,5) by blast+
  have "1 * length p \<le> length (concat p)" using pp(3) by (intro length_concat_ge) (auto simp: frame_def)
  then show "p \<noteq> [] \<and> length p < 65535 \<and> 20 + length (concat p) \<le> sz \<and> (\<forall>m \<in> set p. \<exists>body. m = frame body \<and> length body < 65536)"
    using pp assms(2,3) f(9,10) by (auto simp: playable_def)
qed

text \<open>
  C14. The receiver of \<open>LifeCycleToShutdown\<close>, on any host, on every session with at least one packet. Fed with all datagrams
  that the feed and its heartbeat thread have sent so far, in order, it never faults and none of its expectations fails: every
  session name is right, every data packet starts at the number it expects, every block holds the messages it announces,
  and the end-of-session packets carry the number after the last message. When \<open>recv\<close> times out after them, the test passes
  exactly when at least the expected number of end-of-session packets was sent. A completed session has sent that many, one
  per heartbeat period of the configured duration, when the loop that sends them runs less than a period late (\<open>punctual\<close>).
\<close>

theorem lifecycle_test_passes:
  assumes "session_at b e eh cfg pb_cfg bodies n t f s" and "cfg_MTU pb_cfg < 65536" and "cfg_MTU pb_cfg \<le> sz" and "replay_plan f \<noteq> []"
  shows "(\<exists>c st. lifecycle_run b' (cfg_session pb_cfg) sz k (map Client_datagram (datagrams (map snd (th_wire s)))) lifecycle_init = Inr (c, st) \<and>
      lc_failures st = 0) \<and>
    (\<exists>st. lifecycle_run b' (cfg_session pb_cfg) sz k (map Client_datagram (datagrams (map snd (th_wire s))) @ [Client_error EAGAIN])
        lifecycle_init = Inr (Break, st) \<and>
      lc_failures st = (if k \<le> length (datagrams_of Eos (th_wire s)) then 0 else 1)) \<and>
    (th_pc s = P_done \<and> 0 < dc_heartbeat_period cfg \<and> k = nat (dc_end_of_session_duration cfg div dc_heartbeat_period cfg) \<and>
       (\<forall>t1. eos_begins_at b e t f t1 \<longrightarrow> punctual e t1 (dc_heartbeat_period cfg) k) \<longrightarrow>
     k \<le> length (datagrams_of Eos (th_wire s)))"
proof -
  note f = session_at_feed [OF assms(1)]
  have "20 \<le> sz" using f(9) assms(3) by simp
  note proper = session_wire [OF assms(1)] f(6) assms(4) session_sendable [OF assms(1-3)] this
  show ?thesis
    using lifecycle_proper [OF proper, of b' k] lifecycle_timeout [OF proper, of b' k] end_of_session_count [OF assms(1)] by blast
qed

text \<open>The witness: 30 end-of-session packets are expected, and the clock has not moved when they have gone out.\<close>

lemma sample_punctual:
  assumes "eos_begins_at sample_build sample_env 0 sample_feed t1"
  shows "punctual sample_env t1 1000000000 30"
proof -
  let ?f = "sample_feed\<lparr>df_heartbeat := heartbeat_start (df_heartbeat sample_feed)\<rparr>"
  obtain fuel f1 evs1 where r: "downstream_replay fuel sample_build sample_env 0 ?f = Some (Inr (f1, evs1, t1))"
    using assms unfolding eos_begins_at_def by blast
  have "replay_ready sample_build sample_env ?f []" using sample_feed_ready(1) by (simp add: replay_ready_heartbeat)
  moreover have "length (messages_from (df_file ?f) (df_file_pos ?f)) < 3" by (simp add: sample_feed_ready(2)) (simp add: sample_bodies_def)
  ultimately obtain f' evs' u where r': "downstream_replay 3 sample_build sample_env 0 ?f = Some (Inr (f', evs', u))"
    using replay_ok by blast
  have "u \<le> 0 + 4 * 3" using downstream_replay_ticks [OF r'] .
  then have "t1 \<le> 12" using downstream_replay_unique [OF r r'] by simp
  then show ?thesis by (simp add: punctual_def sample_env_def)
qed

theorem lifecycle_test_passes_witness:
  "\<exists>(s :: threads) st. th_pc s = P_done \<and> 30 \<le> length (datagrams_of Eos (th_wire s)) \<and>
    lifecycle_run release_build sample_session 1472 30 (map Client_datagram (datagrams (map snd (th_wire s))) @ [Client_error EAGAIN])
      lifecycle_init = Inr (Break, st) \<and> lc_failures st = 0"
proof -
  obtain s where s: "session_at sample_build sample_env sample_env sample_cfg sample_pb_cfg sample_bodies 4 0 sample_feed s" "th_pc s = P_done"
    by (rule sample_done)
  have cfg: "cfg_session sample_pb_cfg = sample_session" "cfg_MTU sample_pb_cfg < 65536" "cfg_MTU sample_pb_cfg \<le> 1472"
    "dc_heartbeat_period sample_cfg = 1000000000" "dc_end_of_session_duration sample_cfg = 30000000000"
    by (simp_all add: sample_pb_cfg_def default_packet_builder_config_def sample_cfg_def default_downstream_config_def)
  have plan: "replay_plan sample_feed \<noteq> []" by (simp add: sample_plan)
  note test = lifecycle_test_passes [OF s(1) cfg(2,3) plan, of release_build 30]
  have "30 \<le> length (datagrams_of Eos (th_wire s))" using test s(2) sample_punctual unfolding cfg(4,5) by auto
  then show ?thesis using test s(2) unfolding cfg(1) by auto
qed

text \<open>What a client receives for its request: the reply, or a timeout when the worker sends nothing. A fault of the worker is not a
  timeout.\<close>

definition answered :: "build \<Rightarrow> env \<Rightarrow> nat \<Rightarrow> retransmission_feed \<Rightarrow> retransmission_buffer \<Rightarrow> sockaddr_in \<Rightarrow> bytes \<Rightarrow> client_recv res" where
  "answered b e t rf rb addr request =
     andThen (handle_request b e t rf rb (Recv_datagram request addr)) (\<lambda>(rf', evs, t').
     Inr (case datagrams evs of [] \<Rightarrow> Client_error EAGAIN | d # ds \<Rightarrow> Client_datagram d))"

lemma silent_answer:
  assumes "rf_inv rf" and "session (rf_packet_builder rf) = sess" and "length sess = 10" and "file_position_for rb q = Inr None"
  shows "answered b e t rf rb addr (header_of sess q c) = Inr (Client_error EAGAIN)"
proof -
  have "\<exists>rf'. handle_request b e t rf rb (Recv_datagram (header_of sess q c) addr) = Inr (rf', [], t)"
    using handle_request_silent [OF assms(1), of "header_of sess q c" rb b e t addr] assms(3,4) unfolding assms(2)
    by (auto dest!: header_of_inject [OF assms(3) assms(3)])
  then show ?thesis by (auto simp: answered_def)
qed

lemma retransmission_clients_ok:
  assumes "session_at b e eh cfg pb_cfg bodies n t f s" and "skips_first (early cfg) (map frame bodies)"
    and "worker_of rf pb_cfg bodies" and "cfg_MTU pb_cfg < 65536" and "cfg_MTU pb_cfg \<le> sz" and "replay_plan f \<noteq> []"
    and "k = unat (rb_write_seq (df_retransmission_buffer (th_feed s)))" and "k < unat oob"
  shows "valid_range b' (cfg_session pb_cfg) sz (datagrams (map snd (th_wire s)))
      (answered b e' t' rf (df_retransmission_buffer (th_feed s)) addr) =
      (if datagrams_of Data (th_wire s) = [] then Inr None else if k \<le> unat n then Inr (Some 0) else Inl (System_error EAGAIN)) \<and>
    out_of_bounds b' (cfg_session pb_cfg) oob (answered b e' t' rf (df_retransmission_buffer (th_feed s)) addr) = Inr 0"
proof
  note f = session_at_feed [OF assms(1)]
  let ?sess = "cfg_session pb_cfg" and ?rb = "df_retransmission_buffer (th_feed s)"
  let ?p = "hd (replay_plan f)" and ?answer = "answered b e' t' rf ?rb addr"
  define d where "d = mold_packet ?sess 1 ?p"
  have p: "?p \<noteq> []" "length ?p < 65535" "20 + length (concat ?p) \<le> sz" "\<forall>m \<in> set ?p. \<exists>body. m = frame body \<and> length body < 65536"
    using session_sendable [OF assms(1,4,5)] hd_in_set [OF assms(6)] unfolding sendable_def by blast+
  have "20 \<le> sz" using f(9) assms(5) by simp
  note first = first_packet_proper [OF session_wire [OF assms(1)] f(6) assms(6) session_sendable [OF assms(1,4,5)] this d_def, of b']
  have rf: "rf_inv rf" "session (rf_packet_builder rf) = ?sess" using assms(3) by (simp_all add: worker_of_def pb_config_def)
  obtain posns where rb: "rb_rep ?rb posns" "k = length posns" "rb_size ?rb = unat n"
    using assms(7) by (rule_tac session_ring [OF assms(1)]) simp
  note silent = silent_answer [OF rf f(6)]
  have hdr: "take 20 d = header_of ?sess 1 (word_of_nat (length ?p))" using f(6) by (simp add: d_def mold_packet_def)
  show "valid_range b' ?sess sz (datagrams (map snd (th_wire s))) ?answer =
      (if datagrams_of Data (th_wire s) = [] then Inr None else if k \<le> unat n then Inr (Some 0) else Inl (System_error EAGAIN))"
  proof (cases "datagrams_of Data (th_wire s) = []")
    case True
    then show ?thesis using first by (simp add: valid_range_def)
  next
    case sent: False
    show ?thesis
    proof (cases "k \<le> unat n")
      case True
      have "datagrams_of Data (th_wire s) ! 0 = numbered ?sess 1 (replay_plan f) ! 0"
        using session_wire [OF assms(1)] sent by (auto simp: proper_wire_def nth_append)
      then have "datagrams_of Data (th_wire s) ! 0 = d" using nth_numbered [of 0 "replay_plan f" ?sess 1] assms(6) by (simp add: d_def hd_conv_nth)
      then have mem: "d \<in> set (datagrams_of Data (th_wire s))" using sent by (metis length_greater_0_conv nth_mem)
      have ph: "parse_header b' d = Inr \<lparr>hdr_session = ?sess, hdr_sequence_number = 1, hdr_message_count = word_of_nat (length ?p)\<rparr>"
        using parse_header_of [OF f(6)] by (simp add: d_def mold_packet_def)
      have "?answer (take 20 d) = Inr (Client_datagram d)"
        using packet_had_again [OF assms(1-4) mem ph, of e' t' addr] assms(7) True by (auto simp: answered_def)
      then show ?thesis
        using valid_range_same [OF f(6) p, of b' "datagrams (map snd (th_wire s))" 1 ?answer] first sent hdr True by (simp add: d_def)
    next
      case False
      have "file_position_for ?rb 1 = Inr None" using file_position_for_rep [OF rb(1)] rb(2,3) False by (simp add: window_lookup_def)
      then show ?thesis using valid_range_lapped [OF f(6) p, of b' "datagrams (map snd (th_wire s))" 1 ?answer] first sent False silent
        by (simp add: d_def)
    qed
  qed
  have "oob \<noteq> 0" using assms(8) by auto
  then have "file_position_for ?rb oob = Inr None"
    using file_position_for_rep [OF rb(1)] rb(2) assms(8) by (simp add: window_lookup_def)
  then show "out_of_bounds b' ?sess oob ?answer = Inr 0"
    by (simp add: out_of_bounds_def send_retransmission_request_eq [OF f(6)] silent)
qed

text \<open>
  C15. The clients of \<open>ValidRange\<close> and \<open>OutOfBounds\<close>, in every state of a running session with at least one packet. The first
  gets the first data packet again, with every header field and every message equal, as long as the ring has not
  lapped, which is while at most \<open>n\<close> messages (its size) were given out; before the first data packet it is still waiting, and
  once the ring has lapped its \<open>recv\<close> times out and the test fails with that error. A request for a number not given out yet gets
  no answer, and the second client sees the timeout it expects. A worker that faults passes neither.
\<close>

theorem retransmission_tests_pass:
  assumes "session_at b e eh cfg pb_cfg bodies n t f s" and "skips_first (early cfg) (map frame bodies)"
    and "worker_of rf pb_cfg bodies" and "cfg_MTU pb_cfg < 65536" and "cfg_MTU pb_cfg \<le> sz" and "replay_plan f \<noteq> []"
    and "k = unat (rb_write_seq (df_retransmission_buffer (th_feed s)))" and "k < unat oob"
  shows "valid_range b' (cfg_session pb_cfg) sz (datagrams (map snd (th_wire s)))
      (answered b e' t' rf (df_retransmission_buffer (th_feed s)) addr) =
      (if datagrams_of Data (th_wire s) = [] then Inr None else if k \<le> unat n then Inr (Some 0) else Inl (System_error EAGAIN)) \<and>
    out_of_bounds b' (cfg_session pb_cfg) oob (answered b e' t' rf (df_retransmission_buffer (th_feed s)) addr) = Inr 0"
  using retransmission_clients_ok [OF assms] .

theorem retransmission_tests_pass_witness:
  "\<exists>(s :: threads). datagrams_of Data (th_wire s) \<noteq> [] \<and>
    valid_range release_build sample_session 1472 (datagrams (map snd (th_wire s)))
      (answered sample_build sample_env 7 (sample_worker (concat (map frame sample_bodies))) (df_retransmission_buffer (th_feed s)) sample_address) =
      Inr (Some 0) \<and>
    out_of_bounds release_build sample_session 3
      (answered sample_build sample_env 7 (sample_worker (concat (map frame sample_bodies))) (df_retransmission_buffer (th_feed s)) sample_address) =
      Inr 0"
proof -
  obtain s where s: "session_at sample_build sample_env sample_env sample_cfg sample_pb_cfg sample_bodies 4 0 sample_feed s"
    "rb_write_seq (df_retransmission_buffer (th_feed s)) = 2"
    "datagrams_of Data (th_wire s) = [mold_packet sample_session 1 (map frame sample_bodies)]" by (rule sample_done_facts)
  have cfg: "cfg_session sample_pb_cfg = sample_session" "cfg_MTU sample_pb_cfg < 65536" "cfg_MTU sample_pb_cfg \<le> 1472"
    by (simp_all add: sample_pb_cfg_def default_packet_builder_config_def)
  have "replay_plan sample_feed \<noteq> []" by (simp add: sample_plan)
  from retransmission_tests_pass [OF s(1) sample_skips_first sample_worker_of cfg(2,3) this refl, of 3 release_build sample_env 7 sample_address]
  show ?thesis using s(2,3) unfolding cfg(1) by (intro exI [of _ s]) simp
qed

end
