(* ===== verification/Running_Server.thy ===== *)
theory Running_Server
  imports Concurrent_Session
begin

text \<open>
  The running server: the feed thread and its heartbeat thread (\<open>Feed_Threads\<close>), any number of retransmission workers
  on the same file and the same ring buffer, clients that send them any datagrams at any time, and the end of the
  downstream thread, which writes the event descriptor of the pool (\<open>src/src/server.cpp\<close>, the body of \<open>downstream_thread_\<close>).
  A worker handles one request at a time (\<open>handle_request\<close>) on the ring as it stands between two pieces of the feed
  thread; \<open>Buffer_Concurrency\<close> looks at the single memory accesses. \<open>sr_replies\<close> lists the requests handled so far with what
  the workers did for them; it is not program state.

  The lemmas show that no datagram makes a worker fail, what every reply holds, that the workers do not change what the feed sends, and that the server can always be brought
  to its end.
\<close>

record server_run =
  sr_threads :: threads
  sr_workers :: "retransmission_feed option list"
  sr_eventfd :: nat
  sr_failed :: bool
  sr_replies :: "(bytes \<times> sockaddr_in \<times> out_event list) list"

definition run_init ::
  "build \<Rightarrow> env \<Rightarrow> downstream_config \<Rightarrow> packet_builder_config \<Rightarrow> bytes list \<Rightarrow> u64 \<Rightarrow> nat \<Rightarrow> downstream_feed \<Rightarrow> server_run \<Rightarrow> bool" where
  "run_init b e cfg pb_cfg bodies n t f s \<longleftrightarrow>
     (\<exists>so rb. downstream_feed_new b so cfg pb_cfg (concat (map frame bodies)) rb = Inr f \<and>
        retransmission_buffer_new n = Inr rb \<and> playable b e cfg pb_cfg bodies n) \<and>
     skips_first (early cfg) (map frame bodies) \<and> threads_init f t (sr_threads s) \<and>
     (\<forall>w \<in> set (sr_workers s). \<exists>rf. w = Some rf \<and> worker_of rf pb_cfg bodies) \<and>
     sr_eventfd s = 0 \<and> \<not> sr_failed s \<and> sr_replies s = []"

abbreviation shared_ring :: "server_run \<Rightarrow> retransmission_buffer" where
  "shared_ring s \<equiv> df_retransmission_buffer (th_feed (sr_threads s))"

inductive run_step :: "build \<Rightarrow> env \<Rightarrow> env \<Rightarrow> env \<Rightarrow> server_run \<Rightarrow> server_run \<Rightarrow> bool" for b e eh ew where
  downstream: "tstep b e eh (sr_threads s) th \<Longrightarrow> run_step b e eh ew s (s\<lparr>sr_threads := th\<rparr>)"
| stop_feeds: "th_pc (sr_threads s) = P_done \<Longrightarrow> sr_eventfd s = 0 \<Longrightarrow> run_step b e eh ew s (s\<lparr>sr_eventfd := 1\<rparr>)"
| serve: "i < length (sr_workers s) \<Longrightarrow> sr_workers s ! i = Some rf \<Longrightarrow>
    handle_request b ew u rf (shared_ring s) (Recv_datagram d addr) = Inr (rf', evs, u') \<Longrightarrow>
    run_step b e eh ew s (s\<lparr>sr_workers := (sr_workers s)[i := Some rf'], sr_replies := sr_replies s @ [(d, addr, evs)]\<rparr>)"
| serve_fails: "i < length (sr_workers s) \<Longrightarrow> sr_workers s ! i = Some rf \<Longrightarrow>
    handle_request b ew u rf (shared_ring s) (Recv_datagram d addr) = Inl err \<Longrightarrow>
    run_step b e eh ew s (s\<lparr>sr_failed := True\<rparr>)"
| worker_leaves: "i < length (sr_workers s) \<Longrightarrow> sr_workers s ! i = Some rf \<Longrightarrow> 0 < sr_eventfd s \<Longrightarrow>
    run_step b e eh ew s (s\<lparr>sr_workers := (sr_workers s)[i := None]\<rparr>)"

subsection \<open>One request\<close>

text \<open>What a reply has to be. Number 0 is no number of the session, but while the ring has an unused slot it answers 0 with
  position 0 (\<open>file_position_for_rep\<close>), so the reply then carries the first messages of the file under number 0.\<close>

definition reply_ok :: "packet_builder_config \<Rightarrow> downstream_feed \<Rightarrow> bytes \<times> sockaddr_in \<times> out_event list \<Rightarrow> bool" where
  "reply_ok pb_cfg f = (\<lambda>(d, addr, evs). length (datagrams evs) \<le> 1 \<and>
     (\<forall>a reply r. Send a reply r \<in> set evs \<longrightarrow> a = addr \<and> length reply \<le> cfg_MTU pb_cfg \<and>
        (\<exists>seq count. take 20 d = header_of (cfg_session pb_cfg) seq count \<and>
           (seq = 0 \<longrightarrow> reply = mold_packet (cfg_session pb_cfg) 0
              (fit (cfg_MTU pb_cfg - 20) (take (unat count) (messages_from (df_file f) 0)))) \<and>
           (seq \<noteq> 0 \<longrightarrow> unat seq \<le> length (concat (replay_plan f)) \<and>
              reply = mold_packet (cfg_session pb_cfg) seq
                (fit (cfg_MTU pb_cfg - 20) (take (unat count) (drop (unat seq - 1) (concat (replay_plan f)))))))))"

lemma worker_of_same: "worker_of rf pb_cfg bodies \<Longrightarrow> rf_inv rf' \<Longrightarrow> rf_same rf rf' \<Longrightarrow> worker_of rf' pb_cfg bodies"
  by (simp add: worker_of_def rf_same_def)

lemma worker_asserts:
  assumes "session_at b e eh cfg pb_cfg bodies n t f s" and "skips_first (early cfg) (map frame bodies)" and "worker_of rf pb_cfg bodies"
    and "file_position_for (df_retransmission_buffer (th_feed s)) seq = Inr (Some pos)"
  shows "rf_asserts_hold b rf pos"
proof -
  note f = session_at_feed [OF assms(1)]
  have w: "rf_file rf = concat (map frame bodies)"
    "pb_config (rf_packet_builder rf) = (cfg_session pb_cfg, cfg_MTU pb_cfg - 20, cfg_min_message_size pb_cfg)"
    using assms(3) by (simp_all add: worker_of_def)
  have "set (messages_from (rf_file rf) pos) \<subseteq> set (map frame bodies)"
  proof (cases "seq = 0")
    case True
    obtain posns where "rb_rep (df_retransmission_buffer (th_feed s)) posns" by (rule session_ring [OF assms(1)])
    then have "pos = 0" using assms(4) True by (simp add: file_position_for_rep split: if_splits)
    moreover have "messages_from (concat (map frame bodies)) 0 = map frame bodies"
      using messages_from_frames [of bodies "[]"] f(10) by (auto simp: playable_def)
    ultimately show ?thesis using w(1) by simp
  next
    case False
    obtain posns later where rb: "rb_rep (df_retransmission_buffer (th_feed s)) posns" "replay_positions f = posns @ later"
      by (rule session_ring [OF assms(1)])
    obtain p where p: "replay_positions f = msg_positions p (concat (replay_plan f))" "messages_from (df_file f) p = concat (replay_plan f)"
      using replay_positions_skips_first [OF replay_readyD(4) [OF f(1)]] assms(2) unfolding f(2,5) by metis
    let ?i = "unat seq - 1"
    have i: "?i < length posns" "pos = posns ! ?i"
      using assms(4) False file_position_for_rep [OF rb(1), of seq] by (auto simp: window_lookup_def split: if_splits)
    have "posns @ later = msg_positions p (concat (replay_plan f))" using p(1) rb(2) by simp
    then have "pos = msg_positions p (concat (replay_plan f)) ! ?i" "?i < length (concat (replay_plan f))"
      using i by (metis nth_append, metis length_append length_msg_positions trans_less_add1)
    then have "messages_from (df_file f) pos = drop ?i (concat (replay_plan f))"
      using messages_from_position [of "concat (replay_plan f)" "df_file f" p ?i] p(2) by simp
    then have "set (messages_from (rf_file rf) pos) \<subseteq> set (concat (replay_plan f))"
      using w(1) f(7) set_drop_subset by metis
    then show ?thesis using set_dropWhileD unfolding session_at_plan [OF assms(1,2)] by fastforce
  qed
  then show ?thesis
    using f(10) w(2) by (auto simp: rf_asserts_hold_def playable_def admits_def length_frame)
qed

lemma serve_ok:
  assumes "session_at b e eh cfg pb_cfg bodies n t f s" and "skips_first (early cfg) (map frame bodies)" and "worker_of rf pb_cfg bodies"
  obtains rf' evs u' where
    "handle_request b ew u rf (df_retransmission_buffer (th_feed s)) (Recv_datagram d addr) = Inr (rf', evs, u')"
    and "worker_of rf' pb_cfg bodies" and "reply_ok pb_cfg f (d, addr, evs)"
proof -
  let ?rb = "df_retransmission_buffer (th_feed s)" and ?sess = "cfg_session pb_cfg" and ?cap = "cfg_MTU pb_cfg - 20"
  note f = session_at_feed [OF assms(1)]
  have w: "rf_inv rf" "session (rf_packet_builder rf) = ?sess" "pb_MTU (rf_packet_builder rf) - 20 = ?cap"
    using assms(3) by (simp_all add: worker_of_def pb_config_def)
  have net: "\<not> debug_no_network b" using replay_readyD(6) [OF f(1)] .
  obtain posns where rb: "rb_rep ?rb posns" "rb_size ?rb = unat n" "unat (rb_write_seq ?rb) = length posns" by (rule session_ring [OF assms(1)])
  show ?thesis
  proof (cases "\<exists>seq count pos. take 20 d = header_of ?sess seq count \<and> file_position_for ?rb seq = Inr (Some pos)")
    case True
    then obtain seq count pos where d: "take 20 d = header_of ?sess seq count" and pos: "file_position_for ?rb seq = Inr (Some pos)" by blast
    have hdr: "take 20 d = header_of (session (rf_packet_builder rf)) seq count" using d w(2) by simp
    let ?reply = "mold_packet ?sess seq (retransmitted rf pos count)"
    obtain rf' where r: "handle_request b ew u rf ?rb (Recv_datagram d addr) =
        Inr (rf', Send addr ?reply (send_result_at ew u) # (if send_result_at ew u < 0 then [Logged_error] else []), Suc u)"
      "rf_inv rf'" "rf_same rf rf'"
      using handle_request_serves [OF w(1) worker_asserts [OF assms pos] net hdr pos, of ew u addr] w(2) by metis
    have "length ?reply \<le> cfg_MTU pb_cfg"
      using fit_size [of ?cap "take (unat count) (messages_from (rf_file rf) pos)"] f(9)
      by (simp add: length_mold_packet [OF f(6)] retransmitted_def w(3))
    moreover have "?reply = mold_packet ?sess 0 (fit ?cap (take (unat count) (messages_from (df_file f) 0)))" if "seq = 0"
    proof -
      have "pos = 0" using pos that by (simp add: file_position_for_rep [OF rb(1)] split: if_splits)
      moreover have "rf_file rf = df_file f" using assms(3) f(7) by (simp add: worker_of_def)
      ultimately show ?thesis using that by (simp add: retransmitted_def w(3))
    qed
    moreover have "unat seq \<le> length (concat (replay_plan f)) \<and>
        ?reply = mold_packet ?sess seq (fit ?cap (take (unat count) (drop (unat seq - 1) (concat (replay_plan f)))))" if "seq \<noteq> 0"
    proof -
      have win: "1 \<le> unat seq" "unat seq \<le> length posns" "length posns < unat seq + unat n"
        using pos that file_position_for_rep [OF rb(1), of seq] rb(2) by (auto simp: window_lookup_def split: if_splits)
      have "take 20 d = header_of ?sess (word_of_nat (unat seq)) count" using d by simp
      from worker_answers [OF assms rb(3) [symmetric] win this, of ew u addr] show ?thesis using r(1) by (auto simp: fun_eq_iff)
    qed
    ultimately have "reply_ok pb_cfg f (d, addr, Send addr ?reply (send_result_at ew u) # (if send_result_at ew u < 0 then [Logged_error] else []))"
      using d unfolding reply_ok_def by (cases "seq = 0") auto
    then show ?thesis using that r(1) worker_of_same [OF assms(3) r(2,3)] by blast
  next
    case False
    have "\<exists>x. file_position_for ?rb seq = Inr x" for seq using file_position_for_rep [OF rb(1)] by simp
    then have "\<forall>seq count. take 20 d = header_of (session (rf_packet_builder rf)) seq count \<longrightarrow> file_position_for ?rb seq = Inr None"
      using False w(2) by (metis option.exhaust)
    then obtain rf' where "handle_request b ew u rf ?rb (Recv_datagram d addr) = Inr (rf', [], u)" "rf_inv rf'" "rf_same rf rf'"
      using handle_request_silent [OF w(1)] by metis
    then show ?thesis using that worker_of_same [OF assms(3)] by (auto simp: reply_ok_def)
  qed
qed

subsection \<open>The invariant\<close>

definition run_inv ::
  "build \<Rightarrow> env \<Rightarrow> env \<Rightarrow> downstream_config \<Rightarrow> packet_builder_config \<Rightarrow> bytes list \<Rightarrow> u64 \<Rightarrow> nat \<Rightarrow> downstream_feed \<Rightarrow> server_run \<Rightarrow> bool" where
  "run_inv b e eh cfg pb_cfg bodies n t f s \<longleftrightarrow>
     session_at b e eh cfg pb_cfg bodies n t f (sr_threads s) \<and> skips_first (early cfg) (map frame bodies) \<and>
     (\<forall>rf. Some rf \<in> set (sr_workers s) \<longrightarrow> worker_of rf pb_cfg bodies) \<and>
     (\<forall>r \<in> set (sr_replies s). reply_ok pb_cfg f r) \<and> \<not> sr_failed s \<and>
     (0 < sr_eventfd s \<longrightarrow> th_pc (sr_threads s) = P_done) \<and> (None \<in> set (sr_workers s) \<longrightarrow> 0 < sr_eventfd s)"

lemma run_inv_init: "run_init b e cfg pb_cfg bodies n t f s \<Longrightarrow> run_inv b e eh cfg pb_cfg bodies n t f s"
  unfolding run_init_def run_inv_def using session_at_start by fastforce

lemma done_no_tstep:
  assumes "session_at b e eh cfg pb_cfg bodies n t f s" and "th_pc s = P_done"
  shows "\<not> tstep b e eh s s'"
  using session_at_invs(3) [OF assms(1)] assms(2)
  by (auto simp: in_step_def feed_step_def heartbeat_step_def elim!: tstep.cases)

lemma run_inv_step:
  assumes "run_inv b e eh cfg pb_cfg bodies n t f s" and "run_step b e eh ew s s'"
  shows "run_inv b e eh cfg pb_cfg bodies n t f s'"
  using assms(2)
proof cases
  case (downstream th)
  have "th_pc (sr_threads s) \<noteq> P_done"
    using done_no_tstep downstream(2) assms(1) by (auto simp: run_inv_def)
  moreover have "session_at b e eh cfg pb_cfg bodies n t f th"
    using session_at_steps [OF _ r_into_rtranclp, of b e eh cfg pb_cfg bodies n t f "sr_threads s" th] downstream(2) assms(1) by (simp add: run_inv_def)
  ultimately show ?thesis using assms(1) downstream(1) by (auto simp: run_inv_def)
next
  case stop_feeds
  then show ?thesis using assms(1) by (simp add: run_inv_def)
next
  case (serve i rf u d addr rf' evs u')
  have "worker_of rf pb_cfg bodies" using serve(2,3) assms(1) nth_mem by (fastforce simp: run_inv_def)
  then have ok: "worker_of rf' pb_cfg bodies" "reply_ok pb_cfg f (d, addr, evs)"
    using serve_ok [of b e eh cfg pb_cfg bodies n t f "sr_threads s" rf ew u d addr] assms(1) serve(4) by (auto simp: run_inv_def)
  have "set ((sr_workers s)[i := Some rf']) \<subseteq> insert (Some rf') (set (sr_workers s))" by (rule set_update_subset_insert)
  then show ?thesis using ok assms(1) unfolding serve(1) run_inv_def by auto
next
  case (serve_fails i rf u d addr err)
  have "worker_of rf pb_cfg bodies" using serve_fails(2,3) assms(1) nth_mem by (fastforce simp: run_inv_def)
  then show ?thesis
    using serve_ok [of b e eh cfg pb_cfg bodies n t f "sr_threads s" rf ew u d addr] assms(1) serve_fails(4) by (auto simp: run_inv_def)
next
  case (worker_leaves i rf)
  have "set ((sr_workers s)[i := None]) \<subseteq> insert None (set (sr_workers s))" by (rule set_update_subset_insert)
  then show ?thesis using assms(1) worker_leaves(4) unfolding worker_leaves(1) run_inv_def by auto
qed

interpretation running: invariant_system "run_init b e cfg pb_cfg bodies n t f" "run_step b e eh ew" "run_inv b e eh cfg pb_cfg bodies n t f"
  for b e eh ew cfg pb_cfg bodies n t f
  by standard (fact run_inv_init, fact run_inv_step)

subsection \<open>The server can be brought to its end\<close>

lemma downstream_steps: "(tstep b e eh)\<^sup>*\<^sup>* (sr_threads s) th \<Longrightarrow> (run_step b e eh ew)\<^sup>*\<^sup>* s (s\<lparr>sr_threads := th\<rparr>)"
proof (induction rule: rtranclp_induct)
  case base
  then show ?case by simp
next
  case (step th th')
  have "run_step b e eh ew (s\<lparr>sr_threads := th\<rparr>) (s\<lparr>sr_threads := th\<rparr>\<lparr>sr_threads := th'\<rparr>)"
    using step(2) by (intro run_step.downstream) simp
  then show ?case using step.IH by simp
qed

lemma workers_leave_steps:
  assumes "0 < sr_eventfd s"
  shows "\<exists>ws. (run_step b e eh ew)\<^sup>*\<^sup>* s (s\<lparr>sr_workers := ws\<rparr>) \<and> set ws \<subseteq> {None}"
  using assms
proof (induction "length (filter (\<lambda>w. w \<noteq> None) (sr_workers s))" arbitrary: s rule: less_induct)
  case less
  show ?case
  proof (cases "set (sr_workers s) \<subseteq> {None}")
    case True
    then show ?thesis by (intro exI [of _ "sr_workers s"]) simp
  next
    case False
    then obtain i rf where i: "i < length (sr_workers s)" "sr_workers s ! i = Some rf" by (auto simp: in_set_conv_nth) (metis option.exhaust)
    let ?s = "s\<lparr>sr_workers := (sr_workers s)[i := None]\<rparr>"
    have "length (filter (\<lambda>w. w \<noteq> None) (sr_workers ?s)) < length (filter (\<lambda>w. w \<noteq> None) (sr_workers s))"
      using filter_update_less [OF i(1), of "\<lambda>w. w \<noteq> None" None] i(2) by simp
    from less.hyps [OF this] less.prems obtain ws where "(run_step b e eh ew)\<^sup>*\<^sup>* ?s (s\<lparr>sr_workers := ws\<rparr>)" "set ws \<subseteq> {None}" by auto
    moreover have "run_step b e eh ew s ?s" using run_step.worker_leaves [OF i less.prems] .
    ultimately show ?thesis using converse_rtranclp_into_rtranclp [of "run_step b e eh ew" s ?s] by blast
  qed
qed

subsection \<open>From the configuration\<close>

text \<open>A server that \<open>make_server\<close> has built on a file of framed messages, its workers constructed on their threads, at the moment
  when \<open>start\<close> creates the downstream thread.\<close>

definition server_started :: "build \<Rightarrow> env \<Rightarrow> server_env \<Rightarrow> server_config \<Rightarrow> vm \<Rightarrow> bytes list \<Rightarrow> nat \<Rightarrow> server \<Rightarrow> server_run \<Rightarrow> bool" where
  "server_started b e se cfg v bodies t sv s \<longleftrightarrow>
     (\<exists>v'. make_server b se cfg v = (Inr (Inr sv), v')) \<and> map_env_ok (se_map se) v \<and>
     me_content (se_map se) = concat (map frame bodies) \<and>
     playable b e (sc_downstream cfg) (sc_packet_builder cfg) bodies (sc_buffer_size cfg) \<and>
     skips_first (early (sc_downstream cfg)) (map frame bodies) \<and> threads_init (sv_downstream_feed sv) t (sr_threads s) \<and>
     length (sr_workers s) = fp_num_feeds (sv_feeds sv) \<and>
     (\<forall>w \<in> set (sr_workers s). \<exists>rs rf. w = Some rf \<and>
        retransmission_feed_new b rs (sc_retransmission cfg) (sc_packet_builder cfg) (concat (map frame bodies))
          (fd_get (fp_shutdown_fd (sv_feeds sv))) = Inr rf) \<and>
     sr_eventfd s = fp_counter (sv_feeds sv) \<and> \<not> sr_failed s \<and> sr_replies s = []"

lemma worker_new:
  assumes "retransmission_feed_new b rs rcfg pb_cfg (concat (map frame bodies)) fd = Inr rf"
  shows "worker_of rf pb_cfg bodies"
proof -
  obtain pb where pb: "packet_builder_new b pb_cfg = Inr pb" "rf_packet_builder rf = pb" "rf_file rf = concat (map frame bodies)"
    "rf_recv_buffer rf = replicate 20 0" "length (rf_epoll_events rf) = 2"
    using assms by (auto simp: retransmission_feed_new_def andThen_eq_Inr_iff split: if_splits)
  then have "20 \<le> cfg_MTU pb_cfg" "length (cfg_session pb_cfg) = 10" "0 < cfg_min_message_size pb_cfg"
    using packet_builder_new_inv [OF pb(1)] by (simp_all add: pb_cfg_ok_def)
  then obtain pb' where "packet_builder_new b pb_cfg = Inr pb'" "pb_inv pb'" "session pb' = cfg_session pb_cfg" "pb_MTU pb' = cfg_MTU pb_cfg"
    "pb_min_message_size pb' = cfg_min_message_size pb_cfg" by (rule packet_builder_new_ok)
  then show ?thesis using pb by (simp add: worker_of_def rf_inv_def pb_config_def)
qed

lemma make_server_feed:
  assumes "make_server b se cfg v = (Inr (Inr sv), v')" and "map_env_ok (se_map se) v"
  obtains rb where "retransmission_buffer_new (sc_buffer_size cfg) = Inr rb"
    and "downstream_feed_new b (se_socket se) (sc_downstream cfg) (sc_packet_builder cfg) (me_content (se_map se)) rb = Inr (sv_downstream_feed sv)"
    and "fp_counter (sv_feeds sv) = 0"
proof -
  have "server_new b se cfg v = (Inr sv, v')" using assms(1) by (auto simp: make_server_def split: prod.splits sum.splits if_splits)
  then obtain mf v1 rb bs where m: "mapped_new (sc_mapped_file cfg) (se_map se) v = (Inr mf, v1)"
    "retransmission_buffer_new (sc_buffer_size cfg) = Inr rb" "as_span mf v1 = Inr bs"
    "downstream_feed_new b (se_socket se) (sc_downstream cfg) (sc_packet_builder cfg) bs rb = Inr (sv_downstream_feed sv)" "fp_counter (sv_feeds sv) = 0"
    by (auto simp: server_new_def downstream_feed_on_eq feed_pool_new_def Let_def andThen_eq_Inr_iff split: prod.splits sum.splits)
  have "as_span mf v1 = Inr (me_content (se_map se))" using as_span_holds mapped_new_ok assms(2) m(1) by blast
  then show ?thesis using that m by simp
qed

lemma server_started_init:
  assumes "server_started b e se cfg v bodies t sv s"
  shows "run_init b e (sc_downstream cfg) (sc_packet_builder cfg) bodies (sc_buffer_size cfg) t (sv_downstream_feed sv) s"
proof -
  note st = assms [unfolded server_started_def]
  obtain rb where "retransmission_buffer_new (sc_buffer_size cfg) = Inr rb" "fp_counter (sv_feeds sv) = 0"
    "downstream_feed_new b (se_socket se) (sc_downstream cfg) (sc_packet_builder cfg) (concat (map frame bodies)) rb = Inr (sv_downstream_feed sv)"
    using st make_server_feed by metis
  then show ?thesis using st worker_new unfolding run_init_def by (intro conjI) metis+
qed

lemma run_can_finish:
  assumes "reachable (run_init b e cfg pb_cfg bodies n t f) (run_step b e eh ew) s"
    and "clock_passes e (t + 4 * Suc (length bodies)) (dc_end_of_session_duration cfg)"
    and "\<forall>u. fits_i64 (now_at e u + dc_end_of_session_duration cfg)"
  shows "\<exists>s'. (run_step b e eh ew)\<^sup>*\<^sup>* s s' \<and> th_pc (sr_threads s') = P_done \<and> th_hb_pc (sr_threads s') = H_exited \<and>
    set (sr_workers s') \<subseteq> {None} \<and> \<not> sr_failed s'"
proof -
  let ?steps = "(run_step b e eh ew)\<^sup>*\<^sup>*"
  have inv: "run_inv b e eh cfg pb_cfg bodies n t f s" by (rule running.reachable_inv [OF assms(1)])
  then have at: "session_at b e eh cfg pb_cfg bodies n t f (sr_threads s)" by (simp add: run_inv_def)
  obtain th where th: "(tstep b e eh)\<^sup>*\<^sup>* (sr_threads s) th" "th_pc th = P_done" using session_at_ends [OF at assms(2,3)] by blast
  have hb: "th_hb_pc th = H_exited" using session_at_invs(3) [OF session_at_steps [OF at th(1)]] th(2) by (simp add: in_step_def)
  let ?s1 = "s\<lparr>sr_threads := th\<rparr>"
  have s1: "?steps s ?s1" using th(1) by (rule downstream_steps)
  obtain k where s2: "?steps ?s1 (?s1\<lparr>sr_eventfd := k\<rparr>)" "0 < k"
  proof (cases "sr_eventfd s = 0")
    case True
    then have "run_step b e eh ew ?s1 (?s1\<lparr>sr_eventfd := 1\<rparr>)" using th(2) by (intro run_step.stop_feeds) simp_all
    then show ?thesis using that [of 1, OF r_into_rtranclp] by simp
  next
    case False
    then show ?thesis using that [of "sr_eventfd s"] by simp
  qed
  let ?s2 = "?s1\<lparr>sr_eventfd := k\<rparr>"
  have "0 < sr_eventfd ?s2" using s2(2) by simp
  from workers_leave_steps [OF this] obtain ws where s3: "?steps ?s2 (?s2\<lparr>sr_workers := ws\<rparr>)" "set ws \<subseteq> {None}" by blast
  have "?steps s (?s2\<lparr>sr_workers := ws\<rparr>)" using s1 s2(1) s3(1) by (meson rtranclp_trans)
  moreover have "\<not> sr_failed s" using inv by (simp add: run_inv_def)
  ultimately show ?thesis using th(2) hb s3(2) by (intro exI [of _ "?s2\<lparr>sr_workers := ws\<rparr>"]) simp
qed

lemma server_reachable:
  assumes "reachable (server_started b e se cfg v bodies t sv) (run_step b e eh ew) s"
  shows "reachable (run_init b e (sc_downstream cfg) (sc_packet_builder cfg) bodies (sc_buffer_size cfg) t (sv_downstream_feed sv)) (run_step b e eh ew) s"
  using assms server_started_init by (rule reachable_mono)

subsection \<open>A sample server\<close>

definition serving_env :: server_env where
  "serving_env = sample_server_env\<lparr>se_map := sample_map_env\<lparr>me_content := concat (map frame sample_bodies), me_file_size := Inr 28\<rparr>\<rparr>"

definition serving_server :: server where
  "serving_server = (case fst (make_server sample_build serving_env sample_server_cfg sample_vm) of Inr (Inr sv) \<Rightarrow> sv)"

definition serving_run :: server_run where
  "serving_run = \<lparr>sr_threads = \<lparr>th_feed = sv_downstream_feed serving_server, th_pc = P_begin, th_tick = 0, th_hb_pc = H_none, th_hb_tick = 0,
       th_wire = [], th_stored = [df_sent_sequence_number (sv_downstream_feed serving_server)]\<rparr>,
     sr_workers = replicate 2 (Some (sample_worker (concat (map frame sample_bodies)))),
     sr_eventfd = 0, sr_failed = False, sr_replies = []\<rparr>"

lemma serving_built:
  obtains v' where "make_server sample_build serving_env sample_server_cfg sample_vm = (Inr (Inr serving_server), v')"
    and "fp_num_feeds (sv_feeds serving_server) = 2" and "fp_counter (sv_feeds serving_server) = 0"
    and "fd_get (fp_shutdown_fd (sv_feeds serving_server)) = 5"
proof -
  have len: "length (concat (map frame sample_bodies)) = 28" by (simp add: sample_bodies_def length_frame)
  have ok: "server_cfg_ok serving_env sample_server_cfg" "map_env_ok (se_map serving_env) sample_vm"
    using sample_server_ok sample_map_ok
    by (simp_all add: server_cfg_ok_def serving_env_def sample_server_cfg_def len map_env_ok_def sample_server_env_def)
  have map: "\<exists>mf v1. mapped_new (sc_mapped_file sample_server_cfg) (se_map serving_env) sample_vm = (Inr mf, v1)"
    by (simp add: mapped_new_def fd_from_path_def sample_map_env_def acquire_def Let_def sample_server_cfg_def serving_env_def)
  then obtain mf v1 where m: "mapped_new (sc_mapped_file sample_server_cfg) (se_map serving_env) sample_vm = (Inr mf, v1)" by blast
  obtain sv v' where sv: "server_new sample_build serving_env sample_server_cfg sample_vm = (Inr sv, v')"
    "fd_get (fp_shutdown_fd (sv_feeds sv)) = 5"
    by (rule server_new_ok [OF ok m, of sample_build]) (simp add: serving_env_def sample_server_env_def)
  then have made: "make_server sample_build serving_env sample_server_cfg sample_vm = (Inr (Inr sv), v')" by (simp add: make_server_def)
  then have "serving_server = sv" by (simp add: serving_server_def)
  moreover have "fp_num_feeds (sv_feeds sv) = 2" "fp_counter (sv_feeds sv) = 0"
    using sv(1) by (auto simp: server_new_def downstream_feed_on_eq feed_pool_new_def Let_def andThen_eq_Inr_iff sample_server_cfg_def split: prod.splits sum.splits)
  ultimately show ?thesis using that made sv(2) by simp
qed

lemma serving_worker: "retransmission_feed_new sample_build sample_socket_env \<lparr>rc_address = [], rc_port = 5001\<rparr> sample_pb_cfg bs 5 = Inr (sample_worker bs)"
proof -
  obtain pb where "packet_builder_new sample_build sample_pb_cfg = Inr pb" by (rule sample_worker_new)
  then show ?thesis
    by (simp add: sample_worker_def retransmission_feed_new_def retransmission_configure_socket_def sample_socket_env_def sample_build_def)
qed

lemma serving_started: "server_started sample_build sample_env serving_env sample_server_cfg sample_vm sample_bodies 0 serving_server serving_run"
proof -
  have len: "length (concat (map frame sample_bodies)) = 28" by (simp add: sample_bodies_def length_frame)
  have "map_env_ok (se_map serving_env) sample_vm" using sample_map_ok by (simp add: serving_env_def map_env_ok_def len)
  moreover have "me_content (se_map serving_env) = concat (map frame sample_bodies)" by (simp add: serving_env_def)
  moreover have "threads_init (sv_downstream_feed serving_server) 0 (sr_threads serving_run)" by (simp add: threads_init_def serving_run_def)
  moreover have "sc_downstream sample_server_cfg = sample_cfg" "sc_packet_builder sample_server_cfg = sample_pb_cfg" "sc_buffer_size sample_server_cfg = 4"
    "sc_retransmission sample_server_cfg = \<lparr>rc_address = [], rc_port = 5001\<rparr>" by (simp_all add: sample_server_cfg_def)
  ultimately show ?thesis
    using serving_built sample_playable sample_skips_first serving_worker [of "concat (map frame sample_bodies)"]
    unfolding server_started_def by (simp add: serving_run_def) metis
qed

lemma serving_reachable:
  "reachable (server_started sample_build sample_env serving_env sample_server_cfg sample_vm sample_bodies 0 serving_server)
     (run_step sample_build sample_env sample_env sample_env) serving_run"
  by (rule reachable.start) (rule serving_started)

lemma serving_times:
  "clock_passes sample_env (0 + 4 * Suc (length sample_bodies)) (dc_end_of_session_duration (sc_downstream sample_server_cfg))"
  "\<forall>u. fits_i64 (now_at sample_env u + dc_end_of_session_duration (sc_downstream sample_server_cfg))"
  using sample_times by (simp_all add: sample_server_cfg_def)

section \<open>Properties\<close>

text \<open>
  C1. From the configuration to the receiver: take a server that \<open>make_server\<close> has built on a file of framed messages, and any
  interleaving of its downstream thread, its heartbeat thread and its workers, with clients that send any datagrams at any
  time. No worker fails. Every request handled got at most one reply, to its sender and within the MTU. A reply to a number
  other than 0 repeats messages of the session, under their own numbers, from the requested one on, as many as were asked for and fit. A reply
  to number 0, which the ring buffer lets through while it has an unused slot, carries the first messages of the file under number 0
  (\<open>reply_ok\<close>). And when the downstream thread is done, a receiver on
  any host has been sent the bodies of the file, in order and numbered without gaps, less the leading ones
  that \<open>skip_before\<close> passes over; every end-of-session packet carries the number after the last message; and the ring buffer
  has recorded every message.
\<close>

theorem built_server_serves:
  assumes "reachable (server_started b e se cfg v bodies t sv) (run_step b e eh ew) s"
    and "f = sv_downstream_feed sv" and "pb_cfg = sc_packet_builder cfg" and "cfg_MTU pb_cfg < 65536"
    and "sent = dropWhile (\<lambda>body. early (sc_downstream cfg) (frame body)) bodies"
  shows "\<not> sr_failed s \<and> (\<forall>r \<in> set (sr_replies s). reply_ok pb_cfg f r) \<and>
    (th_pc (sr_threads s) = P_done \<longrightarrow>
       map (receive_packet b') (datagrams_of Data (th_wire (sr_threads s))) = map Inr (decoded (cfg_session pb_cfg) 1 (replay_plan f)) \<and>
       concat (map snd (decoded (cfg_session pb_cfg) 1 (replay_plan f))) = sent \<and>
       set (datagrams_of Eos (th_wire (sr_threads s))) \<subseteq>
         {header_of (cfg_session pb_cfg) (word_of_nat (Suc (length sent))) end_of_session_msg_count} \<and>
       rb_write_seq (shared_ring s) = word_of_nat (length sent))"
proof -
  have inv: "run_inv b e eh (sc_downstream cfg) pb_cfg bodies (sc_buffer_size cfg) t f s"
    unfolding assms(2,3) by (rule running.reachable_inv [OF server_reachable [OF assms(1)]])
  then show ?thesis using done_delivers [OF _ _ assms(4) _ assms(5)] unfolding run_inv_def by blast
qed

theorem built_server_serves_witness:
  "\<exists>(s :: server_run). th_pc (sr_threads s) = P_done \<and> \<not> sr_failed s \<and>
    map (receive_packet release_build) (datagrams_of Data (th_wire (sr_threads s))) =
      map Inr (decoded sample_session 1 (replay_plan (sv_downstream_feed serving_server))) \<and>
    concat (map snd (decoded sample_session 1 (replay_plan (sv_downstream_feed serving_server)))) = sample_bodies"
proof -
  obtain s where s: "(run_step sample_build sample_env sample_env sample_env)\<^sup>*\<^sup>* serving_run s" "th_pc (sr_threads s) = P_done"
    using run_can_finish [OF server_reachable [OF serving_reachable] serving_times] by blast
  have cfg: "sample_pb_cfg = sc_packet_builder sample_server_cfg" "cfg_MTU sample_pb_cfg < 65536" "cfg_session sample_pb_cfg = sample_session"
    "sample_bodies = dropWhile (\<lambda>body. early (sc_downstream sample_server_cfg) (frame body)) sample_bodies"
    by (simp_all add: sample_server_cfg_def sample_pb_cfg_def default_packet_builder_config_def sample_bodies_def sample_not_early)
  show ?thesis
    using built_server_serves [OF reachable_steps [OF serving_reachable s(1)] refl cfg(1,2,4), of release_build] s(2) unfolding cfg(3) by blast
qed

text \<open>
  C6. A server that was started can always be brought to its end: from every state that the interleaving reaches, when the clock
  advances by the end-of-session duration, the downstream thread can finish the session, it then writes the descriptor, and
  all workers can leave.
\<close>

theorem server_can_finish:
  assumes "reachable (server_started b e se cfg v bodies t sv) (run_step b e eh ew) s"
    and "clock_passes e (t + 4 * Suc (length bodies)) (dc_end_of_session_duration (sc_downstream cfg))"
    and "\<forall>u. fits_i64 (now_at e u + dc_end_of_session_duration (sc_downstream cfg))"
  shows "\<exists>s'. (run_step b e eh ew)\<^sup>*\<^sup>* s s' \<and> th_pc (sr_threads s') = P_done \<and> th_hb_pc (sr_threads s') = H_exited \<and>
    set (sr_workers s') \<subseteq> {None} \<and> \<not> sr_failed s'"
  using run_can_finish [OF server_reachable [OF assms(1)] assms(2,3)] .

theorem server_can_finish_witness:
  "\<exists>s'. (run_step sample_build sample_env sample_env sample_env)\<^sup>*\<^sup>* serving_run s' \<and> th_pc (sr_threads s') = P_done \<and>
    th_hb_pc (sr_threads s') = H_exited \<and> set (sr_workers s') \<subseteq> {None} \<and> \<not> sr_failed s'"
  using server_can_finish [OF serving_reachable serving_times] .

end
