(* ===== verification/Unit_Tests.thy ===== *)
theory Unit_Tests
  imports Server
begin

text \<open>
  The unit tests of the repository (\<open>src/tests/unit/tests/\<close>) and the component tests of \<open>src/tests/integration/tests/components/\<close>,
  run on the model: a fixture or a helper of a test is a definition, a test is a lemma of the same name that evaluates the
  model on the test's inputs. They do not add to what the theorems of the components say for all inputs; they check
  that the definitions give the values that the authors of the program expect of the code.

  A test that constructs an object binds its result (\<open>andThen\<close>), \<open>EXPECT_THROW\<close> expects \<open>Inl\<close>. The tests run in a debug
  build on a little-endian host.
\<close>

definition ascii :: "string \<Rightarrow> bytes" where
  "ascii s = map of_char s"

definition test_build :: build where
  "test_build = \<lparr>ndebug = False, native = Little, debug_no_network = False, debug_no_sleep = False\<rparr>"

section \<open>ITCH timestamps\<close>

lemma ReturnsCorrectValue_ByteswappingFromNetworkOrder:
  "extract_timestamp test_build [0, 0, 0, 0, 0, 0x00, 0x01, 0x02, 0x03, 0x04, 0x05] = Inr 0x000102030405"
  by (subst extract_timestamp_little) (simp_all add: test_build_def segment_def be_val_def)

lemma ReturnsZero_ForZeroedPacket: "extract_timestamp test_build (replicate 11 0) = Inr 0"
  by code_simp

section \<open>Reading a message\<close>

definition make_msg_block :: "bytes \<Rightarrow> bytes res" where
  "make_msg_block body =
     andThen (write_be test_build (replicate (length_prefix_size + length body) 0) 0 (word_of_nat (length body) :: u16)) (\<lambda>(block, pos).
     andThen (write_range test_build block pos body) (\<lambda>(block', pos'). Inr block'))"

lemma ValidMessage_ReturnsFullSpanAndAdvancesPos:
  "andThen (make_msg_block (ascii ''abc'')) (\<lambda>block. andThen (read_message test_build block 0) (\<lambda>(res, pos). Inr (length res, pos))) =
    Inr (length_prefix_size + 3, length_prefix_size + 3)"
  by code_simp

lemma TruncatedLengthPrefix_ReturnsEmpty: "andThen (read_message test_build [0] 0) (\<lambda>(res, pos). Inr res) = Inr []"
  by code_simp

lemma TruncatedBody_ReturnsEmpty:
  "andThen (make_msg_block (ascii ''abcde'')) (\<lambda>block.
     andThen (read_message test_build (take (length block - 2) block) 0) (\<lambda>(res, pos). Inr res)) = Inr []"
  by code_simp

section \<open>The packet builder\<close>

definition test_pb_cfg :: packet_builder_config where
  "test_pb_cfg = (default_packet_builder_config (ascii ''SESSION001''))\<lparr>cfg_MTU := 100\<rparr>"

definition min_msg :: bytes where "min_msg = replicate default_min_message_size 0"

definition builder :: "packet_builder res" where "builder = packet_builder_new test_build test_pb_cfg"

text \<open>\<open>ASSERT_TRUE\<close> in the helper leaves the helper; \<open>None\<close> is that the assertion failed.\<close>

fun add_messages :: "nat \<Rightarrow> packet_builder \<Rightarrow> packet_builder option res" where
  "add_messages 0 pb = Inr (Some pb)"
| "add_messages (Suc n) pb = andThen (try_add test_build pb min_msg) (\<lambda>(added, pb'). if added then add_messages n pb' else Inr None)"

definition after_messages :: "nat \<Rightarrow> (packet_builder \<Rightarrow> 'a res) \<Rightarrow> 'a option res" where
  "after_messages n f =
     andThen builder (\<lambda>pb. andThen (add_messages n pb) (\<lambda>pb'.
       case pb' of None \<Rightarrow> Inr None | Some pb'' \<Rightarrow> andThen (f pb'') (\<lambda>x. Inr (Some x))))"

definition finalized :: "packet_builder \<Rightarrow> (iovec list \<times> bytes) res" where
  "finalized pb = andThen (finalize test_build pb) (\<lambda>(packet, pb'). Inr (packet, iov_bytes pb' (hd packet)))"

lemma add_messages_numeral:
  "add_messages (numeral k) pb = andThen (try_add test_build pb min_msg)
     (\<lambda>(added, pb'). if added then add_messages (pred_numeral k) pb' else Inr None)"
  by (simp add: numeral_eq_Suc)

lemmas builder_evaluation = after_messages_def builder_def packet_builder_new_def test_pb_cfg_def default_packet_builder_config_def
  default_min_message_size_def min_msg_def test_build_def reset_def finalized_def finalize_def write_at_be_eq write_at_range_eq
  read_at_be_eq message_count_def iov_bytes_def header_iovec_def try_add_def message_iovec_def ascii_def overwrite_def segment_def
  be_bytes_def be_val_def le_bytes_numeral check_assert_def add_messages_numeral

lemma Ctor_ValidConfig_CopiesSessionToHeader:
  "after_messages 0 (\<lambda>pb. andThen (finalized pb) (\<lambda>(packet, header). Inr (take 10 header))) = Inr (Some (ascii ''SESSION001''))"
  by code_simp

lemma Ctor_SessionLengthNot10_ThrowsInvalidArgument:
  "packet_builder_new test_build (default_packet_builder_config (ascii '''')) = Inl Invalid_argument"
  "packet_builder_new test_build (default_packet_builder_config (ascii ''012345678'')) = Inl Invalid_argument"
  "packet_builder_new test_build (default_packet_builder_config (ascii ''01234567890'')) = Inl Invalid_argument"
  by code_simp+

lemma Ctor_SessionExactly10Chars_DoesNotThrow:
  "\<exists>pb. packet_builder_new test_build (default_packet_builder_config (ascii ''0123456789'')) = Inr pb"
  using packet_builder_new_ok [of "default_packet_builder_config (ascii ''0123456789'')" test_build]
  by (auto simp: default_packet_builder_config_def ascii_def default_min_message_size_def)

lemma Session_Always_ReturnsConfiguredSession: "after_messages 0 (\<lambda>pb. Inr (session pb)) = Inr (Some (ascii ''SESSION001''))"
  by code_simp

lemma TryAdd_PacketFull_ReturnsFalse:
  "after_messages ((cfg_MTU test_pb_cfg - header_length) div length min_msg) (\<lambda>pb. andThen (try_add test_build pb min_msg) (\<lambda>(added, _). Inr added)) =
    Inr (Some False)"
  by code_simp

lemma TryAdd_EmptyMessage_ReturnsFalse:
  "after_messages 0 (\<lambda>pb. andThen (try_add test_build pb []) (\<lambda>(added, _). Inr added)) = Inr (Some False)"
  by code_simp

lemma TryAdd_MultipleMessages_AccumulatesMessageCount: "after_messages 5 (\<lambda>pb. Inr (message_count pb)) = Inr (Some 5)"
  by code_simp

lemma Finalize_AfterMessages_WritesMessageCountToHeader:
  "after_messages 5 (\<lambda>pb. andThen (finalized pb) (\<lambda>(packet, header). read_at_be test_build header message_count_offset)) = Inr (Some (5 :: u16))"
  by code_simp

lemma Finalize_AfterMessages_ReturnsHeaderIovecPlusOnePerMessage:
  "after_messages 5 (\<lambda>pb. andThen (finalized pb) (\<lambda>(packet, header). Inr (map iov_len packet))) =
    Inr (Some (header_length # replicate 5 (length min_msg)))"
  by code_simp

lemma Finalize_AfterMessage_MessageIovecPointsToOriginalData:
  "after_messages 0 (\<lambda>pb. andThen (try_add test_build pb (ascii ''ABC'' @ replicate 11 0)) (\<lambda>(added, pb').
     andThen (finalized pb') (\<lambda>(packet, header). Inr (added, iov_base (packet ! 1))))) =
    Inr (Some (True, Message_data (ascii ''ABC'' @ replicate 11 0)))"
  by code_simp

lemma Reset_AfterMessages_ClearsMessageCount:
  "after_messages 2 (\<lambda>pb. andThen (reset test_build pb 1) (\<lambda>pb'. Inr (message_count pb'))) = Inr (Some 0)"
  by (simp add: builder_evaluation)

lemma Reset_WhenFull_AllowsRefill:
  "after_messages 5 (\<lambda>pb. andThen (try_add test_build pb min_msg) (\<lambda>(more1, pb1).
     andThen (reset test_build pb1 1) (\<lambda>pb2. andThen (try_add test_build pb2 min_msg) (\<lambda>(again, _). Inr (more1, again))))) =
    Inr (Some (False, True))"
  by (simp add: builder_evaluation)

lemma Reset_GivenSequenceNumber_WritesSequenceNumberToHeader:
  "after_messages 0 (\<lambda>pb. andThen (reset test_build pb 99) (\<lambda>pb'.
     andThen (finalized pb') (\<lambda>(packet, header). read_at_be test_build header sequence_number_offset))) = Inr (Some (99 :: u64))"
  by (simp add: builder_evaluation)

section \<open>The retransmission buffer\<close>

fun push_records :: "(u64 \<times> nat) list \<Rightarrow> retransmission_buffer \<Rightarrow> retransmission_buffer res" where
  "push_records [] rb = Inr rb"
| "push_records ((seq, pos) # rs) rb = andThen (push rb \<lparr>rec_sequence_number = seq, rec_file_position = pos\<rparr>) (push_records rs)"

definition after_pushes :: "(u64 \<times> nat) list \<Rightarrow> u64 list \<Rightarrow> nat option list res" where
  "after_pushes rs seqs =
     andThen (retransmission_buffer_new 4) (\<lambda>rb. andThen (push_records rs rb) (\<lambda>rb'.
       foldr (\<lambda>seq acc. andThen (file_position_for rb' seq) (\<lambda>p. andThen acc (\<lambda>ps. Inr (p # ps)))) seqs (Inr [])))"

lemmas ring_evaluation = after_pushes_def retransmission_buffer_new_def push_def file_position_for_def index_for_def empty_record_def
  Let_def word_le_nat_alt word_less_nat_alt

lemma Ctor_Zero_Throws: "retransmission_buffer_new 0 = Inl Invalid_argument"
  by (simp add: retransmission_buffer_new_def)

lemma Size_ReturnsConstructorArg: "andThen (retransmission_buffer_new 4) (\<lambda>rb. Inr (rb_size rb)) = Inr 4"
  by (simp add: ring_evaluation rb_size_def)

lemma Push_Record_IsRetrievable: "after_pushes [(1, 100)] [1] = Inr [Some 100]"
  by (simp add: ring_evaluation)

lemma Push_BeyondCapacity_OldestEvictedNewestRetrievable:
  "after_pushes [(1, 100), (2, 200), (3, 300), (4, 400), (5, 500)] [1, 5] = Inr [None, Some 500]"
  by (simp add: ring_evaluation)

lemma FilePositionFor_EmptyBuffer_ReturnsNullopt: "after_pushes [] [1] = Inr [None]"
  by (simp add: ring_evaluation)

lemma FilePositionFor_FutureSequence_ReturnsNullopt: "after_pushes [(1, 100)] [2] = Inr [None]"
  by (simp add: ring_evaluation)

lemma FilePositionFor_LiveWindowAfterWrap_ReturnsCorrectPositions:
  "after_pushes (map (\<lambda>i. (word_of_nat i, i * 10)) [1, 2, 3, 4, 5, 6]) [1, 2, 3, 4, 5, 6] =
    Inr [None, None, Some 30, Some 40, Some 50, Some 60]"
  by (simp add: ring_evaluation)

section \<open>The pacer\<close>

definition mock_clock :: "int \<Rightarrow> env" where
  "mock_clock now = \<lparr>stop_requested_at = (\<lambda>_. False), now_at = (\<lambda>_. now), send_result_at = (\<lambda>_. 0)\<rparr>"

definition two_packet_delay :: "rat \<Rightarrow> int \<Rightarrow> int \<Rightarrow> int \<Rightarrow> int res" where
  "two_packet_delay speed first_time second_time clock_at_second =
     andThen (get_delay (mock_clock 0) 0 (pacer_new (default_pacer_config\<lparr>cfg_playback_speed := Finite speed\<rparr>)) first_time) (\<lambda>(_, p, t).
     andThen (get_delay (mock_clock clock_at_second) t p second_time) (\<lambda>(delay, _, _). Inr delay))"

lemma ShouldSkip_ReturnsTrue_ForPacketBeforeIgnoreThreshold:
  "should_skip (pacer_new (default_pacer_config\<lparr>cfg_skip_before := phase_to_ns Open\<rparr>)) (phase_to_ns Open - 1)"
  by (simp add: should_skip_def pacer_new_def)

lemma ShouldSkip_ReturnsFalse_AtExactIgnoreThreshold:
  "\<not> should_skip (pacer_new (default_pacer_config\<lparr>cfg_skip_before := phase_to_ns Open\<rparr>)) (phase_to_ns Open)"
  by (simp add: should_skip_def pacer_new_def)

lemma GetDelay_ReturnsZeroDelay_ForFirstValidPacket:
  "andThen (get_delay (mock_clock 0) 0 (pacer_new (default_pacer_config\<lparr>cfg_skip_before := phase_to_ns Open\<rparr>)) (phase_to_ns Open)) (\<lambda>(delay, _, _). Inr delay) = Inr 0"
  by code_simp

lemma GetDelay_ReturnsZeroDelay_WhenScheduledTimeHasPassed: "two_packet_delay 1 0 500 600 = Inr 0"
  by code_simp

lemma GetDelay_ReturnsZeroDelay_WhenScheduledTimeIsExactlyNow: "two_packet_delay 1 0 500 500 = Inr 0"
  by code_simp

lemma GetDelay_ReturnsPositiveDelay_WhenScheduledTimeIsInFuture: "two_packet_delay 1 0 1000 200 = Inr 800"
  by code_simp

lemma GetDelay_HalfPlaybackSpeed_DoublesDelay: "two_packet_delay (1 / 2) 0 1000 200 = Inr 1800"
  by code_simp

lemma GetDelay_DoublePlaybackSpeed_HalvesDelay: "two_packet_delay 2 0 1000 200 = Inr 300"
  by code_simp

section \<open>Constructors of the feeds\<close>

text \<open>
  System calls that succeed. \<open>inet_pton\<close> accepts the two addresses that the tests use and rejects everything else; it is a
  function of the C library and an argument of the model.
\<close>

definition test_inet_pton :: "bytes \<Rightarrow> int \<times> u32" where
  "test_inet_pton address =
     (if address = ascii ''239.0.0.1'' then (1, 0x010000EF) else if address = ascii ''127.0.0.1'' then (1, 0x0100007F) else (0, 0))"

definition test_sockets :: socket_env where
  "test_sockets = \<lparr>socket_ret = 4, reuseaddr_ret = 0, ttl_ret = 0, loop_ret = 0, multicast_if_ret = 0, inet_pton = test_inet_pton, errno = 0\<rparr>"

definition test_worker_sockets :: retransmission_socket_env where
  "test_worker_sockets = \<lparr>rs_socket_ret = 6, rs_epoll_create_ret = 7, rs_reuseaddr_ret = 0, rs_reuseport_ret = 0,
     rs_inet_pton = test_inet_pton, rs_bind_ret = 0, rs_ctl_socket_ret = 0, rs_ctl_shutdown_ret = 0, rs_errno = 0\<rparr>"

definition make_downstream_feed :: "downstream_config \<Rightarrow> downstream_feed res" where
  "make_downstream_feed cfg = andThen (retransmission_buffer_new 1)
     (downstream_feed_new test_build test_sockets cfg (default_packet_builder_config (ascii ''SESSION001'')) (ascii ''abc''))"

definition make_retransmission_feed :: "retransmission_config \<Rightarrow> int \<Rightarrow> retransmission_feed res" where
  "make_retransmission_feed cfg shutdown_fd =
     retransmission_feed_new test_build test_worker_sockets cfg (default_packet_builder_config (ascii ''SESSION001'')) (ascii ''cde'') shutdown_fd"

definition throws :: "error \<Rightarrow> 'a res \<Rightarrow> bool" where
  "throws err r \<longleftrightarrow> (case r of Inl err' \<Rightarrow> err' = err | Inr _ \<Rightarrow> False)"

definition no_throw :: "'a res \<Rightarrow> bool" where
  "no_throw r \<longleftrightarrow> (case r of Inl _ \<Rightarrow> False | Inr _ \<Rightarrow> True)"

lemma DownstreamFeed_Ctor_ValidConfig_NoThrow: "no_throw (make_downstream_feed (default_downstream_config (ascii ''239.0.0.1'') 3400))"
  by code_simp

lemma DownstreamFeed_Ctor_InvalidMcastGroup_ThrowsInvalidArgument:
  "throws Invalid_argument (make_downstream_feed (default_downstream_config (ascii '''') 0))"
  "throws Invalid_argument (make_downstream_feed (default_downstream_config (ascii ''badip'') 0))"
  by code_simp+

lemma RetransmissionFeed_Ctor_ValidConfig_NoThrow:
  "no_throw (make_retransmission_feed \<lparr>rc_address = ascii ''127.0.0.1'', rc_port = 3500\<rparr> 5)"
  by code_simp

lemma RetransmissionFeed_Ctor_InvalidAddress_ThrowsInvalidArgument:
  "throws Invalid_argument (make_retransmission_feed \<lparr>rc_address = ascii '''', rc_port = 0\<rparr> 5)"
  "throws Invalid_argument (make_retransmission_feed \<lparr>rc_address = ascii ''badip'', rc_port = 0\<rparr> 5)"
  by code_simp+

lemma RetransmissionFeed_Ctor_InvalidShutdownFd_ThrowsInvalidArgument:
  "throws Invalid_argument (make_retransmission_feed \<lparr>rc_address = ascii ''127.0.0.1'', rc_port = 0\<rparr> (- 1))"
  "throws Invalid_argument (make_retransmission_feed \<lparr>rc_address = ascii ''127.0.0.1'', rc_port = 0\<rparr> 0)"
  by code_simp+

section \<open>The mapped file\<close>

definition expected_content :: bytes where "expected_content = ascii ''hello mmap file''"

definition test_file :: "path_env \<Rightarrow> map_env" where
  "test_file path = \<lparr>me_path = path, me_file_size = Inr (length expected_content), me_content = expected_content,
     me_mmap_ret = Addr 4096, me_madvise_ret = 0, me_errno = 0\<rparr>"

definition regular_file :: path_env where
  "regular_file = \<lparr>pe_exists = True, pe_is_directory = False, pe_open_ret = 3, pe_errno = 0\<rparr>"

definition empty_process :: vm where
  "empty_process = \<lparr>vm_kernel = \<lparr>k_open = {0, 1, 2}, k_bad_close = False\<rparr>, vm_maps = (\<lambda>_. None), vm_bad_unmap = False\<rparr>"

definition contents_mapped :: "map_config \<Rightarrow> bytes res" where
  "contents_mapped cfg = (case mapped_new cfg (test_file regular_file) empty_process of (r, v) \<Rightarrow> andThen r (\<lambda>f. as_span f v))"

lemma MemoryMappedFile_Ctor_VerifyContents: "contents_mapped cfg = Inr expected_content"
  by (simp add: contents_mapped_def mapped_new_def test_file_def regular_file_def fd_from_path_def acquire_def empty_process_def
      as_span_def map_pages_def Let_def)

text \<open>An empty path and one that does not exist, and a directory.\<close>

lemma MemoryMappedFile_Ctor_BadPath_ThrowsInvalidArgument:
  "\<not> pe_exists path \<or> pe_is_directory path \<Longrightarrow> throws Invalid_argument (fst (mapped_new cfg (test_file path) v))"
  by (auto simp: throws_def mapped_new_def test_file_def fd_from_path_def)

end
