(* ===== verification/Test_Fixtures.thy ===== *)
theory Test_Fixtures
  imports E2E_Client Running_Server Unit_Tests
begin

text \<open>
  The fixtures of the end-to-end and integration tests (\<open>src/tests/common/\<close>, the fixture classes of \<open>src/tests/e2e/tests/e2e.cpp\<close>
  and \<open>src/tests/integration/tests/server_test.cpp\<close>): the file of ITCH messages that they generate, their configurations, the
  search for a free port, and the set-up with its sockets. The results of the system calls of the tests are the fields of
  \<open>client_env\<close>; \<open>fx_failures\<close> counts the failed expectations. \<open>ASSERT_EQ\<close> in \<open>require_syscall\<close> leaves that helper only, so
  the set-up goes on after it.

  The theorems put the program under these tests: the generated file is a sequence of framed messages with the
  timestamps intended, the set-up gives a server of the configuration, and that server, in every interleaving of its
  threads, delivers the file to the test's receiver and can be brought to its end.
\<close>

section \<open>The file\<close>

definition fixture_message_size :: nat where "fixture_message_size = default_min_message_size"

definition itch_min_body_size :: u16 where "itch_min_body_size = word_of_nat (fixture_message_size - length_prefix_size)"

definition write_len_prefix :: "build \<Rightarrow> bytes \<Rightarrow> bytes" where
  "write_len_prefix b message = overwrite message 0 (object_bytes b (byteswap itch_min_body_size))"

text \<open>\<open>timestamp.count()\<close> is signed, so the shift is arithmetic.\<close>

definition copy_timestamp :: "build \<Rightarrow> int \<Rightarrow> bytes \<Rightarrow> bytes" where
  "copy_timestamp b timestamp message =
     (let count = signed_drop_bit 16 (byteswap (word_of_int timestamp :: u64))
      in overwrite message 7 (take 6 (object_bytes b count)))"

fun fixture_messages :: "build \<Rightarrow> nat \<Rightarrow> int \<Rightarrow> int \<Rightarrow> bytes" where
  "fixture_messages b 0 increment timestamp = []"
| "fixture_messages b (Suc n) increment timestamp =
     copy_timestamp b timestamp (write_len_prefix b (replicate fixture_message_size 0)) @
     fixture_messages b n increment (timestamp + increment)"

definition get_test_content :: "build \<Rightarrow> nat \<Rightarrow> int \<Rightarrow> bytes" where
  "get_test_content b num_messages increment = fixture_messages b num_messages increment market_pre"

text \<open>The bodies of the messages: five bytes, the timestamp, one byte.\<close>

definition fixture_body :: "int \<Rightarrow> bytes" where
  "fixture_body timestamp = replicate 5 0 @ be_bytes 6 (nat timestamp) @ [0]"

definition fixture_bodies :: "nat \<Rightarrow> int \<Rightarrow> bytes list" where
  "fixture_bodies num_messages increment = map (\<lambda>i. fixture_body (market_pre + int i * increment)) [0..<num_messages]"

lemma object_bytes_byteswap:
  fixes w :: "'a::len word"
  assumes "native b = Little" and "8 dvd LENGTH('a)"
  shows "object_bytes b (byteswap w) = be_bytes (sizeof TYPE('a)) (unat w)"
  using object_bytes_to_be [OF assms(2), of b w] assms(1) by (simp add: to_be_def)

lemma le_bytes_mod: "le_bytes n (v mod 256 ^ n) = le_bytes n v"
  using le_bytes_le_val [of "le_bytes n v"] by (simp add: le_val_le_bytes)

lemma le_bytes_drop: "k \<le> n \<Longrightarrow> drop k (le_bytes n v) = le_bytes (n - k) (v div 256 ^ k)"
proof (induction k arbitrary: n v)
  case (Suc k)
  then show ?case by (cases n) (simp_all add: div_mult2_eq)
qed simp

lemma le_bytes_take: "k \<le> n \<Longrightarrow> take k (le_bytes n v) = le_bytes k v"
proof (induction k arbitrary: n v)
  case (Suc k)
  then show ?case by (cases n) simp_all
qed simp

lemma timestamp_image:
  assumes "native b = Little"
  shows "take 6 (object_bytes b (signed_drop_bit 16 (byteswap (w :: u64)))) = be_bytes 6 (unat w)"
proof -
  have "unat (signed_drop_bit 16 x) mod 256 ^ 6 = unat x div 256 ^ 2" for x :: u64
  proof -
    have "take_bit 48 (signed_drop_bit 16 x) = take_bit 48 (drop_bit 16 x)"
      by (rule bit_eqI) (auto simp: bit_take_bit_iff bit_signed_drop_bit_iff bit_drop_bit_eq)
    also have "\<dots> = drop_bit 16 x" by (rule bit_eqI) (auto simp: bit_take_bit_iff bit_drop_bit_eq dest: bit_imp_le_length)
    finally have "unat (take_bit 48 (signed_drop_bit 16 x)) = unat (drop_bit 16 x)" by simp
    then show ?thesis by (simp add: take_bit_eq_mod drop_bit_eq_div unat_mod unat_div)
  qed
  note shift = this
  let ?x = "byteswap w"
  have "take 6 (object_bytes b (signed_drop_bit 16 ?x)) = le_bytes 6 (unat (signed_drop_bit 16 ?x))"
    using assms by (simp add: object_bytes_def le_bytes_take)
  also have "\<dots> = le_bytes 6 (unat ?x div 256 ^ 2)" using le_bytes_mod [of 6 "unat (signed_drop_bit 16 ?x)"] unfolding shift by (rule sym)
  also have "\<dots> = drop 2 (object_bytes b ?x)" using assms le_bytes_drop [of 2 8 "unat ?x"] by (simp add: object_bytes_def)
  also have "\<dots> = be_bytes 6 (unat w)"
    using object_bytes_byteswap [OF assms, of w] by (simp add: be_bytes_def drop_rev le_bytes_take)
  finally show ?thesis .
qed

lemma fixture_message:
  assumes "native b = Little" and "0 \<le> timestamp" and "timestamp < 2 ^ 48"
  shows "copy_timestamp b timestamp (write_len_prefix b (replicate fixture_message_size 0)) = frame (fixture_body timestamp)"
proof -
  have "unat (word_of_int timestamp :: u64) = nat timestamp"
    using assms(2,3) by (simp add: unat_eq_nat_uint word_uint_eq_iff uint_word_of_int_eq take_bit_int_eq_self)
  then have "take 6 (object_bytes b (signed_drop_bit 16 (byteswap (word_of_int timestamp :: u64)))) = be_bytes 6 (nat timestamp)"
    using timestamp_image [OF assms(1)] by simp
  moreover have "object_bytes b (byteswap itch_min_body_size) = be_bytes 2 12"
    using object_bytes_byteswap [OF assms(1), of itch_min_body_size]
    by (simp add: itch_min_body_size_def fixture_message_size_def default_min_message_size_def)
  ultimately show ?thesis
    by (simp add: copy_timestamp_def write_len_prefix_def frame_def fixture_body_def overwrite_def Let_def
        fixture_message_size_def default_min_message_size_def replicate_append_same)
qed

lemma fixture_body_facts:
  assumes "0 \<le> timestamp" and "timestamp < 2 ^ 48"
  shows "length (fixture_body timestamp) = 12" and "msg_timestamp (frame (fixture_body timestamp)) = timestamp"
proof -
  show "length (fixture_body timestamp) = 12" by (simp add: fixture_body_def)
  have "segment (frame (fixture_body timestamp)) 7 6 = be_bytes 6 (nat timestamp)"
    by (simp add: frame_def fixture_body_def segment_def)
  then show "msg_timestamp (frame (fixture_body timestamp)) = timestamp"
    using assms by (simp add: msg_timestamp_def be_val_be_bytes)
qed

lemma market_pre_eq [simp]: "market_pre = 0"
  by (simp add: market_pre_def)

lemma fixture_messages_eq:
  assumes "native b = Little" and "0 \<le> increment" and "0 \<le> timestamp" and "timestamp + int n * increment < 2 ^ 48"
  shows "fixture_messages b n increment timestamp = concat (map (\<lambda>i. frame (fixture_body (timestamp + int i * increment))) [0..<n])"
  using assms(3,4)
proof (induction n arbitrary: timestamp)
  case (Suc n)
  have "0 \<le> int n * increment" using assms(2) by simp
  moreover have "timestamp + int (Suc n) * increment = timestamp + increment + int n * increment" by (simp add: algebra_simps)
  ultimately have ts: "timestamp < 2 ^ 48" "timestamp + increment + int n * increment < 2 ^ 48"
    using Suc.prems assms(2) by linarith+
  have "[0..<Suc n] = 0 # map Suc [0..<n]" by (simp add: map_Suc_upt upt_conv_Cons del: upt_Suc)
  then show ?case
    using fixture_message [OF assms(1) Suc.prems(1) ts(1)] Suc.IH [OF _ ts(2)] Suc.prems(1) assms(2)
    by (simp add: comp_def algebra_simps del: upt_Suc)
qed simp

text \<open>What the tests rely on: the file is well formed, in the order of the timestamps.\<close>

lemma fixture_file:
  assumes "native b = Little" and "0 \<le> increment" and "int n * increment < 2 ^ 48"
  shows "get_test_content b n increment = concat (map frame (fixture_bodies n increment))"
    and "length (fixture_bodies n increment) = n" and "body \<in> set (fixture_bodies n increment) \<Longrightarrow> length body = 12"
    and "length (get_test_content b n increment) = 14 * n"
    and "i < n \<Longrightarrow> msg_timestamp (frame (fixture_bodies n increment ! i)) = int i * increment"
proof -
  have range: "0 \<le> int i * increment \<and> int i * increment < 2 ^ 48" if "i < n" for i
  proof -
    have "int i * increment \<le> int n * increment" using that assms(2) by (intro mult_right_mono) simp_all
    then show ?thesis using assms(2,3) by simp
  qed
  show content: "get_test_content b n increment = concat (map frame (fixture_bodies n increment))"
    using fixture_messages_eq [OF assms(1,2), of 0 n] assms(3)
    by (simp add: get_test_content_def fixture_bodies_def comp_def)
  show "length (fixture_bodies n increment) = n" by (simp add: fixture_bodies_def)
  show len: "length body = 12" if "body \<in> set (fixture_bodies n increment)" for body
    using that by (auto simp: fixture_bodies_def fixture_body_def)
  then have "\<forall>m \<in> set (map frame (fixture_bodies n increment)). length m = 14" by (simp add: length_frame)
  then have "length (concat (map frame (fixture_bodies n increment))) = 14 * length (map frame (fixture_bodies n increment))"
    by (simp add: length_concat sum_list_triv cong: map_cong)
  then show "length (get_test_content b n increment) = 14 * n" by (simp add: content fixture_bodies_def)
  show "msg_timestamp (frame (fixture_bodies n increment ! i)) = int i * increment" if "i < n"
    using that range [OF that] by (simp add: fixture_bodies_def fixture_body_facts)
qed

section \<open>Configurations\<close>

text \<open>Addresses in network order, as \<open>htonl\<close> leaves them in memory on the host.\<close>

definition INADDR_LOOPBACK :: u32 where "INADDR_LOOPBACK = 0x7F000001"

definition total_num_messages :: nat where "total_num_messages = 1024"

text \<open>\<open>std::chrono::milliseconds\<close>, converted to the nanoseconds of the configuration.\<close>

definition e2e_heartbeat_period :: int where "e2e_heartbeat_period = 50 * 1000000"

definition e2e_end_of_session_duration :: int where "e2e_end_of_session_duration = 500 * 1000000"

definition expected_eos_count :: nat where "expected_eos_count = nat (e2e_end_of_session_duration div e2e_heartbeat_period)"

definition replay_everything :: pacer_config where
  "replay_everything = default_pacer_config\<lparr>cfg_skip_before := 0\<rparr>"

definition default_server_config :: "u32 \<Rightarrow> packet_builder_config \<Rightarrow> downstream_config \<Rightarrow> retransmission_config \<Rightarrow> server_config" where
  "default_server_config hardware_concurrency pb_cfg downstream retransmission =
     \<lparr>sc_mapped_file = \<lparr>mc_mmap_flags = 0, mc_madvise_flags = 0\<rparr>, sc_packet_builder = pb_cfg, sc_downstream = downstream,
      sc_buffer_size = default_buffer_size, sc_retransmission = retransmission,
      sc_num_feeds = unat (default_num_feeds hardware_concurrency)\<rparr>"

definition base_config :: "build \<Rightarrow> u32 \<Rightarrow> server_config" where
  "base_config b hardware_concurrency =
     default_server_config hardware_concurrency
       ((default_packet_builder_config (ascii ''SESSION001''))\<lparr>cfg_MTU := 1400\<rparr>)
       ((default_downstream_config (ascii ''239.0.0.1'') 0)
          \<lparr>dc_loopback := True, dc_egress_interface := to_be b INADDR_LOOPBACK, dc_heartbeat_period := e2e_heartbeat_period,
           dc_end_of_session_duration := e2e_end_of_session_duration, dc_pacer_cfg := replay_everything\<rparr>)
       \<lparr>rc_address = ascii ''127.0.0.1'', rc_port = 0\<rparr>"

definition integration_config :: "u32 \<Rightarrow> server_config" where
  "integration_config hardware_concurrency =
     default_server_config hardware_concurrency
       (default_packet_builder_config (ascii ''SESSION001''))
       ((default_downstream_config (ascii ''239.0.0.1'') 0)\<lparr>dc_end_of_session_duration := 0, dc_pacer_cfg := replay_everything\<rparr>)
       \<lparr>rc_address = ascii ''127.0.0.1'', rc_port = 0\<rparr>"

section \<open>Set-up\<close>

text \<open>
  The results of the calls on one socket of a test; \<open>uc_port\<close> is the port that \<open>getsockname\<close> fills in, in network order.
\<close>

record udp_calls =
  uc_socket_ret :: int
  uc_reuseaddr_ret :: int
  uc_bind_ret :: int
  uc_getsockname_ret :: int
  uc_port :: u16
  uc_membership_ret :: int
  uc_rcvtimeo_ret :: int

record client_env =
  ce_mcast :: udp_calls
  ce_unicast :: udp_calls
  ce_probe :: udp_calls

record fixture =
  fx_cfg :: server_config
  fx_server :: "server option"
  fx_mcast_socket :: file_descriptor
  fx_unicast_socket :: file_descriptor
  fx_failures :: nat

definition new_fixture :: "server_config \<Rightarrow> fixture" where
  "new_fixture cfg = \<lparr>fx_cfg = cfg, fx_server = None, fx_mcast_socket = fd_default, fx_unicast_socket = fd_default, fx_failures = 0\<rparr>"

definition require_syscall :: "int \<Rightarrow> fixture \<Rightarrow> fixture" where
  "require_syscall ret fx = (if ret = 0 then fx else fx\<lparr>fx_failures := Suc (fx_failures fx)\<rparr>)"

text \<open>The address that \<open>getsockname\<close> leaves as it was has port 0.\<close>

definition port_filled_in :: "udp_calls \<Rightarrow> u16" where
  "port_filled_in uc = (if uc_getsockname_ret uc = 0 then uc_port uc else 0)"

definition create_multicast_socket :: "build \<Rightarrow> udp_calls \<Rightarrow> fixture \<Rightarrow> kernel \<Rightarrow> fixture res \<times> kernel" where
  "create_multicast_socket b uc fx k =
     (let k1 = acquire (uc_socket_ret uc) k in
      case fd_from_int (uc_socket_ret uc) of
        Inl err \<Rightarrow> (Inl err, k1)
      | Inr d \<Rightarrow>
          (case fd_move_assign False (fx_mcast_socket fx) d k1 of (d', moved, k2) \<Rightarrow>
             (let fx1 = require_syscall (uc_reuseaddr_ret uc) (fx\<lparr>fx_mcast_socket := d'\<rparr>);
                  fx2 = require_syscall (uc_bind_ret uc) fx1;
                  fx3 = require_syscall (uc_getsockname_ret uc) fx2;
                  fx4 = fx3\<lparr>fx_cfg := (fx_cfg fx3)\<lparr>sc_downstream := (sc_downstream (fx_cfg fx3))\<lparr>dc_port := to_be b (port_filled_in uc)\<rparr>\<rparr>\<rparr>;
                  fx5 = require_syscall (uc_membership_ret uc) fx4;
                  fx6 = require_syscall (uc_rcvtimeo_ret uc) fx5
              in (Inr fx6, fd_destroy moved k2))))"

definition create_unicast_socket :: "udp_calls \<Rightarrow> fixture \<Rightarrow> kernel \<Rightarrow> fixture res \<times> kernel" where
  "create_unicast_socket uc fx k =
     (let k1 = acquire (uc_socket_ret uc) k in
      case fd_from_int (uc_socket_ret uc) of
        Inl err \<Rightarrow> (Inl err, k1)
      | Inr d \<Rightarrow>
          (case fd_move_assign False (fx_unicast_socket fx) d k1 of (d', moved, k2) \<Rightarrow>
             (Inr (require_syscall (uc_rcvtimeo_ret uc) (require_syscall (uc_bind_ret uc) (fx\<lparr>fx_unicast_socket := d'\<rparr>))),
              fd_destroy moved k2)))"

definition find_free_udp_port :: "udp_calls \<Rightarrow> fixture \<Rightarrow> kernel \<Rightarrow> (u16 \<times> fixture) res \<times> kernel" where
  "find_free_udp_port uc fx k =
     (let k1 = acquire (uc_socket_ret uc) k in
      case fd_from_int (uc_socket_ret uc) of
        Inl err \<Rightarrow> (Inl err, k1)
      | Inr probe \<Rightarrow>
          (Inr (byteswap (port_filled_in uc), require_syscall (uc_getsockname_ret uc) (require_syscall (uc_bind_ret uc) fx)),
           fd_destroy probe k1))"

text \<open>When there is no server, the test goes on after \<open>EXPECT_TRUE\<close> and moves from the value that \<open>result\<close> does not have.\<close>

definition make_test_server :: "build \<Rightarrow> udp_calls \<Rightarrow> server_env \<Rightarrow> fixture \<Rightarrow> vm \<Rightarrow> fixture res \<times> vm" where
  "make_test_server b uc se fx v =
     (case find_free_udp_port uc fx (vm_kernel v) of
        (Inl err, k) \<Rightarrow> (Inl err, v\<lparr>vm_kernel := k\<rparr>)
      | (Inr (port, fx1), k) \<Rightarrow>
          (let cfg = (fx_cfg fx1)\<lparr>sc_retransmission := (sc_retransmission (fx_cfg fx1))\<lparr>rc_port := port\<rparr>\<rparr> in
           case make_server b se cfg (v\<lparr>vm_kernel := k\<rparr>) of
             (Inl err, v') \<Rightarrow> (Inl err, v')
           | (Inr (Inl err), v') \<Rightarrow> (Inl Out_of_bounds, v')
           | (Inr (Inr sv), v') \<Rightarrow> (Inr (fx1\<lparr>fx_cfg := cfg, fx_server := Some sv\<rparr>), v')))"

text \<open>\<open>SetUp\<close> of \<open>E2ETestDownstream\<close> and of \<open>E2ETestRetransmission\<close>.\<close>

definition set_up_downstream :: "build \<Rightarrow> client_env \<Rightarrow> server_env \<Rightarrow> fixture \<Rightarrow> vm \<Rightarrow> fixture res \<times> vm" where
  "set_up_downstream b ce se fx v =
     (case create_multicast_socket b (ce_mcast ce) fx (vm_kernel v) of
        (Inl err, k) \<Rightarrow> (Inl err, v\<lparr>vm_kernel := k\<rparr>)
      | (Inr fx1, k) \<Rightarrow> make_test_server b (ce_probe ce) se fx1 (v\<lparr>vm_kernel := k\<rparr>))"

definition set_up_retransmission :: "build \<Rightarrow> client_env \<Rightarrow> server_env \<Rightarrow> fixture \<Rightarrow> vm \<Rightarrow> fixture res \<times> vm" where
  "set_up_retransmission b ce se fx v =
     (case create_multicast_socket b (ce_mcast ce) fx (vm_kernel v) of
        (Inl err, k) \<Rightarrow> (Inl err, v\<lparr>vm_kernel := k\<rparr>)
      | (Inr fx1, k) \<Rightarrow>
          (case create_unicast_socket (ce_unicast ce) fx1 k of
             (Inl err, k') \<Rightarrow> (Inl err, v\<lparr>vm_kernel := k'\<rparr>)
           | (Inr fx2, k') \<Rightarrow> make_test_server b (ce_probe ce) se fx2 (v\<lparr>vm_kernel := k'\<rparr>)))"

text \<open>
  \<open>TearDown\<close> and the destruction of the fixture: \<open>server_.reset()\<close> after the threads are gone (\<open>Server_Life\<close>), then the two
  sockets.
\<close>

definition tear_down :: "server_env \<Rightarrow> fixture \<Rightarrow> vm \<Rightarrow> vm" where
  "tear_down se fx v =
     (let v1 = (case fx_server fx of None \<Rightarrow> v | Some sv \<Rightarrow> server_destroy se sv v);
          k1 = fd_destroy (fx_unicast_socket fx) (vm_kernel v1);
          k2 = fd_destroy (fx_mcast_socket fx) k1
      in v1\<lparr>vm_kernel := k2\<rparr>)"

subsection \<open>What the set-up gives\<close>

definition calls_succeed :: "udp_calls \<Rightarrow> kernel \<Rightarrow> bool" where
  "calls_succeed uc k \<longleftrightarrow> 0 \<le> uc_socket_ret uc \<and> uc_socket_ret uc \<notin> k_open k \<and> uc_reuseaddr_ret uc = 0 \<and> uc_bind_ret uc = 0 \<and>
     uc_getsockname_ret uc = 0 \<and> uc_membership_ret uc = 0 \<and> uc_rcvtimeo_ret uc = 0"

definition with_ports :: "server_config \<Rightarrow> u16 \<Rightarrow> u16 \<Rightarrow> server_config" where
  "with_ports cfg mcast_port worker_port =
     cfg\<lparr>sc_downstream := (sc_downstream cfg)\<lparr>dc_port := mcast_port\<rparr>, sc_retransmission := (sc_retransmission cfg)\<lparr>rc_port := worker_port\<rparr>\<rparr>"

lemma default_socket_moved:
  "fd_move_assign False fd_default \<lparr>fd_value = fd\<rparr> k = (\<lparr>fd_value = fd\<rparr>, \<lparr>fd_value = - 1\<rparr>, k)" "fd_destroy \<lparr>fd_value = - 1\<rparr> k = k"
  by (simp_all add: fd_move_assign_def fd_cleanup_def fd_default_def Let_def fd_destroy_def)

lemma multicast_socket_created:
  assumes "calls_succeed uc k" and "fx_mcast_socket fx = fd_default"
  shows "create_multicast_socket b uc fx k =
    (Inr (fx\<lparr>fx_mcast_socket := \<lparr>fd_value = uc_socket_ret uc\<rparr>,
       fx_cfg := (fx_cfg fx)\<lparr>sc_downstream := (sc_downstream (fx_cfg fx))\<lparr>dc_port := to_be b (uc_port uc)\<rparr>\<rparr>\<rparr>),
     acquire (uc_socket_ret uc) k)"
  using assms by (simp add: create_multicast_socket_def calls_succeed_def fd_from_int_def default_socket_moved require_syscall_def
      port_filled_in_def Let_def)

lemma unicast_socket_created:
  assumes "calls_succeed uc k" and "fx_unicast_socket fx = fd_default"
  shows "create_unicast_socket uc fx k = (Inr (fx\<lparr>fx_unicast_socket := \<lparr>fd_value = uc_socket_ret uc\<rparr>\<rparr>), acquire (uc_socket_ret uc) k)"
  using assms by (simp add: create_unicast_socket_def calls_succeed_def fd_from_int_def default_socket_moved require_syscall_def Let_def)

lemma free_port_found:
  assumes "calls_succeed uc k"
  shows "find_free_udp_port uc fx k = (Inr (byteswap (uc_port uc), fx), k)"
  using assms release_acquired [of "uc_socket_ret uc" k]
  by (simp add: find_free_udp_port_def calls_succeed_def fd_from_int_def require_syscall_def port_filled_in_def Let_def)

text \<open>The process while the two sockets of the fixture are open.\<close>

definition sockets_open :: "client_env \<Rightarrow> vm \<Rightarrow> vm" where
  "sockets_open ce v = v\<lparr>vm_kernel := acquire (uc_socket_ret (ce_unicast ce)) (acquire (uc_socket_ret (ce_mcast ce)) (vm_kernel v))\<rparr>"

definition clients_succeed :: "client_env \<Rightarrow> vm \<Rightarrow> bool" where
  "clients_succeed ce v \<longleftrightarrow> calls_succeed (ce_mcast ce) (vm_kernel v) \<and>
     calls_succeed (ce_unicast ce) (acquire (uc_socket_ret (ce_mcast ce)) (vm_kernel v)) \<and>
     calls_succeed (ce_probe ce) (vm_kernel (sockets_open ce v))"

lemma sockets_closed:
  assumes "clients_succeed ce v"
  shows "(sockets_open ce v)\<lparr>vm_kernel := fd_destroy \<lparr>fd_value = uc_socket_ret (ce_mcast ce)\<rparr>
    (fd_destroy \<lparr>fd_value = uc_socket_ret (ce_unicast ce)\<rparr> (vm_kernel (sockets_open ce v)))\<rparr> = v"
  using assms by (simp add: clients_succeed_def sockets_open_def calls_succeed_def release_acquired)

lemma set_up_ok:
  assumes "clients_succeed ce v" and "make_server b se (with_ports cfg (to_be b (uc_port (ce_mcast ce))) (byteswap (uc_port (ce_probe ce)))) (sockets_open ce v) = (Inr (Inr sv), v')"
  shows "set_up_retransmission b ce se (new_fixture cfg) v =
    (Inr \<lparr>fx_cfg = with_ports cfg (to_be b (uc_port (ce_mcast ce))) (byteswap (uc_port (ce_probe ce))), fx_server = Some sv,
       fx_mcast_socket = \<lparr>fd_value = uc_socket_ret (ce_mcast ce)\<rparr>, fx_unicast_socket = \<lparr>fd_value = uc_socket_ret (ce_unicast ce)\<rparr>,
       fx_failures = 0\<rparr>, v')"
proof -
  have calls: "calls_succeed (ce_mcast ce) (vm_kernel v)" "calls_succeed (ce_unicast ce) (acquire (uc_socket_ret (ce_mcast ce)) (vm_kernel v))"
    "calls_succeed (ce_probe ce) (vm_kernel (sockets_open ce v))"
    using assms(1) by (simp_all add: clients_succeed_def)
  show ?thesis
    using assms(2) free_port_found [OF calls(3)]
    by (simp add: set_up_retransmission_def make_test_server_def new_fixture_def multicast_socket_created [OF calls(1)]
        unicast_socket_created [OF calls(2)] sockets_open_def with_ports_def Let_def)
qed

text \<open>The tests' configurations, with the ports that the set-up found.\<close>

definition test_config :: "build \<Rightarrow> server_config \<Rightarrow> bool" where
  "test_config b cfg \<longleftrightarrow> (\<exists>h mcast_port worker_port.
     cfg = with_ports (base_config b h) mcast_port worker_port \<or> cfg = with_ports (integration_config h) mcast_port worker_port)"

lemma test_configD:
  assumes "test_config b cfg"
  shows "cfg_session (sc_packet_builder cfg) = ascii ''SESSION001''" and "20 \<le> cfg_MTU (sc_packet_builder cfg)"
    and "cfg_MTU (sc_packet_builder cfg) \<le> 1472" and "1400 \<le> cfg_MTU (sc_packet_builder cfg)"
    and "cfg_min_message_size (sc_packet_builder cfg) = 14"
    and "sc_buffer_size cfg = default_buffer_size" and "dc_pacer_cfg (sc_downstream cfg) = replay_everything"
    and "dc_mcast_group (sc_downstream cfg) = ascii ''239.0.0.1''"
    and "dc_end_of_session_duration (sc_downstream cfg) \<in> {0, 500000000}"
  using assms
  by (auto simp: test_config_def with_ports_def base_config_def integration_config_def default_server_config_def
      default_packet_builder_config_def default_downstream_config_def default_min_message_size_def e2e_end_of_session_duration_def)

lemma default_buffer_size_eq: "default_buffer_size = 4194304"
  by (simp add: default_buffer_size_def push_bit_eq_mult)

lemma ascii_length [simp]: "length (ascii s) = length s"
  by (simp add: ascii_def)

text \<open>What the run of a test needs of its surroundings: a little-endian host, a network, no stop, and a clock in range.\<close>

definition test_surroundings :: "build \<Rightarrow> env \<Rightarrow> bool" where
  "test_surroundings b e \<longleftrightarrow> native b = Little \<and> \<not> debug_no_network b \<and> (\<forall>t. \<not> stop_requested_at e t) \<and> (\<forall>t. \<bar>now_at e t\<bar> < 2 ^ 61)"

lemma fixture_playable:
  assumes "test_config b cfg" and "test_surroundings b e"
  shows "playable b e (sc_downstream cfg) (sc_packet_builder cfg) (fixture_bodies total_num_messages 1) (sc_buffer_size cfg)"
    and "\<not> early (sc_downstream cfg) (frame (fixture_body ts))"
    and "get_test_content b total_num_messages 1 = concat (map frame (fixture_bodies total_num_messages 1))"
    and "length (fixture_bodies total_num_messages 1) = 1024"
proof -
  note cfg = test_configD [OF assms(1)]
  have "native b = Little" "int total_num_messages * 1 < 2 ^ 48" using assms(2) by (simp_all add: test_surroundings_def total_num_messages_def)
  note ff = fixture_file [OF this(1) zero_le_one this(2)]
  show "get_test_content b total_num_messages 1 = concat (map frame (fixture_bodies total_num_messages 1))"
    "length (fixture_bodies total_num_messages 1) = 1024" using ff by (simp_all add: total_num_messages_def)
  have "length (concat (map frame (fixture_bodies total_num_messages 1))) = 14336" using ff(1,4) by (simp add: total_num_messages_def)
  moreover have "paced e (pacer_new (dc_pacer_cfg (sc_downstream cfg)))"
    using assms(2) by (simp add: paced_def cfg(7) replay_everything_def default_pacer_config_def pacer_new_def test_surroundings_def)
  ultimately show "playable b e (sc_downstream cfg) (sc_packet_builder cfg) (fixture_bodies total_num_messages 1) (sc_buffer_size cfg)"
    using ff(3) cfg(4-6) assms(2) by (simp add: playable_def default_buffer_size_eq test_surroundings_def)
  show "\<not> early (sc_downstream cfg) (frame (fixture_body ts))"
    by (simp add: early_def cfg(7) replay_everything_def default_pacer_config_def msg_timestamp_def)
qed

lemma fixture_sent:
  assumes "test_config b cfg" and "test_surroundings b e"
  shows "skips_first (early (sc_downstream cfg)) (map frame (fixture_bodies total_num_messages 1))"
    and "dropWhile (\<lambda>body. early (sc_downstream cfg) (frame body)) (fixture_bodies total_num_messages 1) = fixture_bodies total_num_messages 1"
proof -
  have "\<not> early (sc_downstream cfg) (frame body)" if "body \<in> set (fixture_bodies total_num_messages 1)" for body
    using that fixture_playable(2) [OF assms] by (auto simp: fixture_bodies_def)
  note none = this
  then have "\<forall>m \<in> set (map frame (fixture_bodies total_num_messages 1)). \<not> early (sc_downstream cfg) m" by auto
  then show "skips_first (early (sc_downstream cfg)) (map frame (fixture_bodies total_num_messages 1))"
    unfolding skips_first_def by (meson set_dropWhileD)
  show "dropWhile (\<lambda>body. early (sc_downstream cfg) (frame body)) (fixture_bodies total_num_messages 1) = fixture_bodies total_num_messages 1"
    unfolding dropWhile_eq_self_iff using none hd_in_set by blast
qed

lemma fixture_pushed:
  assumes "test_config b cfg" and "test_surroundings b e"
    and "session_at b e eh (sc_downstream cfg) (sc_packet_builder cfg) (fixture_bodies total_num_messages 1) n t f s"
  shows "unat (rb_write_seq (df_retransmission_buffer (th_feed s))) \<le> 1024" and "replay_plan f \<noteq> []"
proof -
  have "concat (replay_plan f) = map frame (fixture_bodies total_num_messages 1)"
    using session_at_plan [OF assms(3) fixture_sent(1) [OF assms(1,2)]] fixture_sent(2) [OF assms(1,2)] by simp
  then have plan: "length (concat (replay_plan f)) = 1024" using fixture_playable(4) [OF assms(1,2)] by simp
  then show "replay_plan f \<noteq> []" by auto
  obtain posns later where "replay_positions f = posns @ later"
    "unat (rb_write_seq (df_retransmission_buffer (th_feed s))) = length posns" by (rule session_ring [OF assms(3)])
  then show "unat (rb_write_seq (df_retransmission_buffer (th_feed s))) \<le> 1024"
    using plan length_replay_positions [OF session_at_feed(1) [OF assms(3)]] by simp
qed

lemma fixture_run:
  assumes "test_config b cfg" and "test_surroundings b e"
    and "reachable (server_started b e se cfg v (fixture_bodies total_num_messages 1) t sv) (run_step b e eh ew) s"
  shows "run_inv b e eh (sc_downstream cfg) (sc_packet_builder cfg) (fixture_bodies total_num_messages 1) (sc_buffer_size cfg) t (sv_downstream_feed sv) s"
    and "\<exists>c st. lifecycle_run b' (ascii ''SESSION001'') (cfg_MTU (sc_packet_builder cfg)) k
      (map Client_datagram (datagrams (map snd (th_wire (sr_threads s))))) lifecycle_init = Inr (c, st) \<and> lc_failures st = 0"
    and "\<exists>st. lifecycle_run b' (ascii ''SESSION001'') (cfg_MTU (sc_packet_builder cfg)) k
      (map Client_datagram (datagrams (map snd (th_wire (sr_threads s)))) @ [Client_error EAGAIN]) lifecycle_init = Inr (Break, st) \<and>
        lc_failures st = (if k \<le> length (datagrams_of Eos (th_wire (sr_threads s))) then 0 else 1)"
proof -
  note cfg = test_configD [OF assms(1)]
  show inv: "run_inv b e eh (sc_downstream cfg) (sc_packet_builder cfg) (fixture_bodies total_num_messages 1) (sc_buffer_size cfg) t (sv_downstream_feed sv) s"
    by (rule running.reachable_inv [OF server_reachable [OF assms(3)]])
  then have at: "session_at b e eh (sc_downstream cfg) (sc_packet_builder cfg) (fixture_bodies total_num_messages 1) (sc_buffer_size cfg) t
      (sv_downstream_feed sv) (sr_threads s)" by (simp add: run_inv_def)
  have "replay_plan (sv_downstream_feed sv) \<noteq> []" by (rule fixture_pushed(2) [OF assms(1,2) at])
  moreover have "sendable (cfg_MTU (sc_packet_builder cfg)) (replay_plan (sv_downstream_feed sv))"
    using session_sendable [OF at _ order_refl] cfg(3) by simp
  moreover have "length (cfg_session (sc_packet_builder cfg)) = 10" by (rule session_at_feed(6) [OF at])
  ultimately show "\<exists>c st. lifecycle_run b' (ascii ''SESSION001'') (cfg_MTU (sc_packet_builder cfg)) k
      (map Client_datagram (datagrams (map snd (th_wire (sr_threads s))))) lifecycle_init = Inr (c, st) \<and> lc_failures st = 0"
    and "\<exists>st. lifecycle_run b' (ascii ''SESSION001'') (cfg_MTU (sc_packet_builder cfg)) k
      (map Client_datagram (datagrams (map snd (th_wire (sr_threads s)))) @ [Client_error EAGAIN]) lifecycle_init = Inr (Break, st) \<and>
        lc_failures st = (if k \<le> length (datagrams_of Eos (th_wire (sr_threads s))) then 0 else 1)"
    using lifecycle_proper [OF session_wire [OF at], of "cfg_MTU (sc_packet_builder cfg)" b' k]
      lifecycle_timeout [OF session_wire [OF at], of "cfg_MTU (sc_packet_builder cfg)" b' k] cfg(1,2) by auto
qed

text \<open>Ten end-of-session packets, one per period of 50 ms in half a second, when each is less than a period late.\<close>

lemma fixture_eos_count:
  assumes "cfg = with_ports (base_config b h) mcast_port worker_port"
    and "session_at b e eh (sc_downstream cfg) (sc_packet_builder cfg) bodies n t f s" and "th_pc s = P_done"
    and "\<forall>t1. eos_begins_at b e t f t1 \<longrightarrow> punctual e t1 e2e_heartbeat_period expected_eos_count"
  shows "expected_eos_count \<le> length (datagrams_of Eos (th_wire s))"
proof -
  have "dc_heartbeat_period (sc_downstream cfg) = e2e_heartbeat_period" "dc_end_of_session_duration (sc_downstream cfg) = e2e_end_of_session_duration"
    by (simp_all add: assms(1) with_ports_def base_config_def default_server_config_def)
  then show ?thesis
    using end_of_session_count [OF assms(2,3)] assms(4) by (simp add: expected_eos_count_def e2e_heartbeat_period_def)
qed

lemma fixture_received:
  assumes "test_config b cfg" and "test_surroundings b e"
    and "run_inv b e eh (sc_downstream cfg) (sc_packet_builder cfg) (fixture_bodies total_num_messages 1) (sc_buffer_size cfg) t f s"
    and "th_pc (sr_threads s) = P_done"
  obtains received where "map (receive_packet b') (datagrams_of Data (th_wire (sr_threads s))) = map Inr received"
    and "concat (map snd received) = fixture_bodies total_num_messages 1"
proof -
  have at: "session_at b e eh (sc_downstream cfg) (sc_packet_builder cfg) (fixture_bodies total_num_messages 1) (sc_buffer_size cfg) t f (sr_threads s)"
    using assms(3) by (simp add: run_inv_def)
  have "cfg_MTU (sc_packet_builder cfg) < 65536" using test_configD(3) [OF assms(1)] by simp
  from done_delivers [OF at assms(4) this fixture_sent(1) [OF assms(1,2)] refl, of b'] show ?thesis
    using that unfolding fixture_sent(2) [OF assms(1,2)] by blast
qed

section \<open>Properties\<close>

text \<open>
  The fixture of the end-to-end tests: when the calls on its sockets succeed and a server can be built, \<open>SetUp\<close> leaves
  no failed expectation and a server of \<open>base_config\<close> whose ports are the one its multicast socket is bound to and a free one;
  and after \<open>TearDown\<close> the process is as it was before the test.
\<close>

theorem set_up_tear_down:
  assumes "clients_succeed ce v" and "map_env_ok (se_map se) (sockets_open ce v)" and "fds_fresh se (sockets_open ce v)"
    and "cfg = with_ports (base_config b h) (to_be b (uc_port (ce_mcast ce))) (byteswap (uc_port (ce_probe ce)))"
    and "server_cfg_ok se cfg" and "mapped_new (sc_mapped_file cfg) (se_map se) (sockets_open ce v) = (Inr mf, v1)"
  shows "\<exists>fx sv v'. set_up_retransmission b ce se (new_fixture (base_config b h)) v = (Inr fx, v') \<and>
    fx_failures fx = 0 \<and> fx_cfg fx = cfg \<and> fx_server fx = Some sv \<and>
    make_server b se cfg (sockets_open ce v) = (Inr (Inr sv), v') \<and> tear_down se fx v' = v"
proof -
  obtain sv v' where sv: "server_new b se cfg (sockets_open ce v) = (Inr sv, v')" by (rule server_new_ok [OF assms(5,2,6)])
  then have made: "make_server b se cfg (sockets_open ce v) = (Inr (Inr sv), v')" by (simp add: make_server_def)
  have "server_destroy se sv v' = sockets_open ce v" by (rule server_destroy_restores [OF assms(2,3) sv])
  then show ?thesis
    using set_up_ok [OF assms(1) made [unfolded assms(4)]] made sockets_closed [OF assms(1)] unfolding assms(4)
    by (simp add: tear_down_def Let_def)
qed

text \<open>
  C16. The tests \<open>LifeCycleToShutdown\<close> and \<open>Start_RunToEOF\<close>, with their own file of 1024 messages and their own
  configurations, in every state that the threads of the server reach, with any requests from clients. No worker has failed, and
  the server can run on to the end of the file, all its threads gone, where a receiver on any host has the 1024 bodies of the
  file in order. The receiver of \<open>LifeCycleToShutdown\<close> (configuration \<open>base_config\<close>), fed with all datagrams sent so far, has no
  failed expectation; and once the session is complete and \<open>recv\<close> times out, the whole test has passed, with the ten
  end-of-session packets it expects, when each of them was less than one period of 50 ms late (\<open>punctual\<close>).
\<close>

theorem fixture_runs_to_eof:
  assumes "test_config b cfg" and "test_surroundings b e"
    and "reachable (server_started b e se cfg v (fixture_bodies total_num_messages 1) t sv) (run_step b e eh ew) s"
    and "clock_passes e (t + 4 * Suc total_num_messages) (dc_end_of_session_duration (sc_downstream cfg))"
  shows "\<not> sr_failed s \<and>
    (\<exists>s' received. (run_step b e eh ew)\<^sup>*\<^sup>* s s' \<and> th_pc (sr_threads s') = P_done \<and> th_hb_pc (sr_threads s') = H_exited \<and>
       set (sr_workers s') \<subseteq> {None} \<and> \<not> sr_failed s' \<and>
       map (receive_packet b') (datagrams_of Data (th_wire (sr_threads s'))) = map Inr received \<and>
       concat (map snd received) = fixture_bodies total_num_messages 1) \<and>
    (cfg = with_ports (base_config b h) mcast_port worker_port \<longrightarrow>
       (\<exists>c st. lifecycle_run b' (ascii ''SESSION001'') 1400 expected_eos_count
         (map Client_datagram (datagrams (map snd (th_wire (sr_threads s))))) lifecycle_init = Inr (c, st) \<and> lc_failures st = 0) \<and>
       (th_pc (sr_threads s) = P_done \<and>
          (\<forall>t1. eos_begins_at b e t (sv_downstream_feed sv) t1 \<longrightarrow> punctual e t1 e2e_heartbeat_period expected_eos_count) \<longrightarrow>
        (\<exists>st. lifecycle_run b' (ascii ''SESSION001'') 1400 expected_eos_count
           (map Client_datagram (datagrams (map snd (th_wire (sr_threads s)))) @ [Client_error EAGAIN]) lifecycle_init = Inr (Break, st) \<and>
           lc_failures st = 0)))"
proof -
  note run = fixture_run [OF assms(1-3)]
  have "fits_i64 (now_at e u + dc_end_of_session_duration (sc_downstream cfg))" for u
    using test_configD(9) [OF assms(1)] assms(2) by (auto simp: fits_i64_def test_surroundings_def abs_less_iff dest!: spec [of _ u])
  moreover have "clock_passes e (t + 4 * Suc (length (fixture_bodies total_num_messages 1))) (dc_end_of_session_duration (sc_downstream cfg))"
    using assms(4) by (simp add: fixture_bodies_def)
  ultimately obtain s' where s': "(run_step b e eh ew)\<^sup>*\<^sup>* s s'" "th_pc (sr_threads s') = P_done" "th_hb_pc (sr_threads s') = H_exited"
    "set (sr_workers s') \<subseteq> {None}" "\<not> sr_failed s'"
    using run_can_finish [OF server_reachable [OF assms(3)]] by metis
  note run' = fixture_run(1) [OF assms(1,2) reachable_steps [OF assms(3) s'(1)]]
  obtain received where received: "map (receive_packet b') (datagrams_of Data (th_wire (sr_threads s'))) = map Inr received"
    "concat (map snd received) = fixture_bodies total_num_messages 1"
    by (rule fixture_received [OF assms(1,2) run' s'(2)])
  have at: "session_at b e eh (sc_downstream cfg) (sc_packet_builder cfg) (fixture_bodies total_num_messages 1) (sc_buffer_size cfg) t
      (sv_downstream_feed sv) (sr_threads s)" and "\<not> sr_failed s" using run(1) by (simp_all add: run_inv_def)
  moreover have "cfg_MTU (sc_packet_builder cfg) = 1400" if "cfg = with_ports (base_config b h) mcast_port worker_port"
    by (simp add: that with_ports_def base_config_def default_server_config_def)
  ultimately show ?thesis
    using s' received run(2) [of b' expected_eos_count] run(3) [of b' expected_eos_count] fixture_eos_count [OF _ at, of h mcast_port worker_port]
    by auto
qed

text \<open>
  C17. The tests \<open>ValidRange\<close> and \<open>OutOfBounds\<close>, on the same file: in every state of the running server, whichever worker
  receives the request, that worker serves it without a fault, the client of the first has nothing to complain about (or no
  data packet has been sent yet), and the request for number 1025 of the second gets no answer.
\<close>

theorem fixture_clients_served:
  assumes "test_config b cfg" and "test_surroundings b e"
    and "reachable (server_started b e se cfg v (fixture_bodies total_num_messages 1) t sv) (run_step b e eh ew) s"
    and "Some rf \<in> set (sr_workers s)"
  shows "valid_range b' (ascii ''SESSION001'') (cfg_MTU (sc_packet_builder cfg)) (datagrams (map snd (th_wire (sr_threads s))))
      (answered b ew u rf (shared_ring s) addr) = Inr (if datagrams_of Data (th_wire (sr_threads s)) = [] then None else Some 0) \<and>
    out_of_bounds b' (ascii ''SESSION001'') (word_of_nat (total_num_messages + 1)) (answered b ew u rf (shared_ring s) addr) = Inr 0"
proof -
  note cfg = test_configD [OF assms(1)]
  note inv = fixture_run(1) [OF assms(1-3)]
  then have at: "session_at b e eh (sc_downstream cfg) (sc_packet_builder cfg) (fixture_bodies total_num_messages 1) (sc_buffer_size cfg) t
      (sv_downstream_feed sv) (sr_threads s)" and worker: "worker_of rf (sc_packet_builder cfg) (fixture_bodies total_num_messages 1)"
    using assms(4) by (auto simp: run_inv_def)
  note pushed = fixture_pushed [OF assms(1,2) at]
  have "cfg_MTU (sc_packet_builder cfg) < 65536" "unat (rb_write_seq (shared_ring s)) \<le> unat (sc_buffer_size cfg)"
    "unat (rb_write_seq (shared_ring s)) < unat (word_of_nat (total_num_messages + 1) :: u64)"
    using cfg(3,6) pushed(1) by (simp_all add: default_buffer_size_eq total_num_messages_def)
  then show ?thesis
    using retransmission_clients_ok [OF at fixture_sent(1) [OF assms(1,2)] worker _ order_refl pushed(2) refl] unfolding cfg(1) by simp
qed

section \<open>Instances\<close>

definition working_calls :: "int \<Rightarrow> u16 \<Rightarrow> udp_calls" where
  "working_calls fd port = \<lparr>uc_socket_ret = fd, uc_reuseaddr_ret = 0, uc_bind_ret = 0, uc_getsockname_ret = 0, uc_port = port,
     uc_membership_ret = 0, uc_rcvtimeo_ret = 0\<rparr>"

definition test_client_env :: client_env where
  "test_client_env = \<lparr>ce_mcast = working_calls 3 0x1234, ce_unicast = working_calls 4 0x2345, ce_probe = working_calls 5 0x3456\<rparr>"

definition test_server_env :: server_env where
  "test_server_env = \<lparr>se_map = \<lparr>me_path = regular_file\<lparr>pe_open_ret := 5\<rparr>, me_file_size = Inr 14336,
       me_content = get_test_content test_build total_num_messages 1, me_mmap_ret = Addr 4096, me_madvise_ret = 0, me_errno = 0\<rparr>,
     se_socket = test_sockets\<lparr>socket_ret := 6\<rparr>,
     se_pool = \<lparr>pl_eventfd_ret = 7, pl_thread_ok = (\<lambda>_. True), pl_write_ret = 8, pl_errno = 0\<rparr>\<rparr>"

definition test_env :: env where
  "test_env = \<lparr>stop_requested_at = (\<lambda>_. False), now_at = (\<lambda>t. if t \<le> 10000 then 0 else 1000000000000), send_result_at = (\<lambda>_. 48)\<rparr>"

definition test_cfg :: server_config where
  "test_cfg = with_ports (base_config test_build 2) (to_be test_build 0x1234) (byteswap 0x3456)"

lemma test_cfg_ok: "test_config test_build test_cfg"
  unfolding test_config_def test_cfg_def by blast

lemma test_env_ok: "test_surroundings test_build test_env"
  by (simp add: test_surroundings_def test_build_def test_env_def)

lemma test_clock: "clock_passes test_env (0 + 4 * Suc total_num_messages) (dc_end_of_session_duration (sc_downstream test_cfg))"
  unfolding clock_passes_def
  using test_configD(9) [OF test_cfg_ok] by (intro exI [of _ 10001]) (auto simp: test_env_def total_num_messages_def)

lemma ascii_addresses: "ascii ''239.0.0.1'' = [50, 51, 57, 46, 48, 46, 48, 46, 49]" "ascii ''127.0.0.1'' = [49, 50, 55, 46, 48, 46, 48, 46, 49]"
  by (simp_all add: ascii_def)

lemma test_server_calls:
  "clients_succeed test_client_env empty_process" "map_env_ok (se_map test_server_env) (sockets_open test_client_env empty_process)"
  "fds_fresh test_server_env (sockets_open test_client_env empty_process)" "server_cfg_ok test_server_env test_cfg"
  "\<exists>mf v1. mapped_new (sc_mapped_file test_cfg) (se_map test_server_env) (sockets_open test_client_env empty_process) = (Inr mf, v1)"
proof -
  note cfg = test_configD [OF test_cfg_ok]
  have len: "length (get_test_content test_build total_num_messages 1) = 14336"
    using fixture_file(4) [of test_build 1 total_num_messages] by (simp add: test_build_def total_num_messages_def)
  show "clients_succeed test_client_env empty_process"
    by (simp add: clients_succeed_def calls_succeed_def test_client_env_def working_calls_def acquire_def empty_process_def sockets_open_def)
  show "map_env_ok (se_map test_server_env) (sockets_open test_client_env empty_process)"
    "fds_fresh test_server_env (sockets_open test_client_env empty_process)"
    by (simp_all add: map_env_ok_def fds_fresh_def test_server_env_def regular_file_def sockets_open_def empty_process_def acquire_def
        test_client_env_def working_calls_def len)
  have "dc_loopback (sc_downstream test_cfg) \<longrightarrow> 0 \<le> loop_ret (se_socket test_server_env)" by (simp add: test_server_env_def test_sockets_def)
  then show "server_cfg_ok test_server_env test_cfg"
    using cfg(1,2,5,6) by (simp add: server_cfg_ok_def sockets_ok_def pb_cfg_ok_def test_server_env_def test_sockets_def test_inet_pton_def
        cfg(8) len default_buffer_size_eq)
  show "\<exists>mf v1. mapped_new (sc_mapped_file test_cfg) (se_map test_server_env) (sockets_open test_client_env empty_process) = (Inr mf, v1)"
    by (simp add: mapped_new_def fd_from_path_def test_server_env_def regular_file_def acquire_def Let_def test_cfg_def with_ports_def base_config_def
        default_server_config_def)
qed

lemma test_server_started:
  obtains sv s rf where "server_started test_build test_env test_server_env test_cfg (sockets_open test_client_env empty_process)
    (fixture_bodies total_num_messages 1) 0 sv s" and "Some rf \<in> set (sr_workers s)"
proof -
  note calls = test_server_calls
  obtain mf v1 where m: "mapped_new (sc_mapped_file test_cfg) (se_map test_server_env) (sockets_open test_client_env empty_process) = (Inr mf, v1)"
    using calls(5) by blast
  obtain sv v' where sv: "server_new test_build test_server_env test_cfg (sockets_open test_client_env empty_process) = (Inr sv, v')"
    "fd_get (fp_shutdown_fd (sv_feeds sv)) = 7"
    by (rule server_new_ok [OF calls(4,2) m, of test_build]) (simp add: test_server_env_def)
  have made: "make_server test_build test_server_env test_cfg (sockets_open test_client_env empty_process) = (Inr (Inr sv), v')"
    using sv(1) by (simp add: make_server_def)
  note cfg = test_configD [OF test_cfg_ok]
  obtain pb where "packet_builder_new test_build (sc_packet_builder test_cfg) = Inr pb"
    using packet_builder_new_ok [of "sc_packet_builder test_cfg" test_build] cfg(1,2,5) by auto
  moreover have "rc_address (sc_retransmission test_cfg) = ascii ''127.0.0.1''"
    by (simp add: test_cfg_def with_ports_def base_config_def default_server_config_def)
  ultimately obtain rf where rf: "retransmission_feed_new test_build test_worker_sockets (sc_retransmission test_cfg) (sc_packet_builder test_cfg)
      (concat (map frame (fixture_bodies total_num_messages 1))) 7 = Inr rf"
    by (simp add: retransmission_feed_new_def retransmission_configure_socket_def test_worker_sockets_def test_inet_pton_def ascii_addresses)
  have feeds: "0 < fp_num_feeds (sv_feeds sv)"
    using sv(1) by (auto simp: server_new_def downstream_feed_on_eq feed_pool_new_def Let_def andThen_eq_Inr_iff test_cfg_def with_ports_def base_config_def
        default_server_config_def default_num_feeds_def split: prod.splits sum.splits)
  define s where "s = \<lparr>sr_threads = \<lparr>th_feed = sv_downstream_feed sv, th_pc = P_begin, th_tick = 0, th_hb_pc = H_none, th_hb_tick = 0,
       th_wire = [], th_stored = [df_sent_sequence_number (sv_downstream_feed sv)]\<rparr>,
     sr_workers = replicate (fp_num_feeds (sv_feeds sv)) (Some rf), sr_eventfd = fp_counter (sv_feeds sv), sr_failed = False, sr_replies = []\<rparr>"
  have "threads_init (sv_downstream_feed sv) 0 (sr_threads s)" by (simp add: threads_init_def s_def)
  moreover have "me_content (se_map test_server_env) = concat (map frame (fixture_bodies total_num_messages 1))"
    using fixture_playable(3) [OF test_cfg_ok test_env_ok] by (simp add: test_server_env_def)
  ultimately show ?thesis
    using that [of sv s rf] feeds made calls(2) fixture_playable(1) [OF test_cfg_ok test_env_ok] fixture_sent(1) [OF test_cfg_ok test_env_ok] rf sv(2)
    unfolding server_started_def by (auto simp: s_def)
qed

theorem set_up_tear_down_witness:
  "\<exists>fx sv v'. set_up_retransmission test_build test_client_env test_server_env (new_fixture (base_config test_build 2)) empty_process = (Inr fx, v') \<and>
    fx_failures fx = 0 \<and> fx_server fx = Some sv \<and> tear_down test_server_env fx v' = empty_process"
proof -
  have cfg: "test_cfg = with_ports (base_config test_build 2) (to_be test_build (uc_port (ce_mcast test_client_env))) (byteswap (uc_port (ce_probe test_client_env)))"
    by (simp add: test_cfg_def test_client_env_def working_calls_def)
  obtain mf v1 where "mapped_new (sc_mapped_file test_cfg) (se_map test_server_env) (sockets_open test_client_env empty_process) = (Inr mf, v1)"
    using test_server_calls(5) by blast
  from set_up_tear_down [OF test_server_calls(1-3) cfg test_server_calls(4) this] show ?thesis by blast
qed

lemma test_punctual:
  assumes "eos_begins_at test_build test_env 0 f t1" and "session_at test_build test_env eh (sc_downstream test_cfg) (sc_packet_builder test_cfg)
    (fixture_bodies total_num_messages 1) n 0 f s"
  shows "punctual test_env t1 e2e_heartbeat_period expected_eos_count"
proof -
  let ?f = "f\<lparr>df_heartbeat := heartbeat_start (df_heartbeat f)\<rparr>"
  note f = session_at_feed [OF assms(2)]
  obtain fuel f1 evs1 where r: "downstream_replay fuel test_build test_env 0 ?f = Some (Inr (f1, evs1, t1))"
    using assms(1) unfolding eos_begins_at_def by blast
  have "replay_ready test_build test_env ?f []" using f(1) by (simp add: replay_ready_heartbeat)
  moreover have "length (messages_from (df_file ?f) (df_file_pos ?f)) < 1025"
    using fixture_playable(4) [OF test_cfg_ok test_env_ok] by (simp add: f(2))
  ultimately obtain f' evs' u where r': "downstream_replay 1025 test_build test_env 0 ?f = Some (Inr (f', evs', u))"
    using replay_ok by blast
  have "u \<le> 0 + 4 * 1025" using downstream_replay_ticks [OF r'] .
  then have "t1 \<le> 4100" using downstream_replay_unique [OF r r'] by simp
  then show ?thesis
    by (simp add: punctual_def test_env_def expected_eos_count_def e2e_heartbeat_period_def e2e_end_of_session_duration_def)
qed

theorem fixture_runs_to_eof_witness:
  "\<exists>(s :: server_run) received st. th_pc (sr_threads s) = P_done \<and> \<not> sr_failed s \<and>
    map (receive_packet release_build) (datagrams_of Data (th_wire (sr_threads s))) = map Inr received \<and>
    concat (map snd received) = fixture_bodies total_num_messages 1 \<and>
    lifecycle_run release_build (ascii ''SESSION001'') 1400 10
      (map Client_datagram (datagrams (map snd (th_wire (sr_threads s)))) @ [Client_error EAGAIN]) lifecycle_init = Inr (Break, st) \<and>
    lc_failures st = 0"
proof -
  obtain sv s where s: "server_started test_build test_env test_server_env test_cfg (sockets_open test_client_env empty_process)
      (fixture_bodies total_num_messages 1) 0 sv s" by (rule test_server_started)
  let ?init = "server_started test_build test_env test_server_env test_cfg (sockets_open test_client_env empty_process)
      (fixture_bodies total_num_messages 1) 0 sv" and ?step = "run_step test_build test_env test_env test_env"
  have r: "reachable ?init ?step s" by (rule reachable.start) (rule s)
  obtain s' received where s': "?step\<^sup>*\<^sup>* s s'" "th_pc (sr_threads s') = P_done"
    "map (receive_packet release_build) (datagrams_of Data (th_wire (sr_threads s'))) = map Inr received"
    "concat (map snd received) = fixture_bodies total_num_messages 1"
    using fixture_runs_to_eof [OF test_cfg_ok test_env_ok r test_clock, of release_build 2] by blast
  have r': "reachable ?init ?step s'" by (rule reachable_steps [OF r s'(1)])
  have "session_at test_build test_env test_env (sc_downstream test_cfg) (sc_packet_builder test_cfg) (fixture_bodies total_num_messages 1)
      (sc_buffer_size test_cfg) 0 (sv_downstream_feed sv) (sr_threads s')"
    using fixture_run(1) [OF test_cfg_ok test_env_ok r'] by (simp add: run_inv_def)
  then have "\<forall>t1. eos_begins_at test_build test_env 0 (sv_downstream_feed sv) t1 \<longrightarrow> punctual test_env t1 e2e_heartbeat_period expected_eos_count"
    using test_punctual by blast
  note punctual = this
  note test = fixture_runs_to_eof [OF test_cfg_ok test_env_ok r' test_clock, of release_build 2 "to_be test_build 0x1234" "byteswap 0x3456"]
  then obtain st where "lifecycle_run release_build (ascii ''SESSION001'') 1400 expected_eos_count
      (map Client_datagram (datagrams (map snd (th_wire (sr_threads s')))) @ [Client_error EAGAIN]) lifecycle_init = Inr (Break, st)"
    "lc_failures st = 0"
    using s'(2) punctual test_cfg_def by blast
  moreover have "expected_eos_count = 10" by (simp add: expected_eos_count_def e2e_heartbeat_period_def e2e_end_of_session_duration_def)
  ultimately show ?thesis using s'(2-4) conjunct1 [OF test] by auto
qed

theorem fixture_clients_served_witness:
  "\<exists>(s :: server_run) rf. Some rf \<in> set (sr_workers s) \<and>
    valid_range release_build (ascii ''SESSION001'') 1400 (datagrams (map snd (th_wire (sr_threads s))))
      (answered test_build test_env 7 rf (shared_ring s) sample_address) =
      Inr (if datagrams_of Data (th_wire (sr_threads s)) = [] then None else Some 0) \<and>
    out_of_bounds release_build (ascii ''SESSION001'') (word_of_nat (total_num_messages + 1))
      (answered test_build test_env 7 rf (shared_ring s) sample_address) = Inr 0"
proof -
  obtain sv s rf where s: "server_started test_build test_env test_server_env test_cfg (sockets_open test_client_env empty_process)
      (fixture_bodies total_num_messages 1) 0 sv s" "Some rf \<in> set (sr_workers s)" by (rule test_server_started)
  have "reachable (server_started test_build test_env test_server_env test_cfg (sockets_open test_client_env empty_process)
      (fixture_bodies total_num_messages 1) 0 sv) (run_step test_build test_env test_env test_env) s"
    by (rule reachable.start) (rule s(1))
  moreover have "cfg_MTU (sc_packet_builder test_cfg) = 1400"
    by (simp add: test_cfg_def with_ports_def base_config_def default_server_config_def)
  ultimately show ?thesis
    using fixture_clients_served [OF test_cfg_ok test_env_ok _ s(2), of test_server_env _ 0 sv test_env test_env release_build 7 sample_address] s(2)
    by metis
qed

end
