(* ===== verification/Server_Life.thy ===== *)
theory Server_Life
  imports Prelude
begin

text \<open>
  The life of a \<open>Server\<close> as a state machine over its threads (\<open>src/src/server.cpp\<close>): the thread that owns the object
  (\<open>start\<close>, \<open>stop\<close>, \<open>wait_for_downstream\<close>, the destructor, statement by statement), the downstream thread
  (\<open>downstream_feed_.start\<close>, then \<open>retransmission_feeds_.stop\<close>) and the workers (each leaves its loop after the
  shared event descriptor has been written; \<open>Retransmission_Feed\<close> proves that of the loop).

  \<open>downstream_feed_.start\<close> returns in two cases only: its thread was asked to stop (that it then returns is
  \<open>stop_returns\<close> of the root theory), or the session ends by itself. The second case depends on the file:
  \<open>session_completes\<close> gives files whose session ends, \<open>oversized_message_livelock\<close> files whose session does not.
  \<open>lf_ends_alone\<close> says which kind of file the server has. \<open>FeedPool::stop\<close> throws when the write of the event descriptor
  fails; both its callers (the body of the downstream thread, the destructor) let the exception escape, which is
  \<open>std::terminate\<close>. \<open>lf_write_fails\<close> says whether a write may fail, and \<open>lf_running\<close> is false once the process was terminated.

  \<open>start\<close> may be called again. It assigns a new \<open>std::jthread\<close> to \<open>downstream_thread_\<close>: the new thread runs already when the
  move assignment asks the old one to stop and joins it (\<open>M_replacing\<close>, with the new thread in \<open>lf_new\<close>). \<open>lf_joinable\<close> is
  \<open>downstream_thread_.joinable()\<close>, and \<open>lf_stop_requested\<close> the stop state of the thread \<open>lf_downstream\<close>. The new thread has a
  stop state of its own, which nobody can set before the assignment is over.

  The lemmas show that the destructor cannot deadlock, that every run of it ends, and that nothing is
  destroyed while a thread that uses it runs. Destroying a server that was never told to stop is the
  interesting case: the downstream thread ends because the destructor requests its stop, and the workers learn of it
  through the descriptor. They also show what a second \<open>start\<close> does: two threads may run the same feed, and the workers
  do not come back.
\<close>

datatype downstream_thread = D_none | D_start | D_stopping | D_exited

datatype owner_pc =
    M_idle
  | M_replacing
  | M_waiting
  | M_joining
  | M_stopping_feeds
  | M_joining_feeds
  | M_destroyed

record life =
  lf_downstream :: downstream_thread
  lf_joinable :: bool
  lf_new :: downstream_thread
  lf_stop_requested :: bool
  lf_eventfd :: nat
  lf_workers :: "bool list"
  lf_owner :: owner_pc
  lf_running :: bool
  lf_ends_alone :: bool
  lf_write_fails :: bool

text \<open>\<open>lf_workers\<close>: for every worker, whether its thread still runs.\<close>

definition life_init :: "life \<Rightarrow> bool" where
  "life_init s \<longleftrightarrow> lf_downstream s = D_none \<and> \<not> lf_joinable s \<and> lf_new s = D_none \<and> \<not> lf_stop_requested s \<and>
     lf_eventfd s = 0 \<and> (\<exists>n. lf_workers s = replicate n True) \<and> lf_owner s = M_idle \<and> lf_running s"

inductive life_step :: "life \<Rightarrow> life \<Rightarrow> bool" where
  server_start: "lf_running s \<Longrightarrow> lf_owner s = M_idle \<Longrightarrow> \<not> lf_joinable s \<Longrightarrow>
    life_step s (s\<lparr>lf_downstream := D_start, lf_joinable := True, lf_stop_requested := False\<rparr>)"
| server_restart: "lf_running s \<Longrightarrow> lf_owner s = M_idle \<Longrightarrow> lf_joinable s \<Longrightarrow>
    life_step s (s\<lparr>lf_new := D_start, lf_stop_requested := True, lf_owner := M_replacing\<rparr>)"
| replace_joined: "lf_running s \<Longrightarrow> lf_owner s = M_replacing \<Longrightarrow> lf_downstream s = D_exited \<Longrightarrow>
    life_step s (s\<lparr>lf_downstream := lf_new s, lf_new := D_none, lf_stop_requested := False, lf_owner := M_idle\<rparr>)"
| server_stop: "lf_running s \<Longrightarrow> lf_owner s = M_idle \<Longrightarrow> life_step s (s\<lparr>lf_stop_requested := lf_downstream s \<noteq> D_none\<rparr>)"
| wait_begin: "lf_running s \<Longrightarrow> lf_owner s = M_idle \<Longrightarrow> lf_joinable s \<Longrightarrow> life_step s (s\<lparr>lf_owner := M_waiting\<rparr>)"
| wait_end: "lf_running s \<Longrightarrow> lf_owner s = M_waiting \<Longrightarrow> lf_downstream s = D_exited \<Longrightarrow>
    life_step s (s\<lparr>lf_joinable := False, lf_owner := M_idle\<rparr>)"
| destroy_request: "lf_running s \<Longrightarrow> lf_owner s = M_idle \<Longrightarrow>
    life_step s (s\<lparr>lf_stop_requested := lf_downstream s \<noteq> D_none, lf_owner := M_joining\<rparr>)"
| destroy_joined: "lf_running s \<Longrightarrow> lf_owner s = M_joining \<Longrightarrow> \<not> lf_joinable s \<or> lf_downstream s = D_exited \<Longrightarrow>
    life_step s (s\<lparr>lf_joinable := False, lf_owner := M_stopping_feeds\<rparr>)"
| destroy_stop_feeds: "lf_running s \<Longrightarrow> lf_owner s = M_stopping_feeds \<Longrightarrow>
    life_step s (s\<lparr>lf_eventfd := lf_eventfd s + 1, lf_owner := M_joining_feeds\<rparr>)"
| destroy_stop_feeds_throws: "lf_running s \<Longrightarrow> lf_owner s = M_stopping_feeds \<Longrightarrow> lf_write_fails s \<Longrightarrow>
    life_step s (s\<lparr>lf_running := False\<rparr>)"
| destroy_feeds_joined: "lf_running s \<Longrightarrow> lf_owner s = M_joining_feeds \<Longrightarrow> True \<notin> set (lf_workers s) \<Longrightarrow>
    life_step s (s\<lparr>lf_owner := M_destroyed\<rparr>)"
| downstream_returns: "lf_running s \<Longrightarrow> lf_downstream s = D_start \<Longrightarrow> lf_stop_requested s \<or> lf_ends_alone s \<Longrightarrow>
    life_step s (s\<lparr>lf_downstream := D_stopping\<rparr>)"
| downstream_stop_feeds: "lf_running s \<Longrightarrow> lf_downstream s = D_stopping \<Longrightarrow>
    life_step s (s\<lparr>lf_eventfd := lf_eventfd s + 1, lf_downstream := D_exited\<rparr>)"
| downstream_stop_feeds_throws: "lf_running s \<Longrightarrow> lf_downstream s = D_stopping \<Longrightarrow> lf_write_fails s \<Longrightarrow>
    life_step s (s\<lparr>lf_running := False\<rparr>)"
| new_returns: "lf_running s \<Longrightarrow> lf_new s = D_start \<Longrightarrow> lf_ends_alone s \<Longrightarrow> life_step s (s\<lparr>lf_new := D_stopping\<rparr>)"
| new_stop_feeds: "lf_running s \<Longrightarrow> lf_new s = D_stopping \<Longrightarrow>
    life_step s (s\<lparr>lf_eventfd := lf_eventfd s + 1, lf_new := D_exited\<rparr>)"
| new_stop_feeds_throws: "lf_running s \<Longrightarrow> lf_new s = D_stopping \<Longrightarrow> lf_write_fails s \<Longrightarrow> life_step s (s\<lparr>lf_running := False\<rparr>)"
| worker_exits: "lf_running s \<Longrightarrow> i < length (lf_workers s) \<Longrightarrow> lf_workers s ! i \<Longrightarrow> 0 < lf_eventfd s \<Longrightarrow>
    life_step s (s\<lparr>lf_workers := (lf_workers s)[i := False]\<rparr>)"

inductive_cases life_stepE: "life_step s s'"

definition destroying :: "life \<Rightarrow> bool" where
  "destroying s \<longleftrightarrow> lf_running s \<and> lf_owner s \<in> {M_joining, M_stopping_feeds, M_joining_feeds}"

definition life_inv :: "life \<Rightarrow> bool" where
  "life_inv s \<longleftrightarrow>
     (lf_owner s \<in> {M_stopping_feeds, M_joining_feeds, M_destroyed} \<longrightarrow> \<not> lf_joinable s) \<and>
     (if lf_joinable s then lf_downstream s \<noteq> D_none else lf_downstream s = D_none \<or> lf_downstream s = D_exited) \<and>
     (lf_new s \<noteq> D_none \<longleftrightarrow> lf_owner s = M_replacing) \<and>
     (lf_owner s \<in> {M_replacing, M_waiting} \<longrightarrow> lf_joinable s) \<and>
     (lf_owner s = M_replacing \<or> lf_owner s = M_joining \<and> lf_downstream s \<noteq> D_none \<longrightarrow> lf_stop_requested s) \<and>
     (lf_owner s \<in> {M_joining_feeds, M_destroyed} \<or> lf_downstream s = D_exited \<or> lf_new s = D_exited \<or>
        False \<in> set (lf_workers s) \<longrightarrow> 0 < lf_eventfd s) \<and>
     (lf_owner s = M_destroyed \<longrightarrow> True \<notin> set (lf_workers s))"

lemma life_inv_init: "life_init s \<Longrightarrow> life_inv s"
  by (auto simp: life_init_def life_inv_def)

lemma life_inv_step: "life_inv s \<Longrightarrow> life_step s s' \<Longrightarrow> life_inv s'"
  by (erule life_stepE) (auto simp: life_inv_def dest: set_update_subset_insert [THEN subsetD] split: if_splits)

interpretation life: invariant_system life_init life_step life_inv
  by standard (fact life_inv_init, fact life_inv_step)

subsection \<open>The destructor ends\<close>

definition life_measure :: "life \<Rightarrow> nat" where
  "life_measure s =
     (case lf_owner s of M_joining \<Rightarrow> 3 | M_stopping_feeds \<Rightarrow> 2 | M_joining_feeds \<Rightarrow> 1 | _ \<Rightarrow> 0) +
     (case lf_downstream s of D_start \<Rightarrow> 2 | D_stopping \<Rightarrow> 1 | _ \<Rightarrow> 0) +
     length (filter id (lf_workers s))"

lemma write_fails_const: "life_step s s' \<Longrightarrow> lf_write_fails s' = lf_write_fails s"
  by (erule life_stepE) simp_all

lemma destroying_decreases:
  "life_inv s \<Longrightarrow> destroying s \<Longrightarrow> \<not> lf_write_fails s \<Longrightarrow> life_step s s' \<Longrightarrow>
    life_measure s' < life_measure s \<and> (destroying s' \<or> lf_owner s' = M_destroyed)"
  by (erule life_stepE) (auto simp: destroying_def life_measure_def life_inv_def filter_update_less)

lemma destroying_not_stuck:
  assumes "life_inv s" and "destroying s"
  shows "\<exists>s'. life_step s s'"
proof (cases "lf_downstream s = D_start \<or> lf_downstream s = D_stopping")
  case True
  have run: "lf_running s" using assms(2) by (simp add: destroying_def)
  have "lf_stop_requested s" if "lf_downstream s = D_start"
    using assms that by (auto simp: life_inv_def destroying_def)
  then show ?thesis using True run downstream_returns downstream_stop_feeds by blast
next
  case False
  have run: "lf_running s" using assms(2) by (simp add: destroying_def)
  have down: "lf_downstream s = D_none \<or> lf_downstream s = D_exited" using False by (cases "lf_downstream s") auto
  consider "lf_owner s = M_joining" | "lf_owner s = M_stopping_feeds" | "lf_owner s = M_joining_feeds"
    using assms(2) by (auto simp: destroying_def)
  then show ?thesis
  proof cases
    case 3
    then have "0 < lf_eventfd s" using assms(1) by (simp add: life_inv_def)
    then show ?thesis using run 3 worker_exits [of s] destroy_feeds_joined [of s] by (metis in_set_conv_nth)
  next
    case 1
    then show ?thesis using run down assms(1) destroy_joined [of s] by (auto simp: life_inv_def split: if_splits)
  qed (use run destroy_stop_feeds in blast)
qed

lemma destruction_completes:
  assumes "life_inv s" and "destroying s" and "\<not> lf_write_fails s"
  shows "\<exists>s'. life_step\<^sup>*\<^sup>* s s' \<and> lf_owner s' = M_destroyed"
  using assms
proof (induction "life_measure s" arbitrary: s rule: less_induct)
  case less
  obtain s1 where s1: "life_step s s1" using destroying_not_stuck less.prems by blast
  then have "life_inv s1" "\<not> lf_write_fails s1" using life_inv_step write_fails_const less.prems by blast+
  moreover have "life_measure s1 < life_measure s" "destroying s1 \<or> lf_owner s1 = M_destroyed"
    using destroying_decreases [OF less.prems s1] by auto
  ultimately show ?case using less.hyps s1 by (metis converse_rtranclp_into_rtranclp rtranclp.rtrancl_refl)
qed

section \<open>Properties\<close>

text \<open>
  C22. The destructor of a server ends, however the server was used before and also when its session would never
  end by itself: from every reachable state inside it some thread can move, every move of any thread lowers a measure and
  stays inside the destructor or completes it, and completion is reached. The condition is that the write of the event
  descriptor succeeds (a failed one is \<open>std::terminate\<close>). That the downstream thread returns once its stop is requested is
  the rule \<open>downstream_returns\<close> here and \<open>stop_returns\<close> of the root theory.
\<close>

theorem server_destructor_ends:
  assumes "reachable life_init life_step s" and "destroying s" and "\<not> lf_write_fails s"
  shows "(\<exists>s'. life_step s s') \<and>
    (\<forall>s'. life_step s s' \<longrightarrow> life_measure s' < life_measure s \<and> (destroying s' \<or> lf_owner s' = M_destroyed)) \<and>
    (\<exists>s'. life_step\<^sup>*\<^sup>* s s' \<and> lf_owner s' = M_destroyed)"
  using destroying_not_stuck destroying_decreases destruction_completes life.reachable_inv [OF assms(1)] assms(2,3) by blast

definition sample_life :: life where
  "sample_life = \<lparr>lf_downstream = D_none, lf_joinable = False, lf_new = D_none, lf_stop_requested = False, lf_eventfd = 0,
     lf_workers = [True, True], lf_owner = M_idle, lf_running = True, lf_ends_alone = False, lf_write_fails = False\<rparr>"

lemma sample_life_init: "life_init sample_life"
  by (auto simp: life_init_def sample_life_def intro!: exI [of _ 2] simp: numeral_2_eq_2)

lemma sample_life_reachable: "reachable life_init life_step sample_life"
  by (rule reachable.start) (rule sample_life_init)

lemma sample_life_started:
  "reachable life_init life_step (sample_life\<lparr>lf_downstream := D_start, lf_joinable := True, lf_stop_requested := False\<rparr>)"
  by (rule reachable.advance [OF sample_life_reachable life_step.server_start]) (simp_all add: sample_life_def)

lemma sample_life_destroying:
  "reachable life_init life_step (sample_life\<lparr>lf_downstream := D_start, lf_joinable := True, lf_stop_requested := True, lf_owner := M_joining\<rparr>)"
  using reachable.advance [OF sample_life_started life_step.destroy_request] by (simp add: sample_life_def)

theorem server_destructor_ends_witness:
  "\<exists>s'. life_step\<^sup>*\<^sup>* (sample_life\<lparr>lf_downstream := D_start, lf_joinable := True, lf_stop_requested := True, lf_owner := M_joining\<rparr>) s' \<and>
    lf_owner s' = M_destroyed"
  using server_destructor_ends [OF sample_life_destroying] by (simp add: destroying_def sample_life_def)

text \<open>
  C25. Nothing is destroyed under a running thread: when the destructor is past its joins, no downstream thread
  runs and every worker has left its loop; and a worker leaves its loop only after the shutdown
  descriptor was written.
\<close>

theorem server_threads_gone:
  assumes "reachable life_init life_step s"
  shows "(lf_owner s = M_destroyed \<longrightarrow> True \<notin> set (lf_workers s) \<and> lf_new s = D_none \<and>
      (lf_downstream s = D_none \<or> lf_downstream s = D_exited)) \<and>
    (False \<in> set (lf_workers s) \<longrightarrow> 0 < lf_eventfd s)"
proof -
  have "life_inv s" using life.reachable_inv [OF assms] .
  then show ?thesis by (auto simp: life_inv_def split: if_splits)
qed

theorem server_threads_gone_witness:
  "\<exists>(s :: life). lf_owner s = M_destroyed \<and> True \<notin> set (lf_workers s) \<and> lf_new s = D_none \<and>
    (lf_downstream s = D_none \<or> lf_downstream s = D_exited)"
proof -
  note r = sample_life_destroying
  obtain s where "life_step\<^sup>*\<^sup>* (sample_life\<lparr>lf_downstream := D_start, lf_joinable := True, lf_stop_requested := True, lf_owner := M_joining\<rparr>) s"
    "lf_owner s = M_destroyed"
    using destruction_completes [OF life.reachable_inv [OF r]] by (auto simp: destroying_def sample_life_def)
  then show ?thesis using server_threads_gone [OF reachable_steps [OF r]] by blast
qed

subsection \<open>Starting twice\<close>

lemma workers_leave:
  assumes "0 < lf_eventfd s" and "lf_running s"
  shows "\<exists>ws. life_step\<^sup>*\<^sup>* s (s\<lparr>lf_workers := ws\<rparr>) \<and> True \<notin> set ws"
  using assms
proof (induction "length (filter id (lf_workers s))" arbitrary: s rule: less_induct)
  case less
  show ?case
  proof (cases "True \<in> set (lf_workers s)")
    case True
    then obtain i where i: "i < length (lf_workers s)" "lf_workers s ! i" by (metis in_set_conv_nth)
    let ?s = "s\<lparr>lf_workers := (lf_workers s)[i := False]\<rparr>"
    have "length (filter id (lf_workers ?s)) < length (filter id (lf_workers s))" using filter_update_less [where P = id and y = False] i by simp
    from less.hyps [OF this] less.prems obtain ws where "life_step\<^sup>*\<^sup>* ?s (s\<lparr>lf_workers := ws\<rparr>)" "True \<notin> set ws" by auto
    moreover have "life_step s ?s" using life_step.worker_exits [OF less.prems(2) i less.prems(1)] .
    ultimately show ?thesis using converse_rtranclp_into_rtranclp [of life_step s ?s] by blast
  next
    case False
    then show ?thesis by (intro exI [of _ "lf_workers s"]) simp
  qed
qed

lemma two_steps: "life_step a b \<Longrightarrow> life_step b c \<Longrightarrow> life_step\<^sup>*\<^sup>* a c"
  by (meson converse_rtranclp_into_rtranclp r_into_rtranclp)

lemma after_session_step:
  "life_step s s' \<Longrightarrow> 0 < lf_eventfd s \<Longrightarrow> 0 < lf_eventfd s' \<and> list_all2 (\<lambda>b b'. b' \<longrightarrow> b) (lf_workers s) (lf_workers s')"
  by (erule life_stepE) (auto simp: list_all2_conv_all_nth nth_list_update)

lemma after_session_steps:
  "life_step\<^sup>*\<^sup>* s s' \<Longrightarrow> 0 < lf_eventfd s \<Longrightarrow> 0 < lf_eventfd s' \<and> list_all2 (\<lambda>b b'. b' \<longrightarrow> b) (lf_workers s) (lf_workers s')"
proof (induction rule: rtranclp_induct)
  case base
  then show ?case by (simp add: list.rel_refl)
next
  case (step y z)
  then have "list_all2 (\<lambda>b b'. b' \<longrightarrow> b) (lf_workers s) (lf_workers y)" "list_all2 (\<lambda>b b'. b' \<longrightarrow> b) (lf_workers y) (lf_workers z)"
    using after_session_step [of y z] by blast+
  then have "list_all2 (\<lambda>b b'. b' \<longrightarrow> b) (lf_workers s) (lf_workers z)" by (rule list_all2_trans [rotated]) blast
  then show ?case using step after_session_step [of y z] by blast
qed

lemma session_without_workers:
  assumes "life_inv s" and "0 < lf_eventfd s" and "lf_running s" and "lf_owner s = M_idle" and "lf_downstream s \<in> {D_start, D_exited}"
  shows "\<exists>t. life_step\<^sup>*\<^sup>* s t \<and> lf_downstream t = D_start \<and> lf_joinable t \<and> lf_owner t = M_idle \<and> lf_running t \<and> True \<notin> set (lf_workers t)"
proof -
  have "\<exists>t. life_step\<^sup>*\<^sup>* s t \<and> lf_downstream t = D_start \<and> lf_joinable t \<and> lf_owner t = M_idle \<and> lf_running t \<and> 0 < lf_eventfd t"
  proof -
    consider "lf_downstream s = D_start" "lf_joinable s" | "\<not> lf_joinable s" | "lf_downstream s = D_exited" "lf_joinable s"
      using assms(1,5) by (auto simp: life_inv_def split: if_splits)
    then show ?thesis
    proof cases
      case 2
      from life_step.server_start [OF assms(3,4) 2] show ?thesis
        by (intro exI [of _ "s\<lparr>lf_downstream := D_start, lf_joinable := True, lf_stop_requested := False\<rparr>"]) (simp add: assms)
    next
      case 3
      let ?s1 = "s\<lparr>lf_new := D_start, lf_stop_requested := True, lf_owner := M_replacing\<rparr>"
      let ?s2 = "?s1\<lparr>lf_downstream := lf_new ?s1, lf_new := D_none, lf_stop_requested := False, lf_owner := M_idle\<rparr>"
      have "life_step s ?s1" using life_step.server_restart [OF assms(3,4) 3(2)] .
      moreover have "life_step ?s1 ?s2" by (rule life_step.replace_joined) (simp_all add: 3 assms)
      ultimately have "life_step\<^sup>*\<^sup>* s ?s2" by (rule two_steps)
      then show ?thesis by (rule_tac x = ?s2 in exI) (simp add: assms 3)
    qed (use assms in blast)
  qed
  then obtain t where t: "life_step\<^sup>*\<^sup>* s t" "lf_downstream t = D_start" "lf_joinable t" "lf_owner t = M_idle" "lf_running t" "0 < lf_eventfd t"
    by blast
  obtain ws where "life_step\<^sup>*\<^sup>* t (t\<lparr>lf_workers := ws\<rparr>)" "True \<notin> set ws" using workers_leave t by blast
  then show ?thesis using t by (intro exI [of _ "t\<lparr>lf_workers := ws\<rparr>"]) simp
qed

lemma two_sessions:
  assumes "life_init s"
  shows "\<exists>t. life_step\<^sup>*\<^sup>* s t \<and> lf_downstream t = D_start \<and> lf_new t = D_start"
proof -
  let ?s1 = "s\<lparr>lf_downstream := D_start, lf_joinable := True, lf_stop_requested := False\<rparr>"
  let ?s2 = "?s1\<lparr>lf_new := D_start, lf_stop_requested := True, lf_owner := M_replacing\<rparr>"
  have "life_step s ?s1" by (rule life_step.server_start) (use assms in \<open>simp_all add: life_init_def\<close>)
  moreover have "life_step ?s1 ?s2" by (rule life_step.server_restart) (use assms in \<open>simp_all add: life_init_def\<close>)
  ultimately have "life_step\<^sup>*\<^sup>* s ?s2" by (rule two_steps)
  then show ?thesis by (rule_tac x = ?s2 in exI) simp
qed

text \<open>
  C40. What a second call of \<open>start\<close> does, on any server. Two calls in a row lead to a state in which two threads run
  \<open>downstream::Feed::start\<close> on the same feed. And once a downstream thread has ended (\<open>s\<close>), whatever happens afterwards
  (\<open>s'\<close>: waiting, stopping, starting again, any moves of the threads), the event descriptor stays readable and no worker that
  has left comes back; in every such state in which the owner may call \<open>start\<close> or a restarted session runs, a run leads to a
  session that is running with no retransmission worker at all. This covers a second \<open>start\<close> before and after
  \<open>wait_for_downstream\<close>.
\<close>

theorem server_started_twice:
  assumes "life_init s0" and "life_step\<^sup>*\<^sup>* s0 s" and "lf_downstream s = D_exited" and "life_step\<^sup>*\<^sup>* s s'"
  shows "(\<exists>t. life_step\<^sup>*\<^sup>* s0 t \<and> lf_downstream t = D_start \<and> lf_new t = D_start) \<and>
    0 < lf_eventfd s' \<and> list_all2 (\<lambda>b b'. b' \<longrightarrow> b) (lf_workers s) (lf_workers s') \<and>
    (lf_running s' \<and> lf_owner s' = M_idle \<and> lf_downstream s' \<in> {D_start, D_exited} \<longrightarrow>
       (\<exists>t. life_step\<^sup>*\<^sup>* s' t \<and> lf_downstream t = D_start \<and> lf_joinable t \<and> lf_owner t = M_idle \<and> lf_running t \<and>
          True \<notin> set (lf_workers t)))"
proof -
  have "reachable life_init life_step s0" using assms(1) by (rule reachable.start)
  then have r: "reachable life_init life_step s" by (rule reachable_steps) (rule assms(2))
  have "0 < lf_eventfd s" using life.reachable_inv [OF r] assms(3) by (auto simp: life_inv_def)
  note after = after_session_steps [OF assms(4) this]
  have "life_inv s'" using life.reachable_inv [OF reachable_steps [OF r assms(4)]] .
  then show ?thesis using two_sessions [OF assms(1)] after session_without_workers [of s'] by blast
qed

text \<open>The witness: start, stop, the session ends, wait, and the server is started again.\<close>

definition waited_life :: life where
  "waited_life = sample_life\<lparr>lf_downstream := D_exited, lf_stop_requested := True, lf_eventfd := 1\<rparr>"

lemma waited_life_ended: "life_step\<^sup>*\<^sup>* sample_life (waited_life\<lparr>lf_joinable := True\<rparr>)"
proof -
  let ?s1 = "sample_life\<lparr>lf_downstream := D_start, lf_joinable := True, lf_stop_requested := False\<rparr>"
  let ?s2 = "sample_life\<lparr>lf_downstream := D_start, lf_joinable := True, lf_stop_requested := True\<rparr>"
  let ?s3 = "sample_life\<lparr>lf_downstream := D_stopping, lf_joinable := True, lf_stop_requested := True\<rparr>"
  let ?s4 = "waited_life\<lparr>lf_joinable := True\<rparr>"
  have 1: "life_step sample_life ?s1" using life_step.server_start [of sample_life] by (simp add: sample_life_def)
  have 2: "life_step ?s1 ?s2" using life_step.server_stop [of ?s1] by (simp add: sample_life_def)
  have 3: "life_step ?s2 ?s3" using life_step.downstream_returns [of ?s2] by (simp add: sample_life_def)
  have 4: "life_step ?s3 ?s4" using life_step.downstream_stop_feeds [of ?s3] by (simp add: sample_life_def waited_life_def)
  have "life_step\<^sup>*\<^sup>* sample_life ?s2" using 1 2 by (rule two_steps)
  moreover have "life_step\<^sup>*\<^sup>* ?s2 ?s4" using 3 4 by (rule two_steps)
  ultimately show ?thesis by (rule rtranclp_trans)
qed

lemma waited_life_joined: "life_step\<^sup>*\<^sup>* (waited_life\<lparr>lf_joinable := True\<rparr>) waited_life"
proof -
  let ?s1 = "waited_life\<lparr>lf_joinable := True\<rparr>" and ?s2 = "waited_life\<lparr>lf_joinable := True, lf_owner := M_waiting\<rparr>"
  have "life_step ?s1 ?s2" using life_step.wait_begin [of ?s1] by (simp add: waited_life_def sample_life_def)
  moreover have "life_step ?s2 waited_life" using life_step.wait_end [of ?s2] by (simp add: waited_life_def sample_life_def)
  ultimately show ?thesis by (rule two_steps)
qed

theorem server_started_twice_witness:
  "\<exists>t. life_step\<^sup>*\<^sup>* waited_life t \<and> lf_downstream t = D_start \<and> lf_joinable t \<and> True \<notin> set (lf_workers t)"
proof -
  have "lf_downstream (waited_life\<lparr>lf_joinable := True\<rparr>) = D_exited" by (simp add: waited_life_def)
  from server_started_twice [OF sample_life_init waited_life_ended this waited_life_joined]
  show ?thesis by (auto simp: waited_life_def sample_life_def)
qed

end
