(* ===== verification/Buffer_Concurrency.thy ===== *)
theory Buffer_Concurrency
  imports Retransmission_Buffer
begin

text \<open>
  \<open>RetransmissionBuffer\<close> has one writer (the downstream thread) and many readers (the retransmission
  workers), with no lock: \<open>push\<close> copies the two fields of a record into a slot and then publishes the
  sequence number, \<open>file_position_for\<close> loads the published number, compares the number in the slot and
  then reads the position. Here both are split into those accesses and interleaved in any order
  (\<open>cstep\<close>); the compiler may copy the two fields in either order, so the writer has both. Readers do
  not write, so one reader against the writer covers all of them. Accesses are sequentially consistent
  (in C++ the unsynchronised accesses to a slot are a data race, which is the subject of \<open>Memory_Order\<close>; interleaving
  is the strongest behaviour a host can give them, so the torn read below exists on every host, and the positive results are about
  hosts that do not reorder the reads of one slot).

  The lemmas show that run without interference the steps are \<open>push\<close> and \<open>file_position_for\<close>, that an
  answer is right as long as the writer has not come round to the slot, and that it can be wrong when it
  has: the check in the code does not cover the read of the position that follows it.
\<close>

subsection \<open>The accesses\<close>

datatype writer_pc = W_idle | W_half bool message_record | W_full message_record

datatype reader_pc =
    R_start u64
  | R_loaded u64 u64
  | R_matched u64 u64
  | R_done u64 u64 "nat option"
  | R_fault

definition write_slot_seq :: "retransmission_buffer \<Rightarrow> message_record \<Rightarrow> retransmission_buffer" where
  "write_slot_seq rb r =
     (let i = index_for rb (rec_sequence_number r) in
      rb\<lparr>rb_buffer := (rb_buffer rb)[i := (rb_buffer rb ! i)\<lparr>rec_sequence_number := rec_sequence_number r\<rparr>]\<rparr>)"

definition write_slot_pos :: "retransmission_buffer \<Rightarrow> message_record \<Rightarrow> retransmission_buffer" where
  "write_slot_pos rb r =
     (let i = index_for rb (rec_sequence_number r) in
      rb\<lparr>rb_buffer := (rb_buffer rb)[i := (rb_buffer rb ! i)\<lparr>rec_file_position := rec_file_position r\<rparr>]\<rparr>)"

definition publish :: "retransmission_buffer \<Rightarrow> message_record \<Rightarrow> retransmission_buffer" where
  "publish rb r = rb\<lparr>rb_write_seq := rec_sequence_number r\<rparr>"

fun reader_step :: "retransmission_buffer \<Rightarrow> reader_pc \<Rightarrow> reader_pc" where
  "reader_step rb (R_start seq_num) = R_loaded seq_num (rb_write_seq rb)"
| "reader_step rb (R_loaded seq_num current_seq_num) =
     (let overwritten = (seq_num + word_of_nat (length (rb_buffer rb)) \<le> current_seq_num);
          not_yet_sent = (seq_num > current_seq_num);
          buffer_empty = (current_seq_num = 0)
      in if overwritten \<or> not_yet_sent \<or> buffer_empty then R_done seq_num current_seq_num None
         else let i = index_for rb seq_num in
           if i < length (rb_buffer rb) then
             (if rec_sequence_number (rb_buffer rb ! i) \<noteq> seq_num then R_done seq_num current_seq_num None
              else R_matched seq_num current_seq_num)
           else R_fault)"
| "reader_step rb (R_matched seq_num current_seq_num) =
     R_done seq_num current_seq_num (Some (rec_file_position (rb_buffer rb ! index_for rb seq_num)))"
| "reader_step rb pc = pc"

text \<open>\<open>cs_pushed\<close> is the history: the positions published so far, in order. It is not program state.\<close>

record conc =
  cs_buffer :: retransmission_buffer
  cs_writer :: writer_pc
  cs_reader :: reader_pc
  cs_pushed :: "nat list"

definition cs_init :: "conc \<Rightarrow> bool" where
  "cs_init c \<longleftrightarrow>
     (\<exists>n seq. 0 < n \<and> retransmission_buffer_new n = Inr (cs_buffer c) \<and> cs_reader c = R_start seq) \<and>
     cs_writer c = W_idle \<and> cs_pushed c = []"

inductive cstep :: "conc \<Rightarrow> conc \<Rightarrow> bool" where
  write_seq_first: "cs_writer c = W_idle \<Longrightarrow> Suc (length (cs_pushed c)) + rb_size (cs_buffer c) < 2 ^ 64 \<Longrightarrow>
    r = \<lparr>rec_sequence_number = word_of_nat (Suc (length (cs_pushed c))), rec_file_position = p\<rparr> \<Longrightarrow>
    cstep c (c\<lparr>cs_buffer := write_slot_seq (cs_buffer c) r, cs_writer := W_half True r\<rparr>)"
| write_pos_first: "cs_writer c = W_idle \<Longrightarrow> Suc (length (cs_pushed c)) + rb_size (cs_buffer c) < 2 ^ 64 \<Longrightarrow>
    r = \<lparr>rec_sequence_number = word_of_nat (Suc (length (cs_pushed c))), rec_file_position = p\<rparr> \<Longrightarrow>
    cstep c (c\<lparr>cs_buffer := write_slot_pos (cs_buffer c) r, cs_writer := W_half False r\<rparr>)"
| write_pos_second: "cs_writer c = W_half True r \<Longrightarrow>
    cstep c (c\<lparr>cs_buffer := write_slot_pos (cs_buffer c) r, cs_writer := W_full r\<rparr>)"
| write_seq_second: "cs_writer c = W_half False r \<Longrightarrow>
    cstep c (c\<lparr>cs_buffer := write_slot_seq (cs_buffer c) r, cs_writer := W_full r\<rparr>)"
| store_write_seq: "cs_writer c = W_full r \<Longrightarrow>
    cstep c (c\<lparr>cs_buffer := publish (cs_buffer c) r, cs_writer := W_idle,
               cs_pushed := cs_pushed c @ [rec_file_position r]\<rparr>)"
| read: "cstep c (c\<lparr>cs_reader := reader_step (cs_buffer c) (cs_reader c)\<rparr>)"
| request: "cs_reader c = R_done seq cur res \<Longrightarrow> cstep c (c\<lparr>cs_reader := R_start seq'\<rparr>)"

subsection \<open>Without interference the steps are the operations\<close>

lemma index_for_buffer_update [simp]:
  "index_for (rb\<lparr>rb_buffer := (rb_buffer rb)[i := x]\<rparr>) seq = index_for rb seq"
  by (simp add: index_for_def)

lemma record_both:
  "r\<lparr>rec_sequence_number := a, rec_file_position := p\<rparr> = \<lparr>rec_sequence_number = a, rec_file_position = p\<rparr>"
  by (cases r) simp

lemma record_both':
  "r\<lparr>rec_file_position := p, rec_sequence_number := a\<rparr> = \<lparr>rec_sequence_number = a, rec_file_position = p\<rparr>"
  by (cases r) simp

lemma record_eta: "\<lparr>rec_sequence_number = rec_sequence_number r, rec_file_position = rec_file_position r\<rparr> = (r :: message_record)"
  by (cases r) simp

lemma push_is_writes:
  assumes "push rb r = Inr rb'"
  shows "publish (write_slot_pos (write_slot_seq rb r) r) r = rb'"
    and "publish (write_slot_seq (write_slot_pos rb r) r) r = rb'"
  using assms
  by (auto simp: push_def publish_def write_slot_pos_def write_slot_seq_def Let_def
      record_both record_both' record_eta split: if_splits)

lemma file_position_for_is_reads:
  assumes "file_position_for rb seq = Inr res"
  shows "reader_step rb (reader_step rb (reader_step rb (R_start seq))) = R_done seq (rb_write_seq rb) res"
  using assms by (auto simp: file_position_for_def Let_def split: if_splits)

subsection \<open>Invariant\<close>

definition pend :: "conc \<Rightarrow> nat" where
  "pend c = (if cs_writer c = W_idle then 0 else 1)"

text \<open>\<open>kept c s\<close>: the writer has not begun the message that reuses the slot of message \<open>s\<close>.\<close>

definition kept :: "conc \<Rightarrow> nat \<Rightarrow> bool" where
  "kept c s \<longleftrightarrow> length (cs_pushed c) + pend c < s + rb_size (cs_buffer c)"

definition slot :: "conc \<Rightarrow> nat \<Rightarrow> message_record" where
  "slot c s = rb_buffer (cs_buffer c) ! (s mod rb_size (cs_buffer c))"

text \<open>The position under number \<open>s\<close>: as pushed; number 0 is never pushed, its slot holds the zero-initialised record.\<close>

definition pushed_at :: "nat list \<Rightarrow> nat \<Rightarrow> nat" where
  "pushed_at ps s = (if s = 0 then 0 else ps ! (s - 1))"

lemma pushed_at_append: "s \<le> length ps \<Longrightarrow> pushed_at (ps @ qs) s = pushed_at ps s"
  by (auto simp: pushed_at_def nth_append)

definition slots_inv :: "conc \<Rightarrow> bool" where
  "slots_inv c \<longleftrightarrow>
     rb_inv (cs_buffer c) \<and> length (cs_pushed c) + pend c + rb_size (cs_buffer c) < 2 ^ 64 \<and>
     rb_write_seq (cs_buffer c) = word_of_nat (length (cs_pushed c)) \<and>
     (\<forall>s. s \<le> length (cs_pushed c) \<and> kept c s \<longrightarrow>
        slot c s = \<lparr>rec_sequence_number = word_of_nat s, rec_file_position = pushed_at (cs_pushed c) s\<rparr>)"

definition writer_inv :: "conc \<Rightarrow> bool" where
  "writer_inv c \<longleftrightarrow>
     (case cs_writer c of
        W_idle \<Rightarrow> True
      | W_half seq_first r \<Rightarrow> rec_sequence_number r = word_of_nat (Suc (length (cs_pushed c))) \<and>
          (if seq_first then rec_sequence_number (slot c (Suc (length (cs_pushed c)))) = rec_sequence_number r
           else rec_file_position (slot c (Suc (length (cs_pushed c)))) = rec_file_position r)
      | W_full r \<Rightarrow> rec_sequence_number r = word_of_nat (Suc (length (cs_pushed c))) \<and>
          slot c (Suc (length (cs_pushed c))) = r)"

definition reader_inv :: "conc \<Rightarrow> bool" where
  "reader_inv c \<longleftrightarrow>
     (case cs_reader c of
        R_start seq \<Rightarrow> True
      | R_loaded seq cur \<Rightarrow> unat cur \<le> length (cs_pushed c)
      | R_matched seq cur \<Rightarrow> seq \<le> cur \<and> unat cur \<le> length (cs_pushed c)
      | R_done seq cur (Some p) \<Rightarrow> seq \<le> cur \<and> unat cur \<le> length (cs_pushed c) \<and>
          (kept c (unat seq) \<longrightarrow> p = pushed_at (cs_pushed c) (unat seq))
      | R_done seq cur None \<Rightarrow> cur = 0 \<or> cur < seq \<or> \<not> kept c (unat seq)
      | R_fault \<Rightarrow> False)"

definition conc_inv :: "conc \<Rightarrow> bool" where
  "conc_inv c \<longleftrightarrow> slots_inv c \<and> writer_inv c \<and> reader_inv c"

lemma slots_invD:
  assumes "slots_inv c"
  shows "rb_inv (cs_buffer c)" "length (cs_pushed c) + pend c + rb_size (cs_buffer c) < 2 ^ 64"
    "rb_write_seq (cs_buffer c) = word_of_nat (length (cs_pushed c))"
    "s \<le> length (cs_pushed c) \<Longrightarrow> kept c s \<Longrightarrow>
      slot c s = \<lparr>rec_sequence_number = word_of_nat s, rec_file_position = pushed_at (cs_pushed c) s\<rparr>"
  using assms by (simp_all add: slots_inv_def)

lemma pend_le: "pend c \<le> 1"
  by (simp add: pend_def)

text \<open>The slot the writer is filling is not the slot of a message that is kept.\<close>

lemma slots_inv_write:
  assumes "slots_inv c" and "cs_writer c' \<noteq> W_idle" and "cs_pushed c' = cs_pushed c"
    and "cs_buffer c' = (cs_buffer c)\<lparr>rb_buffer :=
      (rb_buffer (cs_buffer c))[Suc (length (cs_pushed c)) mod rb_size (cs_buffer c) := x]\<rparr>"
    and "Suc (length (cs_pushed c)) + rb_size (cs_buffer c) < 2 ^ 64"
  shows "slots_inv c'" and "slot c' (Suc (length (cs_pushed c))) = x"
proof -
  let ?n = "length (cs_pushed c)"
  note inv = slots_invD [OF assms(1)]
  have sz: "rb_size (cs_buffer c') = rb_size (cs_buffer c)" by (simp add: assms(4) rb_size_def)
  have rb: "rb_inv (cs_buffer c')" using inv(1) sz by (simp add: rb_inv_def assms(4))
  have "pend c' = 1" using assms(2) by (simp add: pend_def)
  then have kept: "kept c' s \<Longrightarrow> kept c s \<and> Suc ?n < s + rb_size (cs_buffer c)" for s
    using pend_le [of c] by (simp add: kept_def sz assms(3))
  have "slot c' s = slot c s" if "s \<le> ?n" "kept c' s" for s
    using window_distinct_slots [OF that(1), of "rb_size (cs_buffer c)"] kept [OF that(2)]
    by (simp add: slot_def sz) (simp add: assms(4))
  then show "slots_inv c'"
    unfolding slots_inv_def using rb inv kept assms(3,5) \<open>pend c' = 1\<close> by (simp add: sz) (simp add: assms(4))
  have "0 < rb_size (cs_buffer c)" using inv(1) by (simp add: rb_inv_def)
  then show "slot c' (Suc ?n) = x" by (simp add: slot_def sz) (simp add: assms(4) rb_size_def)
qed

text \<open>A step of the writer cannot turn a right answer of the reader into a wrong one.\<close>

lemma reader_inv_mono:
  assumes "reader_inv c" and "cs_reader c' = cs_reader c" and "cs_pushed c' = cs_pushed c @ ps"
    and "\<And>s. kept c' s \<Longrightarrow> kept c s"
  shows "reader_inv c'"
  using assms(1)
proof (cases "cs_reader c")
  case (R_done seq cur res)
  have "unat seq \<le> length (cs_pushed c)" if "seq \<le> cur" "unat cur \<le> length (cs_pushed c)"
    using that by (simp add: word_le_nat_alt)
  with R_done assms show ?thesis
    by (cases res) (auto simp: reader_inv_def pushed_at_append)
qed (use assms in \<open>auto simp: reader_inv_def\<close>)

lemma slot_index:
  assumes "slots_inv c" and "rec_sequence_number r = word_of_nat (Suc (length (cs_pushed c)))"
    and "Suc (length (cs_pushed c)) + rb_size (cs_buffer c) < 2 ^ 64"
  shows "index_for (cs_buffer c) (rec_sequence_number r) = Suc (length (cs_pushed c)) mod rb_size (cs_buffer c)"
proof -
  have "Suc (length (cs_pushed c)) < 2 ^ 64" using assms(3) by simp
  then show ?thesis
    using index_for_mod [OF slots_invD(1) [OF assms(1)]] assms(2) unat_word_of_nat_less by metis
qed

lemma write_slot_inv:
  fixes seq_part :: bool and r :: message_record
  assumes "slots_inv c" and "reader_inv c" and "rec_sequence_number r = word_of_nat (Suc (length (cs_pushed c)))"
    and "Suc (length (cs_pushed c)) + rb_size (cs_buffer c) < 2 ^ 64"
    and "c' = c\<lparr>cs_buffer := (if seq_part then write_slot_seq else write_slot_pos) (cs_buffer c) r, cs_writer := pc\<rparr>"
    and "pc \<noteq> W_idle"
  shows "slots_inv c'" and "reader_inv c'" and "cs_writer c' = pc" and "cs_pushed c' = cs_pushed c"
    and "slot c' (Suc (length (cs_pushed c))) =
      (if seq_part then (slot c (Suc (length (cs_pushed c))))\<lparr>rec_sequence_number := rec_sequence_number r\<rparr>
       else (slot c (Suc (length (cs_pushed c))))\<lparr>rec_file_position := rec_file_position r\<rparr>)"
proof -
  let ?n = "length (cs_pushed c)"
  define x where "x = (if seq_part then (slot c (Suc ?n))\<lparr>rec_sequence_number := rec_sequence_number r\<rparr>
       else (slot c (Suc ?n))\<lparr>rec_file_position := rec_file_position r\<rparr>)"
  have i: "index_for (cs_buffer c) (rec_sequence_number r) = Suc ?n mod rb_size (cs_buffer c)"
    using slot_index [OF assms(1,3,4)] .
  have buf: "cs_buffer c' = (cs_buffer c)\<lparr>rb_buffer := (rb_buffer (cs_buffer c))[Suc ?n mod rb_size (cs_buffer c) := x]\<rparr>"
    using i by (simp add: assms(5) x_def write_slot_seq_def write_slot_pos_def slot_def Let_def)
  have pc: "cs_writer c' \<noteq> W_idle" and pushed: "cs_pushed c' = cs_pushed c" "cs_reader c' = cs_reader c"
    using assms(5,6) by simp_all
  show "slots_inv c'" and "slot c' (Suc ?n) = (if seq_part then (slot c (Suc ?n))\<lparr>rec_sequence_number := rec_sequence_number r\<rparr>
       else (slot c (Suc ?n))\<lparr>rec_file_position := rec_file_position r\<rparr>)"
    using slots_inv_write [OF assms(1) pc pushed(1) buf assms(4)] by (simp_all add: x_def)
  have "pend c' = 1" using pc by (simp add: pend_def)
  moreover have "rb_size (cs_buffer c') = rb_size (cs_buffer c)" by (simp add: buf rb_size_def)
  ultimately have "kept c' s \<Longrightarrow> kept c s" for s using pend_le [of c] pushed(1) by (simp add: kept_def)
  then show "reader_inv c'" using reader_inv_mono [OF assms(2) pushed(2), of "[]"] pushed(1) by simp
  show "cs_writer c' = pc" "cs_pushed c' = cs_pushed c" using assms(5) by simp_all
qed

lemma writer_pending:
  assumes "slots_inv c" and "cs_writer c \<noteq> W_idle"
  shows "Suc (length (cs_pushed c)) + rb_size (cs_buffer c) < 2 ^ 64"
  using slots_invD(2) [OF assms(1)] assms(2) by (simp add: pend_def)

lemma publish_inv:
  assumes "conc_inv c" and "cs_writer c = W_full r"
  shows "conc_inv (c\<lparr>cs_buffer := publish (cs_buffer c) r, cs_writer := W_idle, cs_pushed := cs_pushed c @ [rec_file_position r]\<rparr>)"
    (is "conc_inv ?c")
proof -
  let ?n = "length (cs_pushed c)"
  have inv: "slots_inv c" "reader_inv c" and r: "rec_sequence_number r = word_of_nat (Suc ?n)" "slot c (Suc ?n) = r"
    using assms by (simp_all add: conc_inv_def writer_inv_def)
  have sz: "rb_size (cs_buffer ?c) = rb_size (cs_buffer c)" and slots: "slot ?c = slot c"
    by (simp_all add: publish_def rb_size_def slot_def fun_eq_iff)
  have pend: "pend c = 1" "pend ?c = 0" using assms(2) by (simp_all add: pend_def)
  then have kept: "kept ?c s = kept c s" for s by (simp add: kept_def publish_def rb_size_def)
  have "rb_inv (cs_buffer ?c)" using slots_invD(1) [OF inv(1)] sz by (simp add: rb_inv_def publish_def)
  moreover have "slot ?c s = \<lparr>rec_sequence_number = word_of_nat s, rec_file_position = pushed_at (cs_pushed ?c) s\<rparr>"
    if "s \<le> length (cs_pushed ?c)" "kept ?c s" for s
  proof (cases "s = Suc ?n")
    case True
    then show ?thesis using r record_eta [of r] by (simp add: slots pushed_at_def)
  next
    case False
    then have "s \<le> ?n" using that(1) by simp
    then show ?thesis using slots_invD(4) [OF inv(1), of s] that(2) kept by (simp add: slots pushed_at_append)
  qed
  ultimately have "slots_inv ?c"
    unfolding slots_inv_def using slots_invD(2) [OF inv(1)] pend r(1) sz by (simp add: publish_def)
  moreover have "reader_inv ?c" by (rule reader_inv_mono [OF inv(2), of _ "[rec_file_position r]"]) (simp_all add: kept)
  ultimately show ?thesis by (simp add: conc_inv_def writer_inv_def)
qed

lemma kept_slot:
  assumes "slots_inv c" and "seq \<le> cur" and "unat cur \<le> length (cs_pushed c)" and "kept c (unat seq)"
  shows "rb_buffer (cs_buffer c) ! index_for (cs_buffer c) seq =
    \<lparr>rec_sequence_number = seq, rec_file_position = pushed_at (cs_pushed c) (unat seq)\<rparr>"
proof -
  have "unat seq \<le> length (cs_pushed c)" using assms(2,3) by (simp add: word_le_nat_alt)
  then show ?thesis
    using slots_invD(4) [OF assms(1) _ assms(4)] index_for_mod [OF slots_invD(1) [OF assms(1)], of seq]
    by (simp add: slot_def)
qed

lemma overwritten_not_kept:
  fixes seq cur :: u64
  assumes "slots_inv c" and "seq + word_of_nat (rb_size (cs_buffer c)) \<le> cur" and "seq \<le> cur"
    and "unat cur \<le> length (cs_pushed c)"
  shows "\<not> kept c (unat seq)"
proof -
  let ?n = "rb_size (cs_buffer c)"
  have n: "unat seq + ?n < 2 ^ 64" using assms(3,4) slots_invD(2) [OF assms(1)] by (simp add: word_le_nat_alt)
  then have "unat (seq + word_of_nat ?n) = unat seq + ?n"
    using unat_word_of_nat_less [of "unat seq + ?n"] by simp
  then show ?thesis using assms(2,4) by (simp add: kept_def word_le_nat_alt)
qed

lemma kept_reader [simp]: "kept (c\<lparr>cs_reader := pc\<rparr>) = kept c"
  by (simp add: kept_def pend_def fun_eq_iff)

lemma read_inv:
  assumes "slots_inv c" and "reader_inv c"
  shows "reader_inv (c\<lparr>cs_reader := reader_step (cs_buffer c) (cs_reader c)\<rparr>)" (is "reader_inv ?c")
proof (cases "cs_reader c")
  case (R_start seq)
  have "unat (rb_write_seq (cs_buffer c)) = length (cs_pushed c)"
    using slots_invD(2,3) [OF assms(1)] unat_word_of_nat_less [of "length (cs_pushed c)"] by simp
  then show ?thesis using R_start by (simp add: reader_inv_def)
next
  case (R_loaded seq cur)
  have cur: "unat cur \<le> length (cs_pushed c)" using assms(2) R_loaded by (simp add: reader_inv_def)
  have i: "index_for (cs_buffer c) seq < length (rb_buffer (cs_buffer c))"
    using index_for_less [OF slots_invD(1) [OF assms(1)]] by (simp add: rb_size_def)
  have over: "seq + word_of_nat (length (rb_buffer (cs_buffer c))) \<le> cur \<Longrightarrow> cur < seq \<or> \<not> kept c (unat seq)"
    using overwritten_not_kept [OF assms(1) _ _ cur, of seq] by (auto simp: rb_size_def not_less)
  have mismatch: "rec_sequence_number (rb_buffer (cs_buffer c) ! index_for (cs_buffer c) seq) \<noteq> seq \<Longrightarrow>
      cur < seq \<or> \<not> kept c (unat seq)"
    using kept_slot [OF assms(1) _ cur, of seq] by (auto simp: not_less)
  show ?thesis
    using R_loaded i over mismatch cur
    by (auto simp: reader_inv_def Let_def not_less)
next
  case (R_matched seq cur)
  then show ?thesis
    using assms kept_slot [OF assms(1), of seq cur] by (auto simp: reader_inv_def)
next
  case (R_done seq cur res)
  then show ?thesis using assms(2) by (simp add: reader_inv_def)
next
  case R_fault
  then show ?thesis using assms(2) by (simp add: reader_inv_def)
qed

lemma slots_inv_reader [simp]: "slots_inv (c\<lparr>cs_reader := pc\<rparr>) = slots_inv c"
  by (simp add: slots_inv_def kept_def pend_def slot_def)

lemma writer_inv_reader [simp]: "writer_inv (c\<lparr>cs_reader := pc\<rparr>) = writer_inv c"
  by (simp add: writer_inv_def slot_def split: writer_pc.split)

lemma conc_inv_step:
  assumes "conc_inv c" and "cstep c c'"
  shows "conc_inv c'"
  using assms(2,1)
proof (cases rule: cstep.cases)
  case (write_seq_first r p)
  then show ?thesis
    using write_slot_inv [where c = c and r = r and c' = c' and seq_part = True and pc = "W_half True r"] assms(1) by (simp add: conc_inv_def writer_inv_def)
next
  case (write_pos_first r p)
  then show ?thesis
    using write_slot_inv [where c = c and r = r and c' = c' and seq_part = False and pc = "W_half False r"] assms(1) by (simp add: conc_inv_def writer_inv_def)
next
  case (write_pos_second r)
  then show ?thesis
    using write_slot_inv [where c = c and r = r and c' = c' and seq_part = False and pc = "W_full r"] writer_pending [of c] assms(1)
    by (simp add: conc_inv_def writer_inv_def)
next
  case (write_seq_second r)
  then show ?thesis
    using write_slot_inv [where c = c and r = r and c' = c' and seq_part = True and pc = "W_full r"] writer_pending [of c] assms(1)
    by (simp add: conc_inv_def writer_inv_def)
next
  case (store_write_seq r)
  then show ?thesis using publish_inv assms(1) by simp
next
  case read
  then show ?thesis using read_inv assms(1) by (simp add: conc_inv_def)
next
  case (request seq cur res seq')
  then show ?thesis using assms(1) by (simp add: conc_inv_def reader_inv_def)
qed

lemma conc_inv_init: "cs_init c \<Longrightarrow> conc_inv c"
proof -
  assume c: "cs_init c"
  then obtain n seq where "0 < n" "retransmission_buffer_new n = Inr (cs_buffer c)" "cs_reader c = R_start seq"
    "cs_writer c = W_idle" "cs_pushed c = []" by (auto simp: cs_init_def)
  moreover from this have "rb_rep (cs_buffer c) []" using retransmission_buffer_new_rep [of n] by auto
  ultimately show ?thesis
    using rb_repD(1-3,5) [of "cs_buffer c" "[]"]
    by (simp add: rb_inv_def conc_inv_def slots_inv_def writer_inv_def reader_inv_def pend_def slot_def pushed_at_def empty_record_def)
qed

interpretation ring: invariant_system cs_init cstep conc_inv
  by standard (fact conc_inv_init, fact conc_inv_step)

subsection \<open>A torn read\<close>

text \<open>A ring of two slots. The reader asks for message 1 and finds its number in the slot; before it reads
  the position, the writer pushes messages 2 and 3, and message 3 lands in the slot of message 1.\<close>

definition torn_start :: conc where
  "torn_start = \<lparr>cs_buffer = \<lparr>rb_buffer = [empty_record, empty_record], rb_mask = 1, rb_use_mask = True, rb_write_seq = 0\<rparr>,
     cs_writer = W_idle, cs_reader = R_start 1, cs_pushed = []\<rparr>"

definition torn_record :: "nat \<Rightarrow> message_record" where
  "torn_record s = \<lparr>rec_sequence_number = word_of_nat s, rec_file_position = 100 * s\<rparr>"

definition conc_push :: "conc \<Rightarrow> message_record \<Rightarrow> conc" where
  "conc_push c r = c\<lparr>cs_buffer := publish (write_slot_pos (write_slot_seq (cs_buffer c) r) r) r,
     cs_pushed := cs_pushed c @ [rec_file_position r]\<rparr>"

definition conc_read :: "conc \<Rightarrow> conc" where
  "conc_read c = c\<lparr>cs_reader := reader_step (cs_buffer c) (cs_reader c)\<rparr>"

lemma conc_push_fields [simp]:
  "cs_writer (conc_push c r) = cs_writer c" "cs_pushed (conc_push c r) = cs_pushed c @ [rec_file_position r]"
  "rb_size (cs_buffer (conc_push c r)) = rb_size (cs_buffer c)"
  by (simp_all add: conc_push_def rb_size_def publish_def write_slot_pos_def write_slot_seq_def Let_def)

lemma conc_read_fields [simp]:
  "cs_writer (conc_read c) = cs_writer c" "cs_pushed (conc_read c) = cs_pushed c" "cs_buffer (conc_read c) = cs_buffer c"
  by (simp_all add: conc_read_def)

lemma conc_push_steps:
  assumes "cs_writer c = W_idle"
    and "Suc (length (cs_pushed c)) + rb_size (cs_buffer c) < 2 ^ 64"
    and "rec_sequence_number r = word_of_nat (Suc (length (cs_pushed c)))"
  shows "cstep\<^sup>*\<^sup>* c (conc_push c r)"
proof -
  define c1 where "c1 = c\<lparr>cs_buffer := write_slot_seq (cs_buffer c) r, cs_writer := W_half True r\<rparr>"
  define c2 where "c2 = c1\<lparr>cs_buffer := write_slot_pos (cs_buffer c1) r, cs_writer := W_full r\<rparr>"
  have "cstep c c1" unfolding c1_def
    using cstep.write_seq_first [OF assms(1,2), of r "rec_file_position r"] assms(3) record_eta [of r] by metis
  moreover have "cstep c1 c2" unfolding c2_def by (rule cstep.write_pos_second) (simp add: c1_def)
  moreover have "cstep c2 (c2\<lparr>cs_buffer := publish (cs_buffer c2) r, cs_writer := W_idle,
               cs_pushed := cs_pushed c2 @ [rec_file_position r]\<rparr>)"
    by (rule cstep.store_write_seq) (simp add: c2_def)
  ultimately have "cstep\<^sup>*\<^sup>* c (c2\<lparr>cs_buffer := publish (cs_buffer c2) r, cs_writer := W_idle,
               cs_pushed := cs_pushed c2 @ [rec_file_position r]\<rparr>)"
    by (meson converse_rtranclp_into_rtranclp r_into_rtranclp)
  moreover have "(c2\<lparr>cs_buffer := publish (cs_buffer c2) r, cs_writer := W_idle,
               cs_pushed := cs_pushed c2 @ [rec_file_position r]\<rparr>) = conc_push c r"
    using assms(1) by (simp add: conc_push_def c1_def c2_def)
  ultimately show ?thesis by simp
qed

lemma conc_read_steps: "cstep\<^sup>*\<^sup>* c (conc_read c)"
  unfolding conc_read_def by (rule r_into_rtranclp) (rule cstep.read)

text \<open>Message 1 is pushed and the reader loads the published number; \<open>torn_lap\<close> is what the writer does then.\<close>

definition torn_loaded :: conc where
  "torn_loaded = conc_read (conc_push torn_start (torn_record 1))"

definition torn_lap :: "conc \<Rightarrow> conc" where
  "torn_lap c = conc_push (conc_push c (torn_record 2)) (torn_record 3)"

lemma torn_start_init: "cs_init torn_start"
proof -
  have "unat (2 :: u64) = Suc (Suc 0)" by simp
  then have "retransmission_buffer_new 2 = Inr (cs_buffer torn_start)"
    by (simp only: retransmission_buffer_new_def torn_start_def) (simp add: Let_def)
  moreover have "0 < (2 :: u64)" "cs_reader torn_start = R_start 1" "cs_writer torn_start = W_idle" "cs_pushed torn_start = []"
    by (simp_all add: torn_start_def)
  ultimately show ?thesis unfolding cs_init_def by blast
qed

lemmas torn_eval = torn_start_def torn_record_def torn_loaded_def torn_lap_def conc_push_def conc_read_def write_slot_seq_def
  write_slot_pos_def publish_def index_for_def empty_record_def word_le_nat_alt pend_def rb_size_def slot_def

lemma torn_loaded_reachable: "reachable cs_init cstep torn_loaded"
proof -
  have "cstep\<^sup>*\<^sup>* torn_start (conc_push torn_start (torn_record 1))"
    by (rule conc_push_steps) (simp_all add: torn_start_def torn_record_def rb_size_def)
  then have *: "cstep\<^sup>*\<^sup>* torn_start torn_loaded" unfolding torn_loaded_def using conc_read_steps by (rule rtranclp_trans)
  have "reachable cs_init cstep torn_start" using torn_start_init by (rule reachable.start)
  then show ?thesis using * by (rule reachable_steps)
qed


section \<open>Properties\<close>

text \<open>
  C8. An answer of the lock-free reader is right in every interleaving in which the writer has not begun the
  message that reuses the slot: the position returned is the one pushed under that number. Number 0 is never pushed; as
  long as its slot is unused the reader answers it with position 0, the content of the zero-initialised record. A refusal is
  right as well: the number was not published yet when the reader looked, or nothing was. The index never leaves the ring.
\<close>

theorem ring_reader_right:
  assumes "reachable cs_init cstep c" and "cs_reader c = R_done seq cur res"
    and "length (cs_pushed c) + pend c < unat seq + rb_size (cs_buffer c)"
  shows "case res of
      Some p \<Rightarrow> unat seq \<le> length (cs_pushed c) \<and> p = (if seq = 0 then 0 else cs_pushed c ! (unat seq - 1))
    | None \<Rightarrow> cur < seq \<or> cur = 0"
proof -
  have "reader_inv c" using ring.reachable_inv [OF assms(1)] by (simp add: conc_inv_def)
  then show ?thesis
    using assms(2,3) by (auto simp: reader_inv_def kept_def word_le_nat_alt pushed_at_def unat_eq_0 split: option.splits if_splits)
qed

theorem ring_reader_right_witness:
  "\<exists>c. reachable cs_init cstep c \<and> cs_reader c = R_done 1 1 (Some 100) \<and> 100 = cs_pushed c ! 0"
proof -
  let ?c = "conc_read (conc_read torn_loaded)"
  have "cstep\<^sup>*\<^sup>* torn_loaded ?c" by (rule rtranclp_trans [OF conc_read_steps conc_read_steps])
  with torn_loaded_reachable have reach: "reachable cs_init cstep ?c" by (rule reachable_steps)
  moreover have c: "cs_reader ?c = R_done 1 1 (Some 100)" "length (cs_pushed ?c) + pend ?c < unat (1 :: u64) + rb_size (cs_buffer ?c)"
    by (simp_all add: torn_eval)
  ultimately show ?thesis using ring_reader_right [OF reach c] by (intro exI [of _ ?c]) simp
qed


end
