(* ===== verification/Memory_Order.thy ===== *)
theory Memory_Order
  imports Retransmission_Buffer
begin

text \<open>
  The ring buffer under the C++ memory model (\<open>src/src/mold/retransmission_buffer.cpp\<close>). \<open>push\<close> writes the two
  fields of a slot without synchronisation and then stores \<open>write_seq_\<close> with \<open>memory_order_release\<close>;
  \<open>file_position_for\<close> loads it with \<open>memory_order_acquire\<close> and then reads the fields. \<open>Buffer_Concurrency\<close>
  interleaves these accesses; here there is no interleaving and no single order of all accesses, only what the
  language gives: the accesses of one thread are sequenced, a load that reads the value of a store
  synchronizes with it, and \<open>happens_before\<close> is what follows. Two accesses to a field, one of them the writer's,
  that are not ordered by it are a data race, and the behaviour of a program with a data race is undefined.

  An \<open>execution\<close> is the ring as its constructor left it, the positions that the one writer pushes under the numbers
  1, 2, \<dots>, and for every worker the lookups it makes, each with the values its reads returned.
  \<open>coherent\<close> and \<open>reads_visible\<close> are the rules of the language on those values: a load returns a value that was stored
  and does not go behind a store that happens before it, and a read of a field that is in no race returns
  its visible side effect. The construction of the ring happens before everything, since the threads are
  created after it.

  The lemmas compute \<open>happens_before\<close> between the writer and a worker. The theorems say exactly which executions
  have a data race, and that in the others every lookup, on every host, answers as \<open>file_position_for\<close> does on the
  ring after the pushes up to the published number it loaded.
\<close>

subsection \<open>Executions\<close>

record ring_lookup =
  lk_seq_num :: u64
  lk_current :: u64
  lk_number :: u64
  lk_position :: nat

record execution =
  ex_ring :: retransmission_buffer
  ex_positions :: "nat list"
  ex_lookups :: "nat \<Rightarrow> ring_lookup list"

text \<open>
  The accesses: those of the push under number \<open>k\<close>, and those of the \<open>j\<close>th lookup of worker \<open>t\<close>.
\<close>

datatype access =
    Write_number nat
  | Write_position nat
  | Store_published nat
  | Load_published nat nat
  | Read_number nat nat
  | Read_position nat nat

datatype agent = Writer | Worker nat

fun agent_of :: "access \<Rightarrow> agent" where
  "agent_of (Write_number k) = Writer"
| "agent_of (Write_position k) = Writer"
| "agent_of (Store_published k) = Writer"
| "agent_of (Load_published t j) = Worker t"
| "agent_of (Read_number t j) = Worker t"
| "agent_of (Read_position t j) = Worker t"

fun program_point :: "access \<Rightarrow> nat" where
  "program_point (Write_number k) = 3 * k"
| "program_point (Write_position k) = 3 * k + 1"
| "program_point (Store_published k) = 3 * k + 2"
| "program_point (Load_published t j) = 3 * j"
| "program_point (Read_number t j) = 3 * j + 1"
| "program_point (Read_position t j) = 3 * j + 2"

text \<open>The tests of \<open>file_position_for\<close> on the published number, and its result.\<close>

definition lookup_refused :: "retransmission_buffer \<Rightarrow> ring_lookup \<Rightarrow> bool" where
  "lookup_refused rb l =
     (let overwritten = (lk_seq_num l + word_of_nat (length (rb_buffer rb)) \<le> lk_current l);
          not_yet_sent = (lk_seq_num l > lk_current l);
          buffer_empty = (lk_current l = 0)
      in overwritten \<or> not_yet_sent \<or> buffer_empty)"

definition lookup_result :: "retransmission_buffer \<Rightarrow> ring_lookup \<Rightarrow> nat option" where
  "lookup_result rb l =
     (if lookup_refused rb l then None
      else if lk_number l \<noteq> lk_seq_num l then None
      else Some (lk_position l))"

text \<open>Which accesses an execution has: a lookup that is refused reads no field, and the position only after the number.\<close>

fun occurs :: "execution \<Rightarrow> access \<Rightarrow> bool" where
  "occurs ex (Write_number k) \<longleftrightarrow> 1 \<le> k \<and> k \<le> length (ex_positions ex)"
| "occurs ex (Write_position k) \<longleftrightarrow> 1 \<le> k \<and> k \<le> length (ex_positions ex)"
| "occurs ex (Store_published k) \<longleftrightarrow> 1 \<le> k \<and> k \<le> length (ex_positions ex)"
| "occurs ex (Load_published t j) \<longleftrightarrow> j < length (ex_lookups ex t)"
| "occurs ex (Read_number t j) \<longleftrightarrow>
     j < length (ex_lookups ex t) \<and> \<not> lookup_refused (ex_ring ex) (ex_lookups ex t ! j)"
| "occurs ex (Read_position t j) \<longleftrightarrow>
     j < length (ex_lookups ex t) \<and> \<not> lookup_refused (ex_ring ex) (ex_lookups ex t ! j) \<and>
     lk_number (ex_lookups ex t ! j) = lk_seq_num (ex_lookups ex t ! j)"

text \<open>The field of a slot that an access touches; the published number is atomic and none of them.\<close>

datatype slot_field = Sequence_number nat | File_position nat

fun field_of :: "execution \<Rightarrow> access \<Rightarrow> slot_field option" where
  "field_of ex (Write_number k) = Some (Sequence_number (index_for (ex_ring ex) (word_of_nat k)))"
| "field_of ex (Write_position k) = Some (File_position (index_for (ex_ring ex) (word_of_nat k)))"
| "field_of ex (Read_number t j) = Some (Sequence_number (index_for (ex_ring ex) (lk_seq_num (ex_lookups ex t ! j))))"
| "field_of ex (Read_position t j) = Some (File_position (index_for (ex_ring ex) (lk_seq_num (ex_lookups ex t ! j))))"
| "field_of ex _ = None"

subsection \<open>The rules of the language\<close>

definition sequenced_before :: "access \<Rightarrow> access \<Rightarrow> bool" where
  "sequenced_before a c \<longleftrightarrow> agent_of a = agent_of c \<and> program_point a < program_point c"

inductive happens_before :: "execution \<Rightarrow> access \<Rightarrow> access \<Rightarrow> bool" for ex where
  sequenced: "occurs ex a \<Longrightarrow> occurs ex c \<Longrightarrow> sequenced_before a c \<Longrightarrow> happens_before ex a c"
| synchronized: "occurs ex (Store_published k) \<Longrightarrow> occurs ex (Load_published t j) \<Longrightarrow>
    lk_current (ex_lookups ex t ! j) = word_of_nat k \<Longrightarrow> happens_before ex (Store_published k) (Load_published t j)"
| transitive: "happens_before ex a c \<Longrightarrow> happens_before ex c d \<Longrightarrow> happens_before ex a d"

definition data_race :: "execution \<Rightarrow> access \<Rightarrow> access \<Rightarrow> bool" where
  "data_race ex a c \<longleftrightarrow> occurs ex a \<and> occurs ex c \<and> agent_of a \<noteq> agent_of c \<and>
     field_of ex a = field_of ex c \<and> field_of ex a \<noteq> None \<and> (agent_of a = Writer \<or> agent_of c = Writer) \<and>
     \<not> happens_before ex a c \<and> \<not> happens_before ex c a"

definition race_free :: "execution \<Rightarrow> bool" where
  "race_free ex \<longleftrightarrow> (\<forall>a c. \<not> data_race ex a c)"

text \<open>The push whose write to its field a read sees; 0 stands for the initial value.\<close>

fun writes_of :: "access \<Rightarrow> nat \<Rightarrow> access" where
  "writes_of (Read_position t j) k = Write_position k"
| "writes_of _ k = Write_number k"

definition precedes :: "execution \<Rightarrow> nat \<Rightarrow> access \<Rightarrow> bool" where
  "precedes ex k r \<longleftrightarrow> occurs ex (writes_of r k) \<and> field_of ex (writes_of r k) = field_of ex r \<and>
     happens_before ex (writes_of r k) r"

definition visible :: "execution \<Rightarrow> nat \<Rightarrow> access \<Rightarrow> bool" where
  "visible ex k r \<longleftrightarrow>
     (if k = 0 then \<forall>k'. \<not> precedes ex k' r
      else precedes ex k r \<and> (\<forall>k'. precedes ex k' r \<longrightarrow> \<not> happens_before ex (writes_of r k) (writes_of r k')))"

text \<open>What a push writes to the fields; push 0 is the constructor.\<close>

definition written_record :: "execution \<Rightarrow> nat \<Rightarrow> message_record" where
  "written_record ex k =
     (if k = 0 then empty_record
      else \<lparr>rec_sequence_number = word_of_nat k, rec_file_position = ex_positions ex ! (k - 1)\<rparr>)"

definition coherent :: "execution \<Rightarrow> bool" where
  "coherent ex \<longleftrightarrow>
     (\<forall>t j. occurs ex (Load_published t j) \<longrightarrow>
        unat (lk_current (ex_lookups ex t ! j)) \<le> length (ex_positions ex) \<and>
        (\<forall>k. happens_before ex (Store_published k) (Load_published t j) \<longrightarrow> k \<le> unat (lk_current (ex_lookups ex t ! j))))"

definition reads_visible :: "execution \<Rightarrow> bool" where
  "reads_visible ex \<longleftrightarrow>
     (\<forall>t j. occurs ex (Read_number t j) \<and> (\<forall>a. \<not> data_race ex a (Read_number t j)) \<longrightarrow>
        (\<exists>k. visible ex k (Read_number t j) \<and>
             lk_number (ex_lookups ex t ! j) = rec_sequence_number (written_record ex k))) \<and>
     (\<forall>t j. occurs ex (Read_position t j) \<and> (\<forall>a. \<not> data_race ex a (Read_position t j)) \<longrightarrow>
        (\<exists>k. visible ex k (Read_position t j) \<and>
             lk_position (ex_lookups ex t ! j) = rec_file_position (written_record ex k)))"

text \<open>The executions of the program: the ring is what the constructor gives, and the numbers do not wrap.\<close>

definition ring_loads :: "u64 \<Rightarrow> execution \<Rightarrow> bool" where
  "ring_loads n ex \<longleftrightarrow> retransmission_buffer_new n = Inr (ex_ring ex) \<and>
     length (ex_positions ex) + unat n < 2 ^ 64 \<and> coherent ex"

definition ring_execution :: "u64 \<Rightarrow> execution \<Rightarrow> bool" where
  "ring_execution n ex \<longleftrightarrow> ring_loads n ex \<and> reads_visible ex"

subsection \<open>What happens before what\<close>

text \<open>
  Nothing a worker does happens before anything the writer or another worker does, and a write happens
  before a worker's access exactly through a published number loaded in between.
\<close>

definition published_to :: "execution \<Rightarrow> access \<Rightarrow> access \<Rightarrow> bool" where
  "published_to ex a c \<longleftrightarrow> agent_of a = Writer \<and>
     (\<exists>t j k. agent_of c = Worker t \<and> occurs ex (Store_published k) \<and> occurs ex (Load_published t j) \<and>
        lk_current (ex_lookups ex t ! j) = word_of_nat k \<and> program_point a \<le> 3 * k + 2 \<and> 3 * j \<le> program_point c)"

lemma published_to_mono:
  "sequenced_before a c \<Longrightarrow> published_to ex c d \<Longrightarrow> published_to ex a d"
  "published_to ex a c \<Longrightarrow> sequenced_before c d \<Longrightarrow> published_to ex a d"
  unfolding published_to_def sequenced_before_def
  by (elim conjE exE, intro conjI exI, (assumption | simp)+)+

lemma happens_before_cases:
  assumes "happens_before ex a c"
  shows "sequenced_before a c \<or> published_to ex a c"
  using assms
proof (induction rule: happens_before.induct)
  case (synchronized k t j)
  then show ?case by (auto simp: published_to_def)
next
  case (transitive a c d)
  moreover have "\<not> (published_to ex a c \<and> published_to ex c d)" by (auto simp: published_to_def)
  ultimately show ?case by (auto intro: published_to_mono simp: sequenced_before_def)
qed simp

lemma worker_not_before_writer: "happens_before ex a c \<Longrightarrow> agent_of a = Worker t \<Longrightarrow> agent_of c = Writer \<Longrightarrow> False"
  using happens_before_cases [of ex a c] by (auto simp: sequenced_before_def published_to_def)

lemma writes_ordered: "occurs ex (writes_of r k) \<Longrightarrow> occurs ex (writes_of r k') \<Longrightarrow> k < k' \<Longrightarrow>
    happens_before ex (writes_of r k) (writes_of r k')"
  by (cases r) (auto intro!: happens_before.sequenced simp: sequenced_before_def)

text \<open>The reads of fields, of either field.\<close>

definition field_read :: "access \<Rightarrow> nat \<Rightarrow> nat \<Rightarrow> bool" where
  "field_read r t j \<longleftrightarrow> r = Read_number t j \<or> r = Read_position t j"

lemma writes_of_read:
  assumes "field_read r t j"
  shows "agent_of (writes_of r k) = Writer" and "program_point (writes_of r k) < 3 * k + 2"
    and "occurs ex (writes_of r k) \<longleftrightarrow> 1 \<le> k \<and> k \<le> length (ex_positions ex)"
    and "field_of ex (writes_of r k) = field_of ex r \<longleftrightarrow>
      index_for (ex_ring ex) (word_of_nat k) = index_for (ex_ring ex) (lk_seq_num (ex_lookups ex t ! j))"
    and "3 * k \<le> program_point (writes_of r k)"
  using assms by (auto simp: field_read_def)

lemma field_readD:
  assumes "field_read r t j"
  shows "agent_of r = Worker t" and "3 * j < program_point r" and "program_point r < 3 * Suc j" and "field_of ex r \<noteq> None"
  using assms by (auto simp: field_read_def)

lemma ring_loadsD:
  assumes "ring_loads n ex"
  shows "rb_inv (ex_ring ex)" and "rb_size (ex_ring ex) = unat n" and "0 < unat n"
    and "length (ex_positions ex) + unat n < 2 ^ 64" and "coherent ex"
    and "index_for (ex_ring ex) s = unat s mod unat n" and "length (rb_buffer (ex_ring ex)) = unat n"
proof -
  have n: "0 < n" using assms by (cases "n = 0") (simp_all add: ring_loads_def retransmission_buffer_new_def Let_def word_neq_0_conv)
  obtain rb where rb: "retransmission_buffer_new n = Inr rb" "rb_rep rb []" "rb_size rb = unat n"
    using retransmission_buffer_new_rep [OF n] .
  then have rb': "ex_ring ex = rb" using assms by (simp add: ring_loads_def)
  show "rb_inv (ex_ring ex)" "rb_size (ex_ring ex) = unat n" "0 < unat n" "length (rb_buffer (ex_ring ex)) = unat n"
    using rb rb' n by (auto simp: rb_rep_def unat_gt_0 word_neq_0_conv rb_size_def)
  then show "index_for (ex_ring ex) s = unat s mod unat n" using index_for_mod by simp
  show "length (ex_positions ex) + unat n < 2 ^ 64" "coherent ex" using assms by (simp_all add: ring_loads_def)
qed

text \<open>The loads of one worker never go back, and a published number is one of the pushes.\<close>

lemma coherent_load:
  assumes "ring_loads n ex" and "occurs ex (Load_published t j)"
  shows "unat (lk_current (ex_lookups ex t ! j)) \<le> length (ex_positions ex)"
    and "happens_before ex (Store_published k) (Load_published t j) \<Longrightarrow> k \<le> unat (lk_current (ex_lookups ex t ! j))"
  using ring_loadsD(5) [OF assms(1)] assms(2) unfolding coherent_def by blast+

lemma loads_monotone:
  assumes "ring_loads n ex" and "j \<le> j'" and "j' < length (ex_lookups ex t)"
  shows "unat (lk_current (ex_lookups ex t ! j)) \<le> unat (lk_current (ex_lookups ex t ! j'))"
proof (cases "j = j' \<or> lk_current (ex_lookups ex t ! j) = 0")
  case False
  let ?k = "unat (lk_current (ex_lookups ex t ! j))"
  have occ: "occurs ex (Load_published t j)" "occurs ex (Load_published t j')" using assms(2,3) by simp_all
  have "occurs ex (Store_published ?k)"
    using coherent_load(1) [OF assms(1) occ(1)] False by (simp add: Suc_le_eq unat_gt_0)
  then have "happens_before ex (Store_published ?k) (Load_published t j)"
    using occ(1) by (intro happens_before.synchronized) simp_all
  moreover have "happens_before ex (Load_published t j) (Load_published t j')"
    using occ False assms(2) by (intro happens_before.sequenced) (simp_all add: sequenced_before_def)
  ultimately show ?thesis using coherent_load(2) [OF assms(1) occ(2)] happens_before.transitive by blast
qed auto

text \<open>The tests on the published number do not wrap, so a lookup that reads its slot asks for a number in the window.\<close>

lemma lookup_refused_iff:
  assumes "ring_loads n ex" and "occurs ex (Load_published t j)"
  shows "lookup_refused (ex_ring ex) (ex_lookups ex t ! j) \<longleftrightarrow>
    (let s = unat (lk_seq_num (ex_lookups ex t ! j)); c = unat (lk_current (ex_lookups ex t ! j))
     in s + unat n \<le> c \<or> c < s \<or> c = 0)"
proof -
  note ring = ring_loadsD [OF assms(1)]
  let ?l = "ex_lookups ex t ! j"
  have "unat (lk_seq_num ?l + n) = unat (lk_seq_num ?l) + unat n" if "lk_seq_num ?l \<le> lk_current ?l"
    using that coherent_load(1) [OF assms] ring(4) by (simp add: unat_word_ariths word_le_nat_alt)
  then show ?thesis
    by (cases "lk_seq_num ?l \<le> lk_current ?l")
      (auto simp: lookup_refused_def Let_def ring(7) word_le_nat_alt word_less_nat_alt unat_eq_0)
qed

lemma lookup_in_window:
  assumes "ring_loads n ex" and "occurs ex (Read_number t j)"
  shows "1 \<le> unat (lk_current (ex_lookups ex t ! j))"
    and "unat (lk_seq_num (ex_lookups ex t ! j)) \<le> unat (lk_current (ex_lookups ex t ! j))"
    and "unat (lk_current (ex_lookups ex t ! j)) < unat (lk_seq_num (ex_lookups ex t ! j)) + unat n"
    and "unat (lk_current (ex_lookups ex t ! j)) \<le> length (ex_positions ex)"
  using lookup_refused_iff [OF assms(1), of t j] coherent_load(1) [OF assms(1), of t j] assms(2) by (auto simp: Let_def)

lemma read_occurs: "field_read r t j \<Longrightarrow> occurs ex r \<Longrightarrow> occurs ex (Read_number t j) \<and> occurs ex (Load_published t j)"
  by (auto simp: field_read_def)

text \<open>So a write happens before the read of a field exactly when its push was published by the number loaded.\<close>

lemma write_before_read:
  assumes "ring_loads n ex" and "field_read r t j" and "occurs ex r" and "occurs ex (writes_of r k)"
  shows "happens_before ex (writes_of r k) r \<longleftrightarrow> k \<le> unat (lk_current (ex_lookups ex t ! j))"
proof
  note occ = read_occurs [OF assms(2,3)]
  assume "happens_before ex (writes_of r k) r"
  then have "published_to ex (writes_of r k) r"
    using happens_before_cases writes_of_read(1) [OF assms(2)] field_readD(1) [OF assms(2)] by (metis agent.distinct(1) sequenced_before_def)
  then obtain j' k' where k': "occurs ex (Store_published k')" "occurs ex (Load_published t j')"
    "lk_current (ex_lookups ex t ! j') = word_of_nat k'" "program_point (writes_of r k) \<le> 3 * k' + 2" "3 * j' \<le> program_point r"
    using field_readD(1) [OF assms(2)] by (auto simp: published_to_def)
  have "unat (lk_current (ex_lookups ex t ! j')) = k'"
    using k'(1,3) ring_loadsD(4) [OF assms(1)] by (simp add: unat_word_of_nat_less)
  moreover have "j' \<le> j" using k'(5) field_readD(3) [OF assms(2)] by simp
  ultimately have "k' \<le> unat (lk_current (ex_lookups ex t ! j))"
    using loads_monotone [OF assms(1)] occ by (metis occurs.simps(4))
  moreover have "k \<le> k'" using k'(4) writes_of_read(5) [OF assms(2), of k] by simp
  ultimately show "k \<le> unat (lk_current (ex_lookups ex t ! j))" by simp
next
  let ?k = "unat (lk_current (ex_lookups ex t ! j))"
  note occ = read_occurs [OF assms(2,3)]
  assume k: "k \<le> ?k"
  have store: "occurs ex (Store_published ?k)" using lookup_in_window(1,4) [OF assms(1)] occ by simp
  have "happens_before ex (writes_of r k) (Store_published ?k)"
    using assms(4) store writes_of_read(1,2) [OF assms(2), of k] k
    by (intro happens_before.sequenced) (simp_all add: sequenced_before_def)
  moreover have "happens_before ex (Store_published ?k) (Load_published t j)"
    using store occ by (intro happens_before.synchronized) simp_all
  moreover have "happens_before ex (Load_published t j) r"
    using occ assms(3) field_readD(1,2) [OF assms(2)] by (intro happens_before.sequenced) (simp_all add: sequenced_before_def)
  ultimately show "happens_before ex (writes_of r k) r" by (meson happens_before.transitive)
qed

subsection \<open>Data races\<close>

lemma data_race_sym: "data_race ex a c \<Longrightarrow> data_race ex c a"
  unfolding data_race_def by (elim conjE) (intro conjI; simp; blast?)

text \<open>A race is between a read of a field and a push to the same slot that the lookup has not been told of.\<close>

lemma data_race_read:
  assumes "ring_loads n ex" and "field_read r t j" and "occurs ex r"
  shows "data_race ex a r \<longleftrightarrow> (\<exists>k. a = writes_of r k \<and> unat (lk_current (ex_lookups ex t ! j)) < k \<and>
    k \<le> length (ex_positions ex) \<and> k mod unat n = unat (lk_seq_num (ex_lookups ex t ! j)) mod unat n)"
proof -
  note ring = ring_loadsD [OF assms(1)]
  note w = writes_of_read [OF assms(2)]
  have later: "\<not> happens_before ex r c" if "agent_of c = Writer" for c
    using worker_not_before_writer field_readD(1) [OF assms(2)] that by blast
  have "\<exists>k. a = writes_of r k" if "field_of ex a = field_of ex r" "agent_of a = Writer"
    using that assms(2) by (cases a) (auto simp: field_read_def)
  moreover have "agent_of a = Writer" if "data_race ex a r"
    using that field_readD(1) [OF assms(2)] by (auto simp: data_race_def)
  ultimately have "data_race ex a r \<longleftrightarrow> (\<exists>k. a = writes_of r k \<and> data_race ex (writes_of r k) r)"
    by (metis data_race_def)
  also have "\<dots> \<longleftrightarrow> (\<exists>k. a = writes_of r k \<and> occurs ex (writes_of r k) \<and> field_of ex (writes_of r k) = field_of ex r \<and>
      \<not> happens_before ex (writes_of r k) r)"
    using assms(3) w(1) later field_readD(1,4) [OF assms(2)] by (auto simp: data_race_def)
  also have "\<dots> \<longleftrightarrow> (\<exists>k. a = writes_of r k \<and> occurs ex (writes_of r k) \<and> field_of ex (writes_of r k) = field_of ex r \<and>
      unat (lk_current (ex_lookups ex t ! j)) < k)"
    by (intro iff_exI conj_cong refl) (simp add: write_before_read [OF assms] not_le)
  also have "\<dots> \<longleftrightarrow> (\<exists>k. a = writes_of r k \<and> unat (lk_current (ex_lookups ex t ! j)) < k \<and>
    k \<le> length (ex_positions ex) \<and> k mod unat n = unat (lk_seq_num (ex_lookups ex t ! j)) mod unat n)"
    unfolding w(3,4) ring(6) using ring(4) by (intro iff_exI) (auto simp: unat_word_of_nat_less)
  finally show ?thesis .
qed

lemma window_next:
  fixes s c n k :: nat
  assumes "s \<le> c" and "c < s + n" and "c < k" and "k mod n = s mod n"
  shows "s + n \<le> k"
proof (rule ccontr)
  assume "\<not> s + n \<le> k"
  then have "s \<le> k - 1" "0 < k" "k < s + n" using assms by simp_all
  then show False using window_distinct_slots [of s "k - 1" n] assms(4) by simp
qed

lemma read_races:
  assumes "ring_loads n ex" and "field_read r t j" and "occurs ex r"
  shows "(\<exists>a. data_race ex a r) \<longleftrightarrow> unat (lk_seq_num (ex_lookups ex t ! j)) + unat n \<le> length (ex_positions ex)"
proof -
  let ?s = "unat (lk_seq_num (ex_lookups ex t ! j))" and ?c = "unat (lk_current (ex_lookups ex t ! j))"
  note win = lookup_in_window [OF assms(1)]
  have "Read_number t j \<in> {r. occurs ex r}" using read_occurs [OF assms(2,3)] by simp
  then have win: "?s \<le> ?c" "?c < ?s + unat n" using win by simp_all
  show ?thesis
  proof
    assume "\<exists>a. data_race ex a r"
    then obtain k where "?c < k" "k \<le> length (ex_positions ex)" "k mod unat n = ?s mod unat n"
      using data_race_read [OF assms] by blast
    then show "?s + unat n \<le> length (ex_positions ex)" using window_next [OF win, of k] by simp
  next
    assume "?s + unat n \<le> length (ex_positions ex)"
    then show "\<exists>a. data_race ex a r"
      using data_race_read [OF assms, of "writes_of r (?s + unat n)"] win by auto
  qed
qed

lemma data_race_has_read:
  assumes "data_race ex a c"
  obtains r t j where "field_read r t j" and "occurs ex r" and "\<exists>a. data_race ex a r"
proof -
  have "\<exists>t j. field_read x t j" if "agent_of x \<noteq> Writer" "field_of ex x \<noteq> None" for x
    using that by (cases x) (auto simp: field_read_def)
  moreover have "agent_of a \<noteq> Writer \<or> agent_of c \<noteq> Writer" using assms by (auto simp: data_race_def)
  ultimately show ?thesis
    using that assms data_race_sym [OF assms] unfolding data_race_def by metis
qed

lemma race_free_iff:
  assumes "ring_loads n ex"
  shows "race_free ex \<longleftrightarrow> (\<forall>t. \<forall>l \<in> set (ex_lookups ex t). lookup_refused (ex_ring ex) l \<or>
    length (ex_positions ex) < unat (lk_seq_num l) + unat n)"
proof -
  have "race_free ex \<longleftrightarrow> (\<forall>r t j. field_read r t j \<and> occurs ex r \<longrightarrow> \<not> (\<exists>a. data_race ex a r))"
    unfolding race_free_def by (metis data_race_has_read)
  also have "\<dots> \<longleftrightarrow> (\<forall>r t j. field_read r t j \<and> occurs ex r \<longrightarrow>
      length (ex_positions ex) < unat (lk_seq_num (ex_lookups ex t ! j)) + unat n)"
    using read_races [OF assms] by (meson not_less)
  also have "\<dots> \<longleftrightarrow> (\<forall>t j. occurs ex (Read_number t j) \<longrightarrow>
      length (ex_positions ex) < unat (lk_seq_num (ex_lookups ex t ! j)) + unat n)"
    using read_occurs unfolding field_read_def by metis
  finally show ?thesis by (auto simp: all_set_conv_all_nth)
qed

subsection \<open>What a read sees\<close>

lemma precedes_iff:
  assumes "ring_loads n ex" and "field_read r t j" and "occurs ex r"
  shows "precedes ex k r \<longleftrightarrow> 1 \<le> k \<and> k \<le> unat (lk_current (ex_lookups ex t ! j)) \<and>
    k mod unat n = unat (lk_seq_num (ex_lookups ex t ! j)) mod unat n"
proof -
  note ring = ring_loadsD [OF assms(1)]
  note w = writes_of_read [OF assms(2)]
  have cur: "unat (lk_current (ex_lookups ex t ! j)) \<le> length (ex_positions ex)"
    using lookup_in_window(4) [OF assms(1)] read_occurs [OF assms(2,3)] by blast
  have "precedes ex k r \<longleftrightarrow> occurs ex (writes_of r k) \<and> field_of ex (writes_of r k) = field_of ex r \<and>
      k \<le> unat (lk_current (ex_lookups ex t ! j))"
    unfolding precedes_def using write_before_read [OF assms] by blast
  then show ?thesis unfolding w(3,4) ring(6) using ring(4) cur by (auto simp: unat_word_of_nat_less)
qed

text \<open>The visible side effect is that of the push asked for; for number 0 it is the constructor's.\<close>

lemma visible_iff:
  assumes "ring_loads n ex" and "field_read r t j" and "occurs ex r"
  shows "visible ex k r \<longleftrightarrow> k = unat (lk_seq_num (ex_lookups ex t ! j))"
proof -
  let ?s = "unat (lk_seq_num (ex_lookups ex t ! j))" and ?c = "unat (lk_current (ex_lookups ex t ! j))"
  note pre = precedes_iff [OF assms]
  have win: "?s \<le> ?c" "?c < ?s + unat n" "?c \<le> length (ex_positions ex)"
    using lookup_in_window [OF assms(1)] read_occurs [OF assms(2,3)] by blast+
  have last: "k' \<le> ?s" if "precedes ex k' r" for k'
    using window_next [of ?s ?s "unat n" k'] that pre [of k'] win by (cases "?s < k'") simp_all
  have ord: "happens_before ex (writes_of r k) (writes_of r ?s)" if "precedes ex k r" "k < ?s"
    using that pre [of k] win writes_of_read(3) [OF assms(2)] by (intro writes_ordered) simp_all
  have forward: "\<not> happens_before ex (writes_of r k) (writes_of r k')" if "k' \<le> k" for k k'
    using happens_before_cases [of ex "writes_of r k" "writes_of r k'"] that assms(2)
    by (auto simp: published_to_def sequenced_before_def field_read_def)
  show ?thesis
  proof (cases "?s = 0")
    case True
    then show ?thesis using last pre unfolding visible_def by (metis le_zero_eq not_one_le_zero)
  next
    case False
    then have "precedes ex ?s r" using pre [of ?s] win by simp
    then show ?thesis using False last ord forward unfolding visible_def by (metis le_neq_implies_less)
  qed
qed

lemma ring_executionD:
  assumes "ring_execution n ex"
  shows "ring_loads n ex" and "reads_visible ex"
  using assms by (simp_all add: ring_execution_def)

lemma race_free_read:
  assumes "ring_execution n ex" and "race_free ex" and "occurs ex (Read_number t j)"
  defines "l \<equiv> ex_lookups ex t ! j"
  shows "lookup_result (ex_ring ex) l = Some (rec_file_position (written_record ex (unat (lk_seq_num l))))"
proof -
  note loads = ring_executionD(1) [OF assms(1)] and c = ring_executionD(2) [OF assms(1)]
  have r: "field_read (Read_number t j) t j" "field_read (Read_position t j) t j" by (simp_all add: field_read_def)
  have "lk_number l = rec_sequence_number (written_record ex (unat (lk_seq_num l)))"
    using c assms(2,3) visible_iff [OF loads r(1)] unfolding reads_visible_def race_free_def l_def by metis
  then have num: "lk_number l = lk_seq_num l" by (simp add: written_record_def empty_record_def unat_eq_0)
  then have "occurs ex (Read_position t j)" using assms(3) by (simp add: l_def)
  then have "lk_position l = rec_file_position (written_record ex (unat (lk_seq_num l)))"
    using c assms(2) visible_iff [OF loads r(2)] unfolding reads_visible_def race_free_def l_def by metis
  then show ?thesis using num assms(3) by (simp add: lookup_result_def l_def)
qed

lemma race_free_lookup:
  assumes "ring_execution n ex" and "race_free ex" and "l \<in> set (ex_lookups ex t)"
  obtains rb where "push_all (ex_ring ex) 0 (take (unat (lk_current l)) (ex_positions ex)) = Inr rb"
    and "file_position_for rb (lk_seq_num l) = Inr (lookup_result (ex_ring ex) l)"
    and "unat (lk_current l) \<le> length (ex_positions ex)"
proof -
  note loads = ring_executionD(1) [OF assms(1)]
  note ring = ring_loadsD [OF loads]
  obtain j where j: "j < length (ex_lookups ex t)" "l = ex_lookups ex t ! j"
    using assms(3) by (metis in_set_conv_nth)
  then have occ: "occurs ex (Load_published t j)" by simp
  let ?c = "unat (lk_current l)" and ?s = "unat (lk_seq_num l)"
  have c: "?c \<le> length (ex_positions ex)" using coherent_load(1) [OF loads occ] j by simp
  have "0 < n" "length (take ?c (ex_positions ex)) + unat n < 2 ^ 64"
    using ring(3,4) c by (simp_all add: unat_gt_0 word_neq_0_conv)
  then obtain rb where rb: "push_all (ex_ring ex) 0 (take ?c (ex_positions ex)) = Inr rb"
    "rb_rep rb (take ?c (ex_positions ex))" "rb_size rb = unat n"
    using new_push_all [of n "take ?c (ex_positions ex)"] loads unfolding ring_loads_def by (metis Inr_inject)
  have refused: "lookup_refused (ex_ring ex) l \<longleftrightarrow> ?s + unat n \<le> ?c \<or> ?c < ?s \<or> ?c = 0"
    using lookup_refused_iff [OF loads occ] j by (simp add: Let_def)
  have "lookup_result (ex_ring ex) l = (if ?s + unat n \<le> ?c \<or> ?c < ?s \<or> ?c = 0 then None
      else Some (rec_file_position (written_record ex ?s)))"
    using race_free_read [OF assms(1,2), of t j] j refused by (auto simp: lookup_result_def)
  moreover have "take ?c (ex_positions ex) ! (?s - 1) = ex_positions ex ! (?s - 1)" if "?s \<le> ?c" "lk_seq_num l \<noteq> 0"
  proof -
    have "0 < ?s" using that(2) by (simp add: unat_gt_0)
    then show ?thesis using that(1) by simp
  qed
  then have "file_position_for rb (lk_seq_num l) = Inr (if ?s + unat n \<le> ?c \<or> ?c < ?s \<or> ?c = 0 then None
      else Some (rec_file_position (written_record ex ?s)))"
    using c by (auto simp: file_position_for_rep [OF rb(2)] rb(3) window_lookup_def written_record_def empty_record_def
        unat_eq_0 Suc_le_eq unat_gt_0)
  ultimately show ?thesis using that rb(1) c by simp
qed

section \<open>Properties\<close>

text \<open>
  C9. The executions of the ring that have a data race, whatever the number of workers: those in which a lookup reads its slot
  although the writer reuses that slot at any time of the run, later or not, since nothing tells the
  writer that the read is over.
\<close>

theorem ring_race_free_iff:
  assumes "ring_execution n ex"
  shows "race_free ex \<longleftrightarrow> (\<forall>t. \<forall>l \<in> set (ex_lookups ex t). lookup_refused (ex_ring ex) l \<or>
    length (ex_positions ex) < unat (lk_seq_num l) + unat n)"
  by (rule race_free_iff [OF ring_executionD(1) [OF assms]])

text \<open>
  C10. In an execution without a data race every lookup is atomic, on every host: it answers as
  \<open>file_position_for\<close> does on the ring after the pushes up to the published number that it loaded, and the numbers
  that one worker loads never go back.
\<close>

theorem ring_lookups_atomic:
  assumes "ring_execution n ex" and "race_free ex"
  shows "(\<forall>t. \<forall>l \<in> set (ex_lookups ex t). unat (lk_current l) \<le> length (ex_positions ex) \<and>
      (\<exists>rb. push_all (ex_ring ex) 0 (take (unat (lk_current l)) (ex_positions ex)) = Inr rb \<and>
         file_position_for rb (lk_seq_num l) = Inr (lookup_result (ex_ring ex) l))) \<and>
    (\<forall>t. sorted (map (unat \<circ> lk_current) (ex_lookups ex t)))"
proof (intro conjI allI ballI)
  fix t l assume "l \<in> set (ex_lookups ex t)"
  then obtain rb where "push_all (ex_ring ex) 0 (take (unat (lk_current l)) (ex_positions ex)) = Inr rb"
    "file_position_for rb (lk_seq_num l) = Inr (lookup_result (ex_ring ex) l)" "unat (lk_current l) \<le> length (ex_positions ex)"
    using race_free_lookup [OF assms] by metis
  then show "unat (lk_current l) \<le> length (ex_positions ex)"
    "\<exists>rb. push_all (ex_ring ex) 0 (take (unat (lk_current l)) (ex_positions ex)) = Inr rb \<and>
      file_position_for rb (lk_seq_num l) = Inr (lookup_result (ex_ring ex) l)" by blast+
next
  fix t show "sorted (map (unat \<circ> lk_current) (ex_lookups ex t))"
    using loads_monotone [OF ring_executionD(1) [OF assms(1)]] by (auto simp: sorted_iff_nth_mono)
qed

text \<open>
  A ring of one slot and a session of two messages: the worker looks number 1 up after the first push and gets the right
  answer, but the second push, whenever it comes, races with its reads.
\<close>

definition litmus :: "ring_lookup list \<Rightarrow> nat list \<Rightarrow> execution" where
  "litmus ls ps = \<lparr>ex_ring = \<lparr>rb_buffer = [empty_record], rb_mask = 0, rb_use_mask = True, rb_write_seq = 0\<rparr>,
     ex_positions = ps, ex_lookups = (\<lambda>t. if t = 0 then ls else [])\<rparr>"

definition litmus_lookup :: ring_lookup where
  "litmus_lookup = \<lparr>lk_seq_num = 1, lk_current = 1, lk_number = 1, lk_position = 100\<rparr>"

lemma litmus_fields:
  "ex_lookups (litmus ls ps) t = (if t = 0 then ls else [])" "ex_positions (litmus ls ps) = ps"
  "lk_seq_num litmus_lookup = 1" "lk_current litmus_lookup = 1" "lk_number litmus_lookup = 1" "lk_position litmus_lookup = 100"
  "lookup_refused (ex_ring (litmus ls ps)) litmus_lookup = False"
  by (simp_all add: litmus_def litmus_lookup_def lookup_refused_def Let_def word_le_nat_alt)

lemma litmus_loads:
  assumes "length ps < 100" and "ps \<noteq> []"
  shows "ring_loads 1 (litmus [litmus_lookup] ps)"
proof -
  let ?ex = "litmus [litmus_lookup] ps"
  have "k \<le> 1" if "happens_before ?ex (Store_published k) (Load_published 0 0)" for k
  proof -
    have "published_to ?ex (Store_published k) (Load_published 0 0)"
      using happens_before_cases [OF that] by (simp add: sequenced_before_def)
    then obtain k' where k': "k \<le> k'" "k' \<le> length ps" "(1 :: u64) = word_of_nat k'"
      by (auto simp: published_to_def litmus_fields)
    have "unat (word_of_nat k' :: u64) = k'" using k'(2) assms(1) by (intro unat_word_of_nat_less) simp
    then show ?thesis using k'(1) unfolding k'(3) [symmetric] by simp
  qed
  then have "coherent ?ex"
    using assms by (auto simp: coherent_def litmus_fields Suc_le_eq split: if_splits)
  then show ?thesis
    using assms(1) by (simp add: ring_loads_def litmus_def retransmission_buffer_new_def Let_def)
qed

lemma litmus_execution:
  assumes "length ps < 99"
  shows "ring_execution 1 (litmus [litmus_lookup] (100 # ps))"
proof -
  let ?ex = "litmus [litmus_lookup] (100 # ps)"
  have loads: "ring_loads 1 ?ex" using assms by (intro litmus_loads) simp_all
  have l: "ex_lookups ?ex t ! j = litmus_lookup" if "j < length (ex_lookups ?ex t)" for t j
    using that by (auto simp: litmus_fields split: if_splits)
  have vis: "visible ?ex 1 r" "ex_lookups ?ex t ! j = litmus_lookup" if "field_read r t j" "occurs ?ex r" for r t j
    using visible_iff [OF loads that] l [of j t] read_occurs [OF that] by (simp_all add: litmus_fields)
  have rec: "written_record ?ex 1 = \<lparr>rec_sequence_number = 1, rec_file_position = 100\<rparr>"
    by (simp add: written_record_def litmus_fields)
  have "reads_visible ?ex"
    unfolding reads_visible_def
  proof (intro conjI allI impI; elim conjE)
    fix t j assume "occurs ?ex (Read_number t j)"
    then show "\<exists>k. visible ?ex k (Read_number t j) \<and> lk_number (ex_lookups ?ex t ! j) = rec_sequence_number (written_record ?ex k)"
      using vis [of "Read_number t j" t j] rec by (intro exI [of _ 1]) (simp add: field_read_def litmus_fields)
  next
    fix t j assume "occurs ?ex (Read_position t j)"
    then show "\<exists>k. visible ?ex k (Read_position t j) \<and> lk_position (ex_lookups ?ex t ! j) = rec_file_position (written_record ?ex k)"
      using vis [of "Read_position t j" t j] rec by (intro exI [of _ 1]) (simp add: field_read_def litmus_fields)
  qed
  then show ?thesis using loads by (simp add: ring_execution_def)
qed

theorem ring_race_free_iff_witness:
  "ring_execution 1 (litmus [litmus_lookup] [100, 200]) \<and> \<not> race_free (litmus [litmus_lookup] [100, 200]) \<and>
   ring_execution 1 (litmus [litmus_lookup] [100]) \<and> race_free (litmus [litmus_lookup] [100])"
proof -
  have ex: "ring_execution 1 (litmus [litmus_lookup] [100, 200])" "ring_execution 1 (litmus [litmus_lookup] [100])"
    using litmus_execution [of "[200]"] litmus_execution [of "[]"] by simp_all
  show ?thesis using ring_race_free_iff [OF ex(1)] ring_race_free_iff [OF ex(2)] ex by (simp add: litmus_fields)
qed

theorem ring_lookups_atomic_witness:
  "\<exists>rb. push_all (ex_ring (litmus [litmus_lookup] [100])) 0 [100] = Inr rb \<and>
    file_position_for rb 1 = Inr (lookup_result (ex_ring (litmus [litmus_lookup] [100])) litmus_lookup) \<and>
    lookup_result (ex_ring (litmus [litmus_lookup] [100])) litmus_lookup = Some 100"
proof -
  have ex: "ring_execution 1 (litmus [litmus_lookup] [100])" using litmus_execution [of "[]"] by simp
  have free: "race_free (litmus [litmus_lookup] [100])"
    using race_free_iff [OF ring_executionD(1) [OF ex]] by (simp add: litmus_fields)
  show ?thesis
    using conjunct1 [OF ring_lookups_atomic [OF ex free], rule_format, of litmus_lookup 0]
    by (simp add: litmus_fields lookup_result_def)
qed

end
