(* ===== verification/Util_Text.thy ===== *)
theory Util_Text
  imports Prelude
begin

text \<open>
  Two small utilities. \<open>src/include/imr/util/zstring_view.h\<close>: a view of a string whose memory ends in a
  NUL, for calls into C; \<open>zv_memory\<close> is the memory from the data pointer on. \<open>src/include/imr/util/log.h\<close>:
  which message of which level is printed, where and with what prefix; the level is the compile-time
  constant \<open>IMR_LOG_LEVEL\<close>, and \<open>std::format\<close> has already produced the text.
\<close>

subsection \<open>\<open>zstring_view\<close>\<close>

record zstring_view =
  zv_memory :: bytes
  zv_size :: nat

definition strlen :: "bytes \<Rightarrow> nat" where
  "strlen mem = length (takeWhile (\<lambda>c. c \<noteq> 0) mem)"

definition zstring_from_cstr :: "bytes \<Rightarrow> zstring_view res" where
  "zstring_from_cstr mem = (if 0 \<in> set mem then Inr \<lparr>zv_memory = mem, zv_size = strlen mem\<rparr> else Inl Out_of_bounds)"

definition zstring_from_string :: "bytes \<Rightarrow> zstring_view" where
  "zstring_from_string str = \<lparr>zv_memory = str @ [0], zv_size = length str\<rparr>"

definition zv_data :: "zstring_view \<Rightarrow> bytes" where
  "zv_data z = zv_memory z"

definition zv_c_str :: "zstring_view \<Rightarrow> bytes" where
  "zv_c_str z = zv_data z"

definition zv_sv :: "zstring_view \<Rightarrow> bytes" where
  "zv_sv z = take (zv_size z) (zv_memory z)"

definition zv_empty :: "zstring_view \<Rightarrow> bool" where
  "zv_empty z \<longleftrightarrow> zv_size z = 0"

text \<open>What a C function reads from a pointer.\<close>

definition c_read :: "bytes \<Rightarrow> bytes" where
  "c_read mem = takeWhile (\<lambda>c. c \<noteq> 0) mem"

definition zv_terminated :: "zstring_view \<Rightarrow> bool" where
  "zv_terminated z \<longleftrightarrow> zv_size z < length (zv_memory z) \<and> zv_memory z ! zv_size z = 0"

lemma zstring_from_cstr_terminated:
  assumes "zstring_from_cstr mem = Inr z"
  shows "zv_terminated z" and "c_read (zv_c_str z) = zv_sv z" and "0 \<notin> set (zv_sv z)"
proof -
  have z: "z = \<lparr>zv_memory = mem, zv_size = strlen mem\<rparr>" "0 \<in> set mem"
    using assms by (auto simp: zstring_from_cstr_def split: if_splits)
  then have lt: "strlen mem < length mem"
    unfolding strlen_def by (metis (mono_tags, lifting) length_takeWhile_le nless_le set_takeWhileD takeWhile_eq_take take_all)
  then have "mem ! strlen mem = 0" unfolding strlen_def using nth_length_takeWhile by blast
  with lt show "zv_terminated z" by (simp add: zv_terminated_def z(1))
  show "c_read (zv_c_str z) = zv_sv z"
    by (simp add: z(1) c_read_def zv_c_str_def zv_data_def zv_sv_def strlen_def flip: takeWhile_eq_take)
  then show "0 \<notin> set (zv_sv z)" by (metis c_read_def set_takeWhileD)
qed

lemma zstring_from_string_terminated: "zv_terminated (zstring_from_string str)"
  by (simp add: zv_terminated_def zstring_from_string_def)

lemma zstring_from_string_sv: "zv_sv (zstring_from_string str) = str"
  by (simp add: zv_sv_def zstring_from_string_def)

lemma zstring_from_string_c_read:
  "c_read (zv_c_str (zstring_from_string str)) = zv_sv (zstring_from_string str) \<longleftrightarrow> 0 \<notin> set str"
proof -
  have "takeWhile (\<lambda>c. c \<noteq> 0) (str @ [0]) = str \<longleftrightarrow> 0 \<notin> set str" for str :: bytes
    by (induction str) auto
  then show ?thesis
    by (simp add: zstring_from_string_sv) (simp add: c_read_def zv_c_str_def zv_data_def zstring_from_string_def)
qed

subsection \<open>Logging\<close>

datatype log_stream = Stdout | Stderr

type_synonym log_output = "(log_stream \<times> string) list"

definition escape :: "string \<Rightarrow> string" where "escape s = CHR 0x1B # s"

definition color_error :: string where "color_error = escape ''[1;31m''"
definition color_warn :: string where "color_warn = escape ''[1;33m''"
definition color_info :: string where "color_info = escape ''[36m''"
definition color_debug :: string where "color_debug = escape ''[35m''"

text \<open>\<open>IMR_LOG_LEVEL\<close> when the build does not set it. \<open>level\<close> is an argument of the functions.\<close>

definition default_log_level :: int where "default_log_level = 0"

definition log_base :: "(log_stream \<Rightarrow> bool) \<Rightarrow> log_stream \<Rightarrow> string \<Rightarrow> string \<Rightarrow> string \<Rightarrow> log_output" where
  "log_base tty stream tag color msg =
     [(stream, if tty stream then color @ ''[imr:'' @ tag @ '']'' @ escape ''[0m '' else ''[imr:'' @ tag @ ''] ''),
      (stream, msg @ [CHR 0x0A])]"

definition log_error :: "int \<Rightarrow> (log_stream \<Rightarrow> bool) \<Rightarrow> string \<Rightarrow> log_output" where
  "log_error level tty msg = (if level \<ge> 0 then log_base tty Stderr ''error'' color_error msg else [])"

definition log_perror :: "int \<Rightarrow> (log_stream \<Rightarrow> bool) \<Rightarrow> string \<Rightarrow> string \<Rightarrow> log_output" where
  "log_perror level tty function_name strerror =
     (if level \<ge> 0 then log_error level tty (function_name @ '': '' @ strerror) else [])"

definition log_warn :: "int \<Rightarrow> (log_stream \<Rightarrow> bool) \<Rightarrow> string \<Rightarrow> log_output" where
  "log_warn level tty msg = (if level \<ge> 1 then log_base tty Stdout ''warn'' color_warn msg else [])"

definition log_info :: "int \<Rightarrow> (log_stream \<Rightarrow> bool) \<Rightarrow> string \<Rightarrow> log_output" where
  "log_info level tty msg = (if level \<ge> 2 then log_base tty Stdout ''info'' color_info msg else [])"

definition log_debug :: "int \<Rightarrow> (log_stream \<Rightarrow> bool) \<Rightarrow> string \<Rightarrow> log_output" where
  "log_debug level tty msg = (if level \<ge> 3 then log_base tty Stdout ''debug'' color_debug msg else [])"

definition log_debug_location :: "int \<Rightarrow> (log_stream \<Rightarrow> bool) \<Rightarrow> string \<Rightarrow> log_output" where
  "log_debug_location level tty function_name = (if level \<ge> 3 then log_debug level tty function_name else [])"

text \<open>Severity is monotone: a build that prints a level prints every more severe one.\<close>

lemma log_levels_monotone:
  "log_debug l tty m \<noteq> [] \<Longrightarrow> log_info l tty m \<noteq> []"
  "log_info l tty m \<noteq> [] \<Longrightarrow> log_warn l tty m \<noteq> []"
  "log_warn l tty m \<noteq> [] \<Longrightarrow> log_error l tty m \<noteq> []"
  by (simp_all add: log_debug_def log_info_def log_warn_def log_error_def log_base_def split: if_splits)

text \<open>By default only errors are printed.\<close>

lemma default_level_prints_errors:
  "log_error default_log_level tty m \<noteq> []" "log_warn default_log_level tty m = []" "log_info default_log_level tty m = []"
  "log_debug default_log_level tty m = []"
  by (simp_all add: default_log_level_def log_error_def log_warn_def log_info_def log_debug_def log_base_def)

section \<open>Properties\<close>

text \<open>
  A \<open>zstring_view\<close> made from a C string or from a \<open>std::string\<close> is followed by a NUL, and a C function
  that is handed its pointer reads exactly the characters of the view; for a \<open>std::string\<close> this needs, and
  needs only, that the string has no NUL inside.
\<close>

theorem zstring_view_terminated:
  "(case zstring_from_cstr mem of
      Inr z \<Rightarrow> zv_terminated z \<and> c_read (zv_c_str z) = zv_sv z
    | Inl _ \<Rightarrow> 0 \<notin> set mem) \<and>
   zv_terminated (zstring_from_string str) \<and> zv_sv (zstring_from_string str) = str \<and>
   (c_read (zv_c_str (zstring_from_string str)) = zv_sv (zstring_from_string str) \<longleftrightarrow> 0 \<notin> set str)"
proof -
  have "case zstring_from_cstr mem of Inr z \<Rightarrow> zv_terminated z \<and> c_read (zv_c_str z) = zv_sv z | Inl _ \<Rightarrow> 0 \<notin> set mem"
  proof (cases "zstring_from_cstr mem")
    case (Inl err)
    then show ?thesis by (simp add: zstring_from_cstr_def split: if_splits)
  next
    case (Inr z)
    then show ?thesis using zstring_from_cstr_terminated [OF Inr] by simp
  qed
  then show ?thesis
    using zstring_from_string_terminated zstring_from_string_sv zstring_from_string_c_read by blast
qed

end
