(* ===== verification/Spec2Isabelle.thy ===== *)
theory Spec2Isabelle
  imports Test_Fixtures Server_Life Buffer_Concurrency Memory_Order Util_Text
begin

text \<open>
  A verification of the Nasdaq ITCH market-replay server: it maps a file of length-prefixed ITCH messages,
  multicasts it as a MoldUDP64 session at a playback speed, and answers retransmission requests.

  \<^bold>\<open>Parts of the program and how they interact.\<close> \<open>Server\<close> (\<open>src/src/server.cpp\<close>) owns the mapped file, the
  retransmission ring buffer, the downstream feed and the pool of retransmission workers. The downstream
  thread reads messages with \<open>mold::io\<close>, collects them in a \<open>PacketBuilder\<close>, asks the \<open>Pacer\<close> for the delay,
  records the file position of every numbered message in the ring and sends the packet; while it sleeps the
  \<open>Heartbeat\<close> announces the next sequence number; at the end it sends end-of-session packets. A worker waits on
  \<open>epoll\<close>, parses a request, looks the first requested number up in the ring, reads the messages from the same
  mapped file and answers with one packet. The pool's event descriptor tells the workers to leave.

  \<^bold>\<open>Theories.\<close> Each opens with the names of the sources it models.

  \<^item> \<open>Prelude\<close>: bytes, words, the build configuration, errors as values, memory images of integers, and the
    frame of the state machines (\<open>reachable\<close>, locale \<open>invariant_system\<close>). \<open>Environment\<close>: the clock, stop
    requests and results of sends, as functions of a tick. \<open>Double\<close>: the binary64 operations of the pacer.
  \<^item> \<open>Binary_IO\<close> (\<open>util/binary_io.h\<close>), \<open>Mold_Types\<close> (\<open>mold/types.h\<close>), \<open>Itch_Timestamp\<close> (\<open>itch/timestamp.cpp\<close>),
    \<open>Mold_IO\<close> (\<open>mold/io.cpp\<close>): fields and framing. Locale \<open>field_codec\<close> is the contract of a big-endian field,
    \<open>message_reader\<close> that of the reader the two feeds share. The lemmas are round trips, host independence,
    equality with a reference reading, and that nothing outside the buffer is touched.
  \<^item> \<open>Packet_Builder\<close> (\<open>mold/packet_builder.cpp\<close>) and \<open>Receiver\<close> (the decoder of \<open>tests/e2e\<close>): locale
    \<open>packet_assembler\<close>; what the sent bytes are, and that a receiver gets the messages back; every builder that
    the operations can produce is well formed (\<open>builder_state\<close>).
  \<^item> \<open>Retransmission_Buffer\<close> (\<open>mold/retransmission_buffer.cpp\<close>): locale \<open>position_store\<close>; the ring refines the
    history of pushed positions. \<open>Buffer_Concurrency\<close> interleaves its accesses with a reader's. \<open>Memory_Order\<close> has
    its executions under the C++ memory model, with any number of workers: which of them have a data race, and that
    in the others every lookup is atomic.
  \<^item> \<open>Pacer\<close> (\<open>mold/downstream/pacer.h\<close>), \<open>Heartbeat\<close> (\<open>mold/downstream/heartbeat.cpp\<close>), \<open>Downstream_Feed\<close>
    (\<open>mold/downstream/feed.cpp\<close>): the downstream side. \<open>Schedule\<close> is the abstract specification of a replay,
    \<open>Replay_Proofs\<close> the proof that the loop implements it, \<open>Session\<close> the constructor, the end of a session, a
    stop, and what holds for every file, malformed ones included: \<open>walked\<close> are the positions that reading it passes, and the
    only fault is at a \<open>short_tail\<close>.
  \<^item> \<open>Retransmission_Feed\<close> (\<open>mold/retransmission/feed.cpp\<close>): requests, replies and the event loop of a worker.
  \<^item> \<open>File_Descriptor\<close>, \<open>Memory_Mapped_File\<close>, \<open>Util_Text\<close> (\<open>util/\<close>): ownership of descriptors and mappings,
    \<open>zstring_view\<close> and \<open>log\<close>.
  \<^item> \<open>Feed_Threads\<close>: the feed thread and the heartbeat thread of a \<open>downstream::Feed\<close>, cut into the pieces between
    which the other can run, as one step relation. \<open>Thread_Schedule\<close>: in every interleaving the feed follows the
    schedule, the heartbeats stay within one packet of it and the ring holds what was sent. \<open>Thread_Progress\<close>:
    neither thread blocks the other, and a session whose sequential run returns can end from every state.
    \<open>Concurrent_Session\<close>: what a client sees of such a session, and what a worker answers at any point of it.
    \<open>E2E_Client\<close> (\<open>tests/e2e/tests/e2e.cpp\<close>): the clients of the end-to-end tests, run against those sessions.
  \<^item> \<open>Server\<close> (\<open>server.cpp\<close>, \<open>server.h\<close>, \<open>mold/retransmission/feed_pool.cpp\<close>): construction, with the unwinding
    of a constructor that throws, destruction, and the descriptors of a worker. \<open>Running_Server\<close>: the server that \<open>make_server\<close> built, with its feed, heartbeat
    and workers running beside each other on one file and one ring, and clients that send anything.
    \<open>Server_Life\<close>: start (also a second time), stop, wait and destruction over the threads; the feed's \<open>start\<close> returns
    there only after a stop request or when the file is one whose session ends.
  \<^item> \<open>Unit_Tests\<close> (\<open>tests/unit\<close>, \<open>tests/integration/tests/components\<close>): the repository's tests evaluated on the model.
    \<open>Test_Fixtures\<close> (\<open>tests/common\<close>, the fixtures of \<open>tests/e2e\<close> and \<open>server_test.cpp\<close>): the generated file, the
    configurations and the set-up; the end-to-end tests pass on the server that the set-up builds.
  \<^item> \<open>Delivery\<close>: lemmas that put the components together. \<open>Samples\<close>: concrete values for the witnesses.
  \<^item> This theory: the properties that span components.

  \<^bold>\<open>How code corresponds to definitions.\<close> A class is a \<open>record\<close> with a field per member, a member function is one
  definition that takes and returns the record. Members and functions of the same name in different classes
  carry a prefix (\<open>downstream_\<close>, \<open>retransmission_\<close>, \<open>df_\<close>, \<open>rf_\<close>, \<open>pb_\<close>, \<open>rb_\<close>). A thrown exception, a failed
  assertion and undefined behaviour are values of \<open>error\<close>, so a theorem that a result is \<open>Inr\<close> says that none
  of them happens. Sequence numbers, message counts and ports are words; positions are naturals, and
  \<open>Mold_IO.length_prefix_no_wrap\<close> shows that the 64-bit arithmetic on them agrees. Durations are integers whose
  operations fail when the result does not fit 64 signed bits.

  \<^bold>\<open>Fuel.\<close> The loops that run as long as the environment lets them take fuel, and \<open>None\<close> means that it was used
  up. A replay of a well-formed file of \<open>n\<close> messages needs \<open>n + 1\<close> turns, since every turn numbers or skips at
  least one message and one notices the end; the end-of-session loop needs a turn per tick until the clock
  passes the configured duration; a replay of any file needs a turn per byte and one more, unless a message is too long for
  a packet; a worker asked to stop at tick \<open>t0\<close> needs \<open>t0 - t + 1\<close>; a feed asked to stop
  at tick \<open>T\<close> needs \<open>T + 1\<close>. Fuel that is enough gives the result, and more fuel does not change it. The paced
  theorems ask for a playback speed of at least 1/32 and a clock below \<open>2^61\<close> nanoseconds (73 years), which
  keeps every quotient and sum in range.

  \<^bold>\<open>Parameters.\<close> The results of system calls (\<open>socket\<close>, \<open>setsockopt\<close>, \<open>bind\<close>, \<open>inet_pton\<close>, \<open>open\<close>, \<open>mmap\<close>,
  \<open>madvise\<close>, \<open>eventfd\<close>, \<open>epoll_*\<close>, \<open>recvfrom\<close>, the sends) are arguments. A theorem assumes of them only what
  it states.

  \<^bold>\<open>Grain of the interleavings.\<close> \<open>Feed_Threads\<close> separates the store and the loads of the sent number, the sends,
  the sleeps and the tests of the stop tokens. In \<open>Running_Server\<close> one request is handled between two pieces of
  the feed; the single accesses of \<open>push\<close> and \<open>file_position_for\<close> are interleaved in \<open>Buffer_Concurrency\<close>, which also
  shows where the larger grain hides something: a slot overwritten while it is read. Interleaving is sequential
  consistency; \<open>Memory_Order\<close> says when the ring may be read so: when no slot that was read is reused in the session.

  \<^bold>\<open>Not modelled.\<close> The undefined behaviour that follows a data race, which includes what two feed
  threads do to one feed after a second \<open>Server::start\<close> (\<open>Server_Life\<close> shows that they run); allocation failure; \<open>std::format\<close>; log
  levels below error inside the feeds; the writing of the test file to disk. The lines of the headers that no definition maps are declarations of
  functions whose bodies are modelled from the \<open>.cpp\<close> files.
\<close>

section \<open>Properties that span components\<close>

subsection \<open>Delivery\<close>

text \<open>
  C2. A feed built on a file of framed messages replays it: with fuel for one turn per message and one to
  notice the end, \<open>downstream::Feed::start\<close>'s replay loop returns; a receiver on any host decodes every
  datagram; the packets are numbered without gaps from 1 (\<open>decoded\<close>); the bodies received are those of the
  file, in order, less the leading ones that \<open>skip_before\<close> passes over; and no datagram exceeds the MTU.
\<close>

theorem replay_delivers_file:
  assumes "downstream_feed_new b s cfg pb_cfg (concat (map frame bodies)) rb = Inr f"
    and "retransmission_buffer_new n = Inr rb" and "playable b e cfg pb_cfg bodies n"
    and "cfg_MTU pb_cfg < 65536" and "skips_first (early cfg) (map frame bodies)"
  shows "\<exists>f' evs t' packets. downstream_replay (Suc (length bodies)) b e t f = Some (Inr (f', evs, t')) \<and>
    map (receive_packet b') (datagrams evs) = map Inr (decoded (cfg_session pb_cfg) 1 packets) \<and>
    concat (map snd (decoded (cfg_session pb_cfg) 1 packets)) = dropWhile (\<lambda>body. early cfg (frame body)) bodies \<and>
    (\<forall>d \<in> set (datagrams evs). length d \<le> cfg_MTU pb_cfg)"
proof -
  note f = new_feed_ready [OF assms(1-3)]
  define pl where "pl = plan (early cfg) (cfg_MTU pb_cfg - 20) (map frame bodies)"
  have pl: "replay_plan f = pl" by (simp add: replay_plan_def f(2,3,5) pl_def)
  have len: "\<forall>body \<in> set bodies. length body < 65536" "\<forall>m \<in> set (map frame bodies). length m \<le> cfg_MTU pb_cfg - 20"
    using assms(3) by (auto simp: playable_def length_frame)
  have fuel: "length (messages_from (df_file f) (df_file_pos f)) < Suc (length bodies)" by (simp add: f(2))
  obtain f' evs t' where r: "downstream_replay (Suc (length bodies)) b e t f = Some (Inr (f', evs, t'))"
    "datagrams evs = numbered (cfg_session pb_cfg) 1 pl"
    using replay_ok [OF f(1) fuel, of t] pl f(4) by (auto simp: replayed_def)
  have "map (receive_packet b') (datagrams evs) = map Inr (decoded (cfg_session pb_cfg) 1 pl)"
    unfolding r(2) pl_def using assms(4) by (intro receive_plan [OF f(6) len(1)]) simp
  moreover have "concat pl = map frame (dropWhile (\<lambda>body. early cfg (frame body)) bodies)"
    unfolding pl_def plan_skips_first [OF len(2) assms(5)] by (simp add: dropWhile_map comp_def)
  then have "concat (map snd (decoded (cfg_session pb_cfg) 1 pl)) = dropWhile (\<lambda>body. early cfg (frame body)) bodies"
    by (simp add: decoded_bodies comp_def frame_def)
  moreover have "\<forall>d \<in> set (datagrams evs). length d \<le> cfg_MTU pb_cfg"
  proof -
    have "\<forall>p \<in> set pl. length (concat p) \<le> cfg_MTU pb_cfg - 20" using plan_packet unfolding pl_def by blast
    then have "\<forall>d \<in> set (datagrams evs). length d \<le> 20 + (cfg_MTU pb_cfg - 20)"
      unfolding r(2) using numbered_size [OF f(6)] by blast
    then show ?thesis using f(10) by simp
  qed
  ultimately show ?thesis using r(1) by blast
qed

theorem replay_delivers_file_witness:
  "\<exists>f' evs t' packets. downstream_replay 3 sample_build sample_env 0 sample_feed = Some (Inr (f', evs, t')) \<and>
    map (receive_packet sample_build) (datagrams evs) = map Inr (decoded sample_session 1 packets) \<and>
    concat (map snd (decoded sample_session 1 packets)) = sample_bodies \<and>
    (\<forall>d \<in> set (datagrams evs). length d \<le> 1472)"
proof -
  have cfg: "cfg_session sample_pb_cfg = sample_session" "cfg_MTU sample_pb_cfg = 1472" and n: "Suc (length sample_bodies) = 3"
    by (simp_all add: sample_pb_cfg_def default_packet_builder_config_def sample_bodies_def)
  have mtu: "cfg_MTU sample_pb_cfg < 65536" by (simp add: cfg)
  have "dropWhile (\<lambda>body. early sample_cfg (frame body)) sample_bodies = sample_bodies"
    by (simp add: sample_bodies_def sample_not_early)
  then show ?thesis
    using replay_delivers_file [OF sample_feed sample_rb_new sample_playable mtu sample_skips_first, of 0 sample_build]
    unfolding cfg n by simp
qed

text \<open>
  C7. A session that can be played comes to its end: on a file of framed messages each of which fits the MTU, with a ring
  buffer and a pacing within the model's bounds (\<open>playable\<close>), and when the clock, after the replay, advances by the configured
  duration, there is fuel with which \<open>downstream::Feed::start\<close> returns, having sent the packets of the schedule followed only by
  end-of-session packets that carry the number after the last message, with the heartbeat stopped and
  every message accounted for. On other files it need not return (\<open>oversized_message_livelock\<close>).
\<close>

theorem session_completes:
  assumes "downstream_feed_new b s cfg pb_cfg (concat (map frame bodies)) rb = Inr f"
    and "retransmission_buffer_new n = Inr rb" and "playable b e cfg pb_cfg bodies n"
    and "clock_passes e (t + 4 * Suc (length bodies)) (dc_end_of_session_duration cfg)"
    and "\<forall>u. fits_i64 (now_at e u + dc_end_of_session_duration cfg)"
  shows "\<exists>fuel f' evs t' k. downstream_start fuel b e t f = Some (Inr (f', evs, t')) \<and>
    datagrams evs = numbered (cfg_session pb_cfg) 1 (replay_plan f) @
      replicate k (header_of (cfg_session pb_cfg) (word_of_nat (Suc (length (concat (replay_plan f))))) end_of_session_msg_count) \<and>
    df_file_pos f' = length (df_file f) \<and> \<not> hb_running (df_heartbeat f')"
proof -
  note f = new_feed_ready [OF assms(1-3)]
  note len = length_replay_positions [OF f(1)]
  obtain fuel f' evs t' k where s: "downstream_start fuel b e t f = Some (Inr (f', evs, t'))"
    "datagrams evs = numbered (cfg_session pb_cfg) 1 (replay_plan f) @ replicate k (eos_packet f')"
    "ds_inv f' (replay_positions f)" "df_file_pos f' = length (df_file f)" "\<not> hb_running (df_heartbeat f')"
    "session (df_packet_builder f') = cfg_session pb_cfg"
    using downstream_start_ok [OF f(1), of t] assms(4,5) unfolding f(2,4,9) by auto
  have "eos_packet f' = header_of (cfg_session pb_cfg) (word_of_nat (Suc (length (concat (replay_plan f))))) end_of_session_msg_count"
    using ds_invD(4) [OF s(3)] s(6) len by (simp add: eos_packet_def)
  then show ?thesis using s by metis
qed

theorem session_completes_witness:
  "\<exists>fuel f' evs t' k. downstream_start fuel sample_build sample_env 0 sample_feed = Some (Inr (f', evs, t')) \<and>
    datagrams evs = numbered sample_session 1 (replay_plan sample_feed) @
      replicate k (header_of sample_session (word_of_nat (Suc (length (concat (replay_plan sample_feed))))) end_of_session_msg_count) \<and>
    df_file_pos f' = length (df_file sample_feed) \<and> \<not> hb_running (df_heartbeat f')"
proof -
  have "0 + 4 * Suc (length sample_bodies) \<le> 100" by (simp add: sample_bodies_def)
  then have "clock_passes sample_env (0 + 4 * Suc (length sample_bodies)) (dc_end_of_session_duration sample_cfg)"
    using sample_clock unfolding clock_passes_def by (meson le_trans)
  moreover have "\<forall>u. fits_i64 (now_at sample_env u + dc_end_of_session_duration sample_cfg)"
    by (simp add: fits_i64_def sample_env_def sample_cfg_def default_downstream_config_def)
  moreover have "cfg_session sample_pb_cfg = sample_session"
    by (simp add: sample_pb_cfg_def default_packet_builder_config_def)
  ultimately show ?thesis
    using session_completes [OF sample_feed sample_rb_new sample_playable, of 0] by simp
qed

subsection \<open>Any file, stopping, and a message that is too long\<close>

text \<open>
  C18. Whatever bytes the file holds: take a new feed of a release build, paced within the bounds of the model's
  clock, and fuel for one turn per byte. Then one of three things happens. The replay loop returns: the messages
  sent are framed messages of the file, in packets numbered without gaps from 1, none above the MTU; the ring
  buffer holds the history of their positions; the next sequence number is one more than their count; and the loop was left because of a
  stop, because fewer bytes are left than a length prefix and a timestamp take, or because a message to be skipped is cut off. Or it reads
  out of bounds, at a tail of 8 to 12 bytes. Or it does not return within the fuel, and the
  walk through the file meets a message longer than a packet can hold.
\<close>

theorem replay_any_file:
  assumes "downstream_feed_new b s cfg pb_cfg bs rb = Inr f" and "retransmission_buffer_new n = Inr rb"
    and "length bs + unat n + 1 < 2 ^ 64" and "ndebug b"
    and "debug_no_sleep b \<or> paced e (pacer_new (dc_pacer_cfg cfg))" and "length bs < fuel"
  shows "case downstream_replay fuel b e t f of
      Some (Inr (f', evs, t')) \<Rightarrow> \<exists>ps. rb_rep (df_retransmission_buffer f') ps \<and> sends_messages b f 1 ps (datagrams evs) \<and>
        df_sequence_number f' = word_of_nat (Suc (length ps)) \<and> length ps \<le> df_file_pos f' \<and> df_file_pos f' \<le> length bs \<and>
        (\<forall>d \<in> set (datagrams evs). length d \<le> cfg_MTU pb_cfg) \<and> loop_ended e bs (df_file_pos f')
    | Some (Inl err) \<Rightarrow> err = Out_of_bounds \<and> (\<exists>q. walked bs q \<and> short_tail bs q)
    | None \<Rightarrow> \<exists>q m. walked bs q \<and> message_at bs q = Some m \<and> cfg_MTU pb_cfg - 20 < length m"
proof -
  note f = new_feed_inv [OF assms(1-3)]
  have pre: "pause_ok b e f" "walked (df_file f) (df_file_pos f)"
    using assms(5) walk_start by (simp_all add: pause_ok_def f(3,5))
  note any = replay_any [OF f(1) assms(4) pre, unfolded f(2,3) ds_capacity_def f(4)]
  show ?thesis
  proof (cases "downstream_replay fuel b e t f")
    case None
    then show ?thesis using any(2) [of fuel t] assms(6) by simp
  next
    case (Some r)
    show ?thesis
    proof (cases r)
      case (Inl err)
      then show ?thesis using any(1) [of fuel t err] Some by simp
    next
      case (Inr x)
      obtain f' evs t' where x: "x = (f', evs, t')" by (cases x)
      note run = Some [unfolded Inr x]
      obtain ps where ps: "ds_inv f' ps" "ds_same f f'" "sends_messages b f 1 ps (datagrams evs)" "loop_ended e bs (df_file_pos f')"
        using replay_any_sends [OF f(1) assms(4) pre run] f(2) by auto
      have "sends_within (cfg_MTU pb_cfg) evs" using replay_inv [OF f(1) assms(4) run] f(4) by auto
      then have "\<forall>d \<in> set (datagrams evs). length d \<le> cfg_MTU pb_cfg" by (simp add: sends_within_def)
      moreover have "df_file f' = bs" using ps(2) f(2) by (simp add: ds_same_def)
      ultimately show ?thesis using ds_invD [OF ps(1)] ps(3,4) unfolding run by auto
    qed
  qed
qed

text \<open>
  C23. A stop request is honoured whatever the file holds, also where the replay would never end by itself:
  when the stop is requested from tick \<open>T\<close> on, \<open>downstream::Feed::start\<close> of a new feed (release build, paced within the
  bounds of the clock) comes to an end after at most \<open>T + 1\<close> turns of each of its loops: it returns with its heartbeat stopped,
  unless it has read out of bounds at a tail of 8 to 12 bytes, which is the only fault it can have.
\<close>

theorem stop_returns:
  assumes "downstream_feed_new b s cfg pb_cfg bs rb = Inr f" and "retransmission_buffer_new n = Inr rb"
    and "length bs + unat n + 1 < 2 ^ 64" and "ndebug b"
    and "debug_no_sleep b \<or> paced e (pacer_new (dc_pacer_cfg cfg))"
    and "\<forall>u. fits_i64 (now_at e u + dc_end_of_session_duration cfg)" and "\<forall>u. T \<le> u \<longrightarrow> stop_requested_at e u"
  shows "\<exists>r. downstream_start (Suc T) b e t f = Some r \<and>
    (case r of Inl err \<Rightarrow> err = Out_of_bounds \<and> (\<exists>q. walked bs q \<and> short_tail bs q)
     | Inr (f', evs, t') \<Rightarrow> \<not> hb_running (df_heartbeat f'))"
proof -
  note f = new_feed_inv [OF assms(1-3)]
  obtain r where r: "downstream_start (Suc T) b e t f = Some r" using downstream_start_stops [of T e b t f] assms(7) by blast
  have "r = Inl err \<Longrightarrow> err = Out_of_bounds \<and> (\<exists>q. walked bs q \<and> short_tail bs q)" for err
  proof -
    assume err: "r = Inl err"
    have pre: "pause_ok b e f" "walked (df_file f) (df_file_pos f)"
      using assms(5) walk_start by (simp_all add: pause_ok_def f(3,5))
    show ?thesis using start_any [OF f(1) assms(4) pre _ r [unfolded err]] assms(6) downstream_feed_new_duration [OF assms(1)] f(2) by simp
  qed
  moreover have "\<not> hb_running (df_heartbeat f')" if "r = Inr (f', evs, t')" for f' evs t'
    using downstream_start_heartbeat r that by blast
  ultimately show ?thesis using r by (cases r) auto
qed

text \<open>
  A stopped session ends silently: when the stop is requested before the feed starts, it returns without a
  datagram; in particular no end-of-session packet is sent, although the class comment says so.
\<close>

theorem stop_sends_no_end_of_session:
  assumes "\<forall>u. stop_requested_at e u" and "pb_inv (df_packet_builder f)" and "\<not> debug_no_network b"
    and "\<forall>u. fits_i64 (now_at e u + df_end_of_session_duration f)"
  shows "\<exists>f' evs t'. downstream_start (Suc k) b e t f = Some (Inr (f', evs, t')) \<and> datagrams evs = []"
proof -
  define f0 where "f0 = f\<lparr>df_heartbeat := heartbeat_start (df_heartbeat f)\<rparr>"
  obtain t1 where it: "downstream_iteration b e t f0 = Inr (Break, f0, [], t1)"
    using assms(1) by (cases "df_file_pos f0 < length (df_file f0)") (simp_all add: downstream_iteration_def)
  define f2 where "f2 = f0\<lparr>df_heartbeat := heartbeat_stop (df_heartbeat f0)\<rparr>"
  have "downstream_end_of_session (Suc k) b e t1 f2 = Some (Inr ([], Suc (Suc t1)))"
    using downstream_end_of_session_eq [of f2 b e t1 "Suc k"] assms by (simp add: f2_def f0_def)
  then show ?thesis using it by (simp add: downstream_start_def Let_def flip: f0_def f2_def)
qed

theorem stop_sends_no_end_of_session_witness:
  "\<exists>f' evs t'. downstream_start 1 sample_build (sample_env\<lparr>stop_requested_at := \<lambda>_. True\<rparr>) 0 sample_feed = Some (Inr (f', evs, t')) \<and>
    datagrams evs = []"
proof -
  have "pb_inv (df_packet_builder sample_feed)"
    using ds_invD(1) replay_readyD(1) sample_feed_ready(1) by blast
  moreover have "\<forall>u. fits_i64 (now_at (sample_env\<lparr>stop_requested_at := \<lambda>_. True\<rparr>) u + df_end_of_session_duration sample_feed)"
    unfolding sample_feed_ready(9) by (simp add: fits_i64_def sample_env_def sample_cfg_def default_downstream_config_def)
  ultimately show ?thesis
    using stop_sends_no_end_of_session [of "sample_env\<lparr>stop_requested_at := \<lambda>_. True\<rparr>" sample_feed sample_build 0 0]
    by (simp add: sample_build_def)
qed

text \<open>
  C36. A message longer than the MTU allows stops the replay for good without stopping the feed: no amount of fuel
  ends the loop, and every turn sends a packet without messages, which a receiver takes for a heartbeat.
\<close>

theorem oversized_message_livelock:
  assumes "oversized b e f posns m"
  shows "downstream_replay fuel b e t f = None \<and>
    (\<exists>f' evs t'. downstream_iteration b e t f = Inr (Continue, f', evs, t') \<and> oversized b e f' posns m \<and>
       datagrams evs = [heartbeat_packet (session (df_packet_builder f)) (df_sequence_number f)])"
  using oversized_never_ends [OF assms] oversized_step [OF assms] by metis

theorem oversized_message_livelock_witness:
  "downstream_replay 1000 sample_build sample_env 0 small_feed = None \<and>
    (\<exists>f' evs t'. downstream_iteration sample_build sample_env 0 small_feed = Inr (Continue, f', evs, t') \<and>
       datagrams evs = [heartbeat_packet (session (df_packet_builder small_feed)) (df_sequence_number small_feed)])"
  using oversized_message_livelock [OF small_feed_oversized] by blast

theorem replay_any_file_witness:
  "\<exists>f' evs t' ps. downstream_replay 32 release_build sample_env 0 ragged_feed = Some (Inr (f', evs, t')) \<and>
    rb_rep (df_retransmission_buffer f') ps \<and> sends_messages release_build ragged_feed 1 ps (datagrams evs) \<and>
    df_sequence_number f' = word_of_nat (Suc (length ps)) \<and> 23 < df_file_pos f' \<and> df_file_pos f' \<le> 31"
proof -
  have fuel: "length ragged_file < 32" by (simp add: ragged_file_length)
  have "\<not> cfg_MTU sample_pb_cfg - 20 < 14" by (simp add: sample_pb_cfg_def default_packet_builder_config_def)
  then have "downstream_replay 32 release_build sample_env 0 ragged_feed \<noteq> None"
    and "\<And>err. downstream_replay 32 release_build sample_env 0 ragged_feed \<noteq> Some (Inl err)"
    using replay_any_file [OF ragged_feed sample_rb_new ragged_file_length(2) release_build_release(1) disjI2 [OF sample_paced] fuel, of 0]
      ragged_sound by fastforce+
  then obtain f' evs t' where run: "downstream_replay 32 release_build sample_env 0 ragged_feed = Some (Inr (f', evs, t'))"
    by (cases "downstream_replay 32 release_build sample_env 0 ragged_feed") (auto, metis old.sum.exhaust prod_cases3)
  show ?thesis
    using replay_any_file [OF ragged_feed sample_rb_new ragged_file_length(2) release_build_release(1) disjI2 [OF sample_paced] fuel, of 0]
      ragged_ended ragged_file_length run by auto
qed

theorem stop_returns_witness:
  "\<exists>f' evs t'. downstream_start 6 release_build stopped_env 0 ragged_feed = Some (Inr (f', evs, t')) \<and> \<not> hb_running (df_heartbeat f')"
proof -
  have "paced stopped_env (pacer_new (dc_pacer_cfg sample_cfg))" using sample_paced by (simp add: paced_def stopped_env_def)
  moreover have "\<forall>u. fits_i64 (now_at stopped_env u + dc_end_of_session_duration sample_cfg)"
    by (simp add: fits_i64_def stopped_env_def sample_env_def sample_cfg_def default_downstream_config_def)
  moreover have "\<forall>u. 5 \<le> u \<longrightarrow> stop_requested_at stopped_env u" by (simp add: stopped_env_def)
  ultimately obtain r where "downstream_start (Suc 5) release_build stopped_env 0 ragged_feed = Some r"
    "case r of Inl err \<Rightarrow> err = Out_of_bounds \<and> (\<exists>q. walked ragged_file q \<and> short_tail ragged_file q)
       | Inr (f', evs, t') \<Rightarrow> \<not> hb_running (df_heartbeat f')"
    using stop_returns [OF ragged_feed sample_rb_new ragged_file_length(2) release_build_release(1)] by blast
  then show ?thesis using ragged_sound(1) by (cases r) auto
qed

section \<open>Instances of the properties of the components\<close>

theorem heartbeat_announces_next_witness:
  "\<exists>f1 hb' d r. downstream_build_packet sample_build sample_feed = Inr f1 \<and>
    heartbeat_send sample_build sample_env 0 (df_heartbeat f1) (df_sent_sequence_number f1) =
      Inr (hb', Send (hb_mcast_group (df_heartbeat f1)) d r # (if r < 0 then [Logged_error] else []), 1) \<and>
    parse_header release_build d = Inr \<lparr>hdr_session = session (df_packet_builder f1), hdr_sequence_number = 1,
      hdr_message_count = heartbeat_msg_count\<rparr>"
proof -
  have "df_sent_sequence_number sample_feed = df_sequence_number sample_feed"
    using new_feed_numbers [OF sample_feed] by simp
  then have "\<exists>f1 f2 evs2 t2 hb' d r. downstream_build_packet sample_build sample_feed = Inr f1 \<and>
    downstream_send_packet sample_build sample_env 0 f1 = Inr (f2, evs2, t2) \<and>
    heartbeat_send sample_build sample_env 0 (df_heartbeat f1) (df_sent_sequence_number f1) =
      Inr (hb', Send (hb_mcast_group (df_heartbeat f1)) d r # (if r < 0 then [Logged_error] else []), Suc 0) \<and>
    parse_header release_build d = Inr \<lparr>hdr_session = session (df_packet_builder f1),
      hdr_sequence_number = word_of_nat (Suc (length ([] :: nat list))), hdr_message_count = heartbeat_msg_count\<rparr>"
    using heartbeat_announces_next [OF sample_feed_inv, of sample_env 0 release_build] by blast
  moreover have "word_of_nat (Suc (length ([] :: nat list))) = (1 :: u64)" "Suc 0 = 1" by simp_all
  ultimately show ?thesis by metis
qed

theorem request_safe_witness:
  "\<exists>rb rf' evs t'. push_all sample_rb 0 [0] = Inr rb \<and>
    handle_request sample_build sample_env 0 (sample_worker (concat (map frame sample_bodies))) rb
      (Recv_datagram (header_of sample_session 1 2) sample_address) = Inr (rf', evs, t') \<and> rf_inv rf' \<and>
    (evs = [] \<or> (\<exists>packet r. evs = Send sample_address packet r # (if r < 0 then [Logged_error] else []) \<and> length packet \<le> 1472))"
proof -
  obtain rb where rb: "push_all sample_rb 0 [0] = Inr rb" "rb_rep rb [0]" using sample_ring .
  have "\<forall>seq pos. file_position_for rb seq = Inr (Some pos) \<longrightarrow>
      rf_asserts_hold sample_build (sample_worker (concat (map frame sample_bodies))) pos"
    using sample_ring_positions [OF rb(2)] sample_worker_asserts by metis
  moreover have "\<not> debug_no_network sample_build" by (simp add: sample_build_def)
  ultimately show ?thesis
    using request_safe [OF sample_worker_fields(1) _ _ rb(2), of sample_build "concat (map frame sample_bodies)" sample_env 0
        "header_of sample_session 1 2" sample_address] rb(1)
    unfolding sample_worker_fields by blast
qed

theorem request_refused_witness:
  "handle_request sample_build sample_env 0 (sample_worker []) sample_rb (Recv_datagram [1, 2, 3] sample_address) =
    Inr ((sample_worker [])\<lparr>rf_recv_buffer := [1, 2, 3] @ replicate 17 0\<rparr>, [], 0)"
proof -
  have "rf_recv_buffer (sample_worker []) = replicate 20 0" by (rule sample_worker_new [of "[]"]) simp
  then show ?thesis using request_refused [OF sample_worker_fields(1), of "[1, 2, 3]"] by (simp add: numeral_eq_Suc)
qed

theorem worker_stops_on_shutdown_witness:
  "\<exists>rf' evs t'. retransmission_start 4 sample_build shutdown_env 0 (sample_worker []) = Some (Inr (rf', evs, t')) \<and> rf_inv rf'"
proof -
  have "\<forall>u. 3 \<le> u \<longrightarrow> shutdown_reported (we_epoll_at shutdown_env u) (rf_shutdown_fd (sample_worker []))"
    by (simp add: shutdown_reported_def shutdown_env_def sample_worker_fields)
  then show ?thesis using worker_stops_on_shutdown [OF shutdown_env_ready, of 3 "[]" 0] by (simp add: numeral_eq_Suc)
qed

theorem worker_epoll_failure_witness:
  "retransmission_iteration sample_build broken_epoll_env 0 (sample_worker []) = Inl Out_of_bounds"
proof -
  have rb: "rb_rep sample_rb []" using retransmission_buffer_new_inv [OF sample_rb_new] by simp
  have "file_position_for sample_rb seq \<noteq> Inr (Some pos)" for seq pos
    unfolding file_position_for_rep [OF rb] by (auto simp: window_lookup_def)
  then show ?thesis
    using worker_epoll_failure [of broken_epoll_env 0 "sample_worker []" sample_build] rb
    by (auto simp: broken_epoll_env_def shutdown_env_def sample_worker_fields EINTR_def EAGAIN_def sample_build_def empty_event_def)
qed

theorem server_ready_witness:
  "\<exists>sv v'. make_server sample_build sample_server_env sample_server_cfg sample_vm = (Inr (Inr sv), v') \<and>
    df_file (sv_downstream_feed sv) = [7, 8]"
proof -
  obtain mf v1 where "mapped_new (sc_mapped_file sample_server_cfg) (se_map sample_server_env) sample_vm = (Inr mf, v1)"
    using sample_mapped by blast
  then obtain sv v' where "make_server sample_build sample_server_env sample_server_cfg sample_vm = (Inr (Inr sv), v')"
    "df_file (sv_downstream_feed sv) = me_content (se_map sample_server_env)"
    using server_ready [OF sample_server_ok(1,2)] by blast
  then show ?thesis by (simp add: sample_server_env_def sample_map_env_def)
qed

theorem server_returns_resources_witness:
  "\<exists>sv v'. make_server sample_build sample_server_env sample_server_cfg sample_vm = (Inr (Inr sv), v') \<and>
    server_destroy sample_server_env sv v' = sample_vm \<and>
    fst (make_server sample_build sample_server_env (sample_server_cfg\<lparr>sc_buffer_size := 0\<rparr>) sample_vm) = Inr (Inl Invalid_argument)"
proof -
  obtain mf v1 where m: "mapped_new (sc_mapped_file sample_server_cfg) (se_map sample_server_env) sample_vm = (Inr mf, v1)"
    using sample_mapped by blast
  obtain sv v' where sv: "make_server sample_build sample_server_env sample_server_cfg sample_vm = (Inr (Inr sv), v')"
    by (rule server_new_ok [OF sample_server_ok(1,2) m, of sample_build]) (simp add: make_server_def)
  have "fst (make_server sample_build sample_server_env (sample_server_cfg\<lparr>sc_buffer_size := 0\<rparr>) sample_vm) = Inr (Inl Invalid_argument)"
    using m by (simp add: make_server_def server_new_def retransmission_buffer_new_def is_exception_def)
  then show ?thesis using server_returns_resources [OF sample_server_ok(2,3) sv] sv by simp
qed

theorem server_failure_clean_witness:
  "\<exists>err v'. make_server sample_build sample_server_env (sample_server_cfg\<lparr>sc_buffer_size := 0\<rparr>) sample_vm = (Inr (Inl err), v') \<and>
    vm_kernel v' = vm_kernel sample_vm"
proof -
  let ?cfg = "sample_server_cfg\<lparr>sc_buffer_size := 0\<rparr>"
  obtain mf v1 where "mapped_new (sc_mapped_file ?cfg) (se_map sample_server_env) sample_vm = (Inr mf, v1)"
    using sample_mapped by auto
  then have "make_server sample_build sample_server_env ?cfg sample_vm = (Inr (Inl Invalid_argument), mapped_destroy mf v1)"
    by (simp add: make_server_def server_new_def retransmission_buffer_new_def is_exception_def)
  then show ?thesis using server_failure_clean [OF sample_server_ok(2,3)] by blast
qed

end
